(* ===== verification/Prelude.thy ===== *)
theory Prelude
  imports Main "HOL-Library.Word" "HOL-Library.Multiset" "HOL-Library.AList"
begin

text \<open>
  The shared part of the ZeroLanCom library: the types every component uses (bytes, strings as
  byte sequences, the fixed-width integers of the C++ sources), the collections of rewrite rules
  the component theories fill, decimal printing and parsing as \<^verbatim>\<open>std::to_string\<close>,
  \<^verbatim>\<open>fmt::format\<close> and \<^verbatim>\<open>std::stoi\<close> do it, association lists as the
  model of \<^verbatim>\<open>std::unordered_map\<close>, and the generic notion of a reachable state
  with the contract of an inductive invariant.
\<close>

unbundle bit_operations_syntax

section \<open>Types and rule collections\<close>

type_synonym u8 = "8 word"
type_synonym u16 = "16 word"
type_synonym u32 = "32 word"
type_synonym size_t = "64 word"
type_synonym bytes = "u8 list"

named_theorems wire_simps \<open>layout equations of the byte-level codecs\<close>
named_theorems registry_simps \<open>equations of the operations on the node registry\<close>
named_theorems inv_intros \<open>the operations keep their component's invariant\<close>
named_theorems run_simps \<open>equations that unfold one call of an operation on a concrete state\<close>

section \<open>Characters and bytes\<close>

text \<open>
  A \<^verbatim>\<open>std::string\<close> is a sequence of 8-bit \<^verbatim>\<open>char\<close>s; the codecs move
  it to and from \<^verbatim>\<open>uint8_t\<close> vectors by \<^verbatim>\<open>reinterpret_cast\<close>, which
  keeps the bit pattern.
\<close>

definition u8_of_char :: "char \<Rightarrow> u8" where
  "u8_of_char c = word_of_nat (of_char c)"

definition char_of_u8 :: "u8 \<Rightarrow> char" where
  "char_of_u8 w = char_of (unat w)"

definition bytes_of_string :: "string \<Rightarrow> bytes" where
  "bytes_of_string = map u8_of_char"

definition string_of_bytes :: "bytes \<Rightarrow> string" where
  "string_of_bytes = map char_of_u8"

lemma unat_u8_less [simp]: "unat (w :: u8) < 256"
  using unsigned_less [of w, where 'a = nat] by simp

lemma char_of_u8_of_char [simp]: "char_of_u8 (u8_of_char c) = c"
  by (simp add: u8_of_char_def char_of_u8_def unat_of_nat)

lemma u8_of_char_of_u8 [simp]: "u8_of_char (char_of_u8 w) = w"
  by (simp add: u8_of_char_def char_of_u8_def word_unat_eq_iff unat_of_nat)

lemma u8_of_char_eq_iff [simp]: "u8_of_char c = u8_of_char d \<longleftrightarrow> c = d"
  by (metis char_of_u8_of_char)

lemma string_of_bytes_of_string [simp]: "string_of_bytes (bytes_of_string s) = s"
  by (induction s) (simp_all add: bytes_of_string_def string_of_bytes_def)

lemma bytes_of_string_of_bytes [simp]: "bytes_of_string (string_of_bytes b) = b"
  by (induction b) (simp_all add: bytes_of_string_def string_of_bytes_def)

lemma length_bytes_of_string [simp]: "length (bytes_of_string s) = length s"
  by (simp add: bytes_of_string_def)

lemma length_string_of_bytes [simp]: "length (string_of_bytes b) = length b"
  by (simp add: string_of_bytes_def)

lemma bytes_of_string_eq_iff [simp]: "bytes_of_string s = bytes_of_string t \<longleftrightarrow> s = t"
  by (metis string_of_bytes_of_string)

lemma string_of_bytes_eq_iff [simp]: "string_of_bytes a = string_of_bytes b \<longleftrightarrow> a = b"
  by (metis bytes_of_string_of_bytes)

lemma u8_of_char_zero_iff: "u8_of_char c = 0 \<longleftrightarrow> c = CHR 0x00"
proof
  assume "u8_of_char c = 0"
  then have "char_of_u8 (u8_of_char c) = char_of_u8 0" by (rule arg_cong)
  then have "c = char_of_u8 0" by (simp only: char_of_u8_of_char)
  then show "c = CHR 0x00" by (simp add: char_of_u8_def char_of_def)
qed (simp add: u8_of_char_def)

lemma nul_in_string_of_bytes [simp]: "CHR 0x00 \<in> set (string_of_bytes bs) \<longleftrightarrow> 0 \<in> set bs"
proof -
  have "CHR 0x00 = char_of_u8 x \<longleftrightarrow> x = 0" for x
    by (metis u8_of_char_of_u8 u8_of_char_zero_iff)
  then show ?thesis by (auto simp: string_of_bytes_def image_iff)
qed

section \<open>Bounded vectors\<close>

text \<open>Reading a vector cell by index; \<open>None\<close> stands for a read outside the block.\<close>

definition nth_opt :: "'a list \<Rightarrow> nat \<Rightarrow> 'a option" where
  "nth_opt xs i = (if i < length xs then Some (xs ! i) else None)"

lemma nth_opt_Some_iff: "nth_opt xs i = Some x \<longleftrightarrow> i < length xs \<and> xs ! i = x"
  by (auto simp: nth_opt_def)

lemma nth_opt_None_iff: "nth_opt xs i = None \<longleftrightarrow> length xs \<le> i"
  by (auto simp: nth_opt_def)

lemma nth_opt_append_new [simp]: "nth_opt (xs @ [x]) (length xs) = Some x"
  by (simp add: nth_opt_def)

lemma nth_opt_append_old: "i < length xs \<Longrightarrow> nth_opt (xs @ ys) i = nth_opt xs i"
  by (simp add: nth_opt_def nth_append)

lemma update_keeps_others: "x \<in> set (xs[i := y]) \<Longrightarrow> x \<noteq> y \<Longrightarrow> x \<in> set xs"
  using set_update_subset_insert [of xs i y] by blast

lemma update_keeps_member: "x \<in> set xs \<Longrightarrow> xs ! i \<noteq> x \<Longrightarrow> x \<in> set (xs[i := y])"
  by (metis in_set_conv_nth length_list_update nth_list_update_neq)

lemma distinct_singleton: "distinct xs \<Longrightarrow> set xs = {x} \<Longrightarrow> xs = [x]"
  by (cases xs) (auto simp: subset_singleton_iff)

lemma length_one_nth: "length xs = 1 \<Longrightarrow> xs = [xs ! 0]"
  by (cases xs) simp_all

section \<open>Decimal numbers\<close>

text \<open>
  \<^verbatim>\<open>std::to_string\<close> and \<^verbatim>\<open>fmt\<close>'s \<^verbatim>\<open>{}\<close> print an
  unsigned number in decimal without leading zeros.
\<close>

definition digit_char :: "nat \<Rightarrow> char" where
  "digit_char d = char_of (48 + d)"

definition is_digit :: "char \<Rightarrow> bool" where
  "is_digit c \<longleftrightarrow> 48 \<le> (of_char c :: nat) \<and> (of_char c :: nat) \<le> 57"

definition digit_val :: "char \<Rightarrow> nat" where
  "digit_val c = of_char c - 48"

fun dec_of_nat :: "nat \<Rightarrow> string" where
  "dec_of_nat n =
     (if n < 10 then [digit_char n] else dec_of_nat (n div 10) @ [digit_char (n mod 10)])"

declare dec_of_nat.simps [simp del]

definition to_string :: "int \<Rightarrow> string" where
  "to_string i = (if i < 0 then CHR ''-'' # dec_of_nat (nat (- i)) else dec_of_nat (nat i))"

definition val_of_digits :: "string \<Rightarrow> nat" where
  "val_of_digits ds = foldl (\<lambda>v c. 10 * v + digit_val c) 0 ds"

lemma digit_char_of: "d < 10 \<Longrightarrow> (of_char (digit_char d) :: nat) = 48 + d"
  by (simp add: digit_char_def)

lemma is_digit_digit_char [simp]: "d < 10 \<Longrightarrow> is_digit (digit_char d)"
  by (simp add: is_digit_def digit_char_of)

lemma digit_val_digit_char [simp]: "d < 10 \<Longrightarrow> digit_val (digit_char d) = d"
  by (simp add: digit_val_def digit_char_of)

lemma digit_char_values:
  "digit_char 0 = CHR ''0''" "digit_char (Suc 0) = CHR ''1''" "digit_char 2 = CHR ''2''"
  "digit_char 3 = CHR ''3''" "digit_char 4 = CHR ''4''" "digit_char 5 = CHR ''5''"
  "digit_char 6 = CHR ''6''" "digit_char 7 = CHR ''7''" "digit_char 8 = CHR ''8''"
  "digit_char 9 = CHR ''9''"
  by code_simp+

text \<open>Printing a numeral by rewriting.\<close>

lemmas dec_eval = dec_of_nat.simps digit_char_values

lemma dec_of_nat_nonempty [simp]: "dec_of_nat n \<noteq> []"
  by (subst dec_of_nat.simps) simp

lemma dec_of_nat_digits: "c \<in> set (dec_of_nat n) \<Longrightarrow> is_digit c"
proof (induction n rule: dec_of_nat.induct)
  case (1 n)
  then show ?case
    by (cases "n < 10") (auto simp: dec_of_nat.simps [of n])
qed

lemma val_of_digits_snoc [simp]:
  "val_of_digits (ds @ [c]) = 10 * val_of_digits ds + digit_val c"
  by (simp add: val_of_digits_def)

lemma val_of_digits_single [simp]: "val_of_digits [c] = digit_val c"
  by (simp add: val_of_digits_def)

lemma val_of_dec_of_nat [simp]: "val_of_digits (dec_of_nat n) = n"
proof (induction n rule: dec_of_nat.induct)
  case (1 n)
  then show ?case
    by (cases "n < 10") (simp_all add: dec_of_nat.simps [of n])
qed

lemma dec_of_nat_inj [simp]: "dec_of_nat m = dec_of_nat n \<longleftrightarrow> m = n"
  by (metis val_of_dec_of_nat)

lemma takeWhile_dec_of_nat [simp]:
  "takeWhile is_digit (dec_of_nat n) = dec_of_nat n"
  by (simp add: takeWhile_eq_all_conv dec_of_nat_digits)

section \<open>Hash maps\<close>

text \<open>
  A \<^verbatim>\<open>std::unordered_map\<close> is an association list with distinct keys;
  \<^verbatim>\<open>m[k] = v\<close> is \<^const>\<open>AList.update\<close> and \<^verbatim>\<open>m.erase(k)\<close> is
  \<^const>\<open>AList.delete\<close>. The standard leaves the order in which a range-for visits the
  entries open, so every operation that iterates takes it as an argument, a function that
  permutes the entries (\<open>iter_order\<close>).
\<close>

type_synonym 'v hash_map = "(string \<times> 'v) list"

definition iter_order :: "('v hash_map \<Rightarrow> 'v hash_map) \<Rightarrow> bool" where
  "iter_order iter \<longleftrightarrow> (\<forall>m. mset (iter m) = mset m)"

definition keys :: "'v hash_map \<Rightarrow> string set" where
  "keys m = set (map fst m)"

definition hm_ok :: "'v hash_map \<Rightarrow> bool" where
  "hm_ok m \<longleftrightarrow> distinct (map fst m)"

lemma iter_order_set: "iter_order iter \<Longrightarrow> set (iter m) = set m"
  by (metis iter_order_def set_mset_mset)

lemma iter_order_keys: "iter_order iter \<Longrightarrow> set (map fst (iter m)) = keys m"
  by (simp add: keys_def iter_order_set)

lemma iter_order_distinct:
  "iter_order iter \<Longrightarrow> distinct (map fst (iter m)) \<longleftrightarrow> hm_ok m"
  by (metis hm_ok_def iter_order_def mset_eq_imp_distinct_iff mset_map)

lemma iter_order_id [simp]: "iter_order (\<lambda>m. m)"
  by (simp add: iter_order_def)

lemma iter_order_rev [simp]: "iter_order rev"
  by (simp add: iter_order_def)

lemma keys_iff_lookup: "k \<in> keys m \<longleftrightarrow> map_of m k \<noteq> None"
  by (auto simp: keys_def map_of_eq_None_iff image_iff)

lemma keys_dom: "keys m = dom (map_of m)"
  by (simp add: keys_def dom_map_of_conv_image_fst)

lemma keys_Nil [simp]: "keys [] = {}"
  by (simp add: keys_def)

lemma keys_update [simp]: "keys (AList.update k v m) = insert k (keys m)"
  by (simp add: keys_dom update_conv')

lemma keys_delete [simp]: "keys (AList.delete k m) = keys m - {k}"
  by (auto simp: keys_dom delete_conv')

lemma map_of_update [simp]: "map_of (AList.update k v m) = (map_of m)(k \<mapsto> v)"
  by (rule update_conv')

lemma map_of_delete [simp]: "map_of (AList.delete k m) = (map_of m)(k := None)"
  by (rule delete_conv')

lemma hm_ok_Nil [simp]: "hm_ok []"
  by (simp add: hm_ok_def)

lemma hm_ok_update [simp]: "hm_ok m \<Longrightarrow> hm_ok (AList.update k v m)"
  by (simp add: hm_ok_def distinct_update)

lemma hm_ok_delete [simp]: "hm_ok m \<Longrightarrow> hm_ok (AList.delete k m)"
  by (simp add: hm_ok_def distinct_delete)

lemma hm_ok_lookup: "hm_ok m \<Longrightarrow> (k, v) \<in> set m \<longleftrightarrow> map_of m k = Some v"
  by (simp add: hm_ok_def)

section \<open>Reachable states and inductive invariants\<close>

inductive reachable :: "('s \<Rightarrow> bool) \<Rightarrow> ('s \<Rightarrow> 's \<Rightarrow> bool) \<Rightarrow> 's \<Rightarrow> bool"
  for start :: "'s \<Rightarrow> bool" and step :: "'s \<Rightarrow> 's \<Rightarrow> bool" where
  reach_start: "start s \<Longrightarrow> reachable start step s"
| reach_step: "reachable start step s \<Longrightarrow> step s t \<Longrightarrow> reachable start step t"

text \<open>
  The contract of a component that runs by steps: its invariant holds when it is constructed and
  every step keeps it. Each stateful component interprets this locale on its own step relation.
\<close>

locale safe_system =
  fixes start :: "'s \<Rightarrow> bool"
    and step :: "'s \<Rightarrow> 's \<Rightarrow> bool"
    and inv :: "'s \<Rightarrow> bool"
  assumes start_inv: "start s \<Longrightarrow> inv s"
    and step_inv: "inv s \<Longrightarrow> step s t \<Longrightarrow> inv t"
begin

lemma reachable_inv: "reachable start step s \<Longrightarrow> inv s"
  by (induction rule: reachable.induct) (auto intro: start_inv step_inv)

lemma steps_inv: "step\<^sup>*\<^sup>* s t \<Longrightarrow> inv s \<Longrightarrow> inv t"
  by (induction rule: rtranclp_induct) (auto intro: step_inv)

lemma reachable_rtranclp: "step\<^sup>*\<^sup>* s t \<Longrightarrow> reachable start step s \<Longrightarrow> reachable start step t"
  by (induction rule: rtranclp_induct) (auto intro: reach_step)

end

end
