(* ===== verification/Exceptions.thy ===== *)
theory Exceptions
  imports Prelude
begin

text \<open>
  The exceptions the library throws and catches: the three classes of
  \<^verbatim>\<open>utils/exception.hpp\<close> with the texts their constructors build, the standard and
  ZeroMQ exceptions the sources throw or catch by name, those of msgpack, and a value that is no
  \<^verbatim>\<open>std::exception\<close> at all. \<open>MemoryError\<close> is not an exception but an access
  outside a live block, which no handler catches. A fallible function returns \<open>exn + 'a\<close>;
  \<^verbatim>\<open>try\<close>/\<^verbatim>\<open>catch\<close> is a case analysis on it.
\<close>

section \<open>The exception classes\<close>

datatype exn =
    RuntimeError string
  | LogicError string
  | BadAlloc
  | InvalidArgument string
  | OutOfRange string
  | ZmqError int string
  | FutureError string
  | NodeInfoDecodeException string
  | EncodeException string
  | DecodeException string
  | MsgpackError string
  | NonStdException
  | MemoryError

type_synonym 'a result = "exn + 'a"

fun is_std_exception :: "exn \<Rightarrow> bool" where
  "is_std_exception NonStdException = False"
| "is_std_exception MemoryError = False"
| "is_std_exception _ = True"

text \<open>\<^verbatim>\<open>e.what()\<close>: the project's classes put their prefix before the message.\<close>

fun what :: "exn \<Rightarrow> string" where
  "what (RuntimeError m) = m"
| "what (LogicError m) = m"
| "what BadAlloc = ''std::bad_alloc''"
| "what (InvalidArgument m) = m"
| "what (OutOfRange m) = m"
| "what (ZmqError _ m) = m"
| "what (FutureError m) = m"
| "what (NodeInfoDecodeException m) = ''NodeInfo Decode Error: '' @ m"
| "what (EncodeException m) = ''Encode Error: '' @ m"
| "what (DecodeException m) = ''Decode Error: '' @ m"
| "what (MsgpackError m) = m"
| "what NonStdException = []"
| "what MemoryError = []"

section \<open>Sequencing\<close>

definition ebind :: "'a result \<Rightarrow> ('a \<Rightarrow> 'b result) \<Rightarrow> 'b result" where
  "ebind r f = (case r of Inl e \<Rightarrow> Inl e | Inr x \<Rightarrow> f x)"

lemma ebind_simps [simp]: "ebind (Inl e) f = Inl e" "ebind (Inr x) f = f x"
  by (simp_all add: ebind_def)

lemma ebind_Inr_iff: "ebind r f = Inr y \<longleftrightarrow> (\<exists>x. r = Inr x \<and> f x = Inr y)"
  by (cases r) simp_all

lemma ebind_Inl_iff: "ebind r f = Inl e \<longleftrightarrow> r = Inl e \<or> (\<exists>x. r = Inr x \<and> f x = Inl e)"
  by (cases r) simp_all

text \<open>\<^verbatim>\<open>catch (const std::exception &e) { throw X(e.what()); }\<close>\<close>

definition rethrow_as :: "(string \<Rightarrow> exn) \<Rightarrow> 'a result \<Rightarrow> 'a result" where
  "rethrow_as mk r =
     (case r of
        Inl e \<Rightarrow> if is_std_exception e then Inl (mk (what e)) else Inl e
      | Inr x \<Rightarrow> Inr x)"

lemma rethrow_as_Inr [simp]: "rethrow_as mk (Inr x) = Inr x"
  by (simp add: rethrow_as_def)

lemma rethrow_as_Inr_iff [simp]: "rethrow_as mk r = Inr x \<longleftrightarrow> r = Inr x"
  by (auto simp: rethrow_as_def split: sum.splits)

text \<open>\<^verbatim>\<open>catch (const std::exception &e) { log; }\<close> around code that may throw.\<close>

definition swallow_std :: "exn option \<Rightarrow> exn option" where
  "swallow_std exc =
     (case exc of None \<Rightarrow> None | Some e \<Rightarrow> if is_std_exception e then None else Some e)"

lemma swallow_std_None [simp]: "swallow_std None = None"
  by (simp add: swallow_std_def)

section \<open>std::stoi\<close>

text \<open>
  \<^verbatim>\<open>std::stoi\<close> skips leading white space, takes an optional sign and the longest run
  of decimal digits, ignores what follows, throws \<^verbatim>\<open>std::invalid_argument\<close> when there
  is no digit and \<^verbatim>\<open>std::out_of_range\<close> when the value is not an
  \<^verbatim>\<open>int\<close>.
\<close>

definition is_space :: "char \<Rightarrow> bool" where
  "is_space c \<longleftrightarrow> (of_char c :: nat) = 32 \<or> (9 \<le> (of_char c :: nat) \<and> (of_char c :: nat) \<le> 13)"

definition int_range :: "int \<Rightarrow> bool" where
  "int_range i \<longleftrightarrow> - (2 ^ 31) \<le> i \<and> i < 2 ^ 31"

definition strip_sign :: "string \<Rightarrow> bool \<times> string" where
  "strip_sign s =
     (case s of
        [] \<Rightarrow> (False, [])
      | c # cs \<Rightarrow> if c = CHR ''-'' then (True, cs) else if c = CHR ''+'' then (False, cs) else (False, s))"

definition stoi :: "string \<Rightarrow> int result" where
  "stoi s =
     (let (neg, body) = strip_sign (dropWhile is_space s);
          ds = takeWhile is_digit body;
          v = (if neg then - int (val_of_digits ds) else int (val_of_digits ds))
      in if ds = [] then Inl (InvalidArgument ''stoi'')
         else if \<not> int_range v then Inl (OutOfRange ''stoi'')
         else Inr v)"

lemma is_digit_not_space: "is_digit c \<Longrightarrow> \<not> is_space c"
  by (auto simp: is_digit_def is_space_def)

lemma is_digit_not_sign: "is_digit c \<Longrightarrow> c \<noteq> CHR ''-'' \<and> c \<noteq> CHR ''+''"
  by (auto simp: is_digit_def)

lemma strip_sign_digit: "is_digit c \<Longrightarrow> strip_sign (c # cs) = (False, c # cs)"
  using is_digit_not_sign by (simp add: strip_sign_def)

lemma stoi_dec_of_nat:
  assumes "n < 2 ^ 31"
  shows "stoi (dec_of_nat n) = Inr (int n)"
proof -
  obtain c cs where eq: "dec_of_nat n = c # cs" by (meson dec_of_nat_nonempty neq_Nil_conv)
  then have dig: "is_digit c" using dec_of_nat_digits [of c n] by simp
  have "strip_sign (dropWhile is_space (dec_of_nat n)) = (False, dec_of_nat n)"
    using dig eq by (simp add: is_digit_not_space strip_sign_digit)
  then show ?thesis using assms by (simp add: stoi_def int_range_def)
qed

end
