(* ===== verification/Binary_Codec.thy ===== *)
theory Binary_Codec
  imports Exceptions
begin

text \<open>
  \<^verbatim>\<open>serialization/binary_codec.hpp\<close> and \<^verbatim>\<open>.cpp\<close>: the non-owning
  \<^verbatim>\<open>ByteView\<close>, the growing \<^verbatim>\<open>ByteBuffer\<close> and the extraction of
  a service name from a message frame. Memory is explicit: a view reads a block of bytes, a
  buffer owns a block of cells that may be uninitialised, and an access outside the block is a
  value of the result type. Sizes are 64-bit words, so the sums of \<^verbatim>\<open>write\<close> wrap as
  \<^verbatim>\<open>size_t\<close> does.
\<close>

section \<open>Data\<close>

text \<open>
  \<open>bv_data\<close> is the block behind the pointer, \<open>None\<close> the null pointer. A view is well
  formed when its length does not exceed the block.
\<close>

record ByteView =
  bv_data :: "bytes option"
  bv_size :: size_t

definition bv_begin :: "ByteView \<Rightarrow> nat" where
  "bv_begin v = 0"

definition bv_end :: "ByteView \<Rightarrow> nat" where
  "bv_end v = bv_begin v + unat (bv_size v)"

definition bv_ok :: "ByteView \<Rightarrow> bool" where
  "bv_ok v \<longleftrightarrow>
     (case bv_data v of None \<Rightarrow> bv_size v = 0 | Some d \<Rightarrow> unat (bv_size v) \<le> length d)"

text \<open>The bytes between \<^verbatim>\<open>begin()\<close> and \<^verbatim>\<open>end()\<close>.\<close>

definition bv_bytes :: "ByteView \<Rightarrow> bytes" where
  "bv_bytes v =
     (case bv_data v of None \<Rightarrow> [] | Some d \<Rightarrow> take (bv_end v - bv_begin v) (drop (bv_begin v) d))"

text \<open>The view of a whole message, as built from \<^verbatim>\<open>msg.data()\<close> and \<^verbatim>\<open>msg.size()\<close>.\<close>

definition view_of :: "bytes \<Rightarrow> ByteView" where
  "view_of bs = \<lparr>bv_data = Some bs, bv_size = word_of_nat (length bs)\<rparr>"

text \<open>
  A cell of the owned block is \<open>None\<close> until something is written to it: \<^verbatim>\<open>realloc\<close>
  keeps the old bytes and leaves the new ones indeterminate. The null block is \<open>[]\<close>.
\<close>

record ByteBuffer =
  bb_data :: "u8 option list"
  bb_size :: size_t
  bb_capacity :: size_t

definition bb_empty :: ByteBuffer where
  "bb_empty = \<lparr>bb_data = [], bb_size = 0, bb_capacity = 0\<rparr>"

datatype write_result =
    Written ByteBuffer
  | ThrewBadAlloc ByteBuffer
  | OutOfBounds

section \<open>ByteBuffer::write\<close>

definition realloc :: "u8 option list \<Rightarrow> size_t \<Rightarrow> u8 option list" where
  "realloc cells n = take (unat n) cells @ replicate (unat n - length cells) None"

definition memcpy_in :: "ByteBuffer \<Rightarrow> bytes \<Rightarrow> size_t \<Rightarrow> write_result" where
  "memcpy_in b buf len =
     (if unat len \<le> length buf \<and> unat (bb_size b) + unat len \<le> length (bb_data b)
      then Written (b\<lparr>bb_data := take (unat (bb_size b)) (bb_data b) @ map Some (take (unat len) buf)
                                   @ drop (unat (bb_size b) + unat len) (bb_data b),
                       bb_size := bb_size b + len\<rparr>)
      else OutOfBounds)"

text \<open>
  \<open>alloc_ok n\<close> says whether \<^verbatim>\<open>std::realloc\<close> finds a block of \<open>n\<close> bytes. The
  exception leaves the buffer as it was.
\<close>

definition bb_write :: "(size_t \<Rightarrow> bool) \<Rightarrow> ByteBuffer \<Rightarrow> bytes \<Rightarrow> size_t \<Rightarrow> write_result" where
  "bb_write alloc_ok b buf len =
     (if bb_size b + len > bb_capacity b
      then let newcap = max (bb_capacity b * 2) (bb_size b + len)
           in if \<not> alloc_ok newcap then ThrewBadAlloc b
              else memcpy_in (b\<lparr>bb_data := realloc (bb_data b) newcap, bb_capacity := newcap\<rparr>) buf len
      else memcpy_in b buf len)"

text \<open>A run of \<^verbatim>\<open>write\<close> calls, stopped by the first one that does not return.\<close>

fun bb_write_all :: "(size_t \<Rightarrow> bool) \<Rightarrow> ByteBuffer \<Rightarrow> bytes list \<Rightarrow> write_result" where
  "bb_write_all alloc_ok b [] = Written b"
| "bb_write_all alloc_ok b (c # cs) =
     (case bb_write alloc_ok b c (word_of_nat (length c)) of
        Written b' \<Rightarrow> bb_write_all alloc_ok b' cs
      | r \<Rightarrow> r)"

section \<open>decodeServiceHeader\<close>

definition kMaxLen :: nat where
  "kMaxLen = 1024"

text \<open>The \<^verbatim>\<open>while\<close> loop; \<open>None\<close> is a read outside the view's block.\<close>

function header_len :: "bytes \<Rightarrow> nat \<Rightarrow> nat \<Rightarrow> nat option" where
  "header_len d sz real_len =
     (if real_len < sz \<and> real_len < kMaxLen
      then (case nth_opt d real_len of
              None \<Rightarrow> None
            | Some x \<Rightarrow> if x \<noteq> 0 then header_len d sz (Suc real_len) else Some real_len)
      else Some real_len)"
  by pat_completeness auto
termination
  by (relation "measure (\<lambda>(d, sz, n). sz - n)") auto

declare header_len.simps [simp del]

definition decodeServiceHeader :: "ByteView \<Rightarrow> string option" where
  "decodeServiceHeader payload =
     (case bv_data payload of
        None \<Rightarrow> Some []
      | Some d \<Rightarrow>
          if bv_size payload = 0 then Some []
          else map_option (\<lambda>n. string_of_bytes (take n d)) (header_len d (unat (bv_size payload)) 0))"

section \<open>The buffer's invariant and what it holds\<close>

definition bb_inv :: "ByteBuffer \<Rightarrow> bool" where
  "bb_inv b \<longleftrightarrow>
     length (bb_data b) = unat (bb_capacity b) \<and> bb_size b \<le> bb_capacity b \<and>
     None \<notin> set (take (unat (bb_size b)) (bb_data b))"

definition bb_contents :: "ByteBuffer \<Rightarrow> bytes" where
  "bb_contents b = map the (take (unat (bb_size b)) (bb_data b))"

lemma bb_empty_inv [inv_intros]: "bb_inv bb_empty"
  by (simp add: bb_inv_def bb_empty_def)

lemma bb_contents_empty [simp]: "bb_contents bb_empty = []"
  by (simp add: bb_contents_def bb_empty_def)

lemma bb_inv_size: "bb_inv b \<Longrightarrow> unat (bb_size b) \<le> length (bb_data b)"
  by (simp add: bb_inv_def word_le_nat_alt)

lemma bb_contents_length: "bb_inv b \<Longrightarrow> length (bb_contents b) = unat (bb_size b)"
  by (simp add: bb_contents_def bb_inv_size)

lemma unat_size_add:
  "unat s + unat (l :: size_t) < 2 ^ 64 \<Longrightarrow> unat (s + l) = unat s + unat l"
  by (simp add: unat_word_ariths)

text \<open>The block \<^verbatim>\<open>realloc\<close> returns keeps every written cell when it does not shrink.\<close>

lemma take_realloc:
  "k \<le> length cells \<Longrightarrow> length cells \<le> unat n \<Longrightarrow> take k (realloc cells n) = take k cells"
  by (simp add: realloc_def)

lemma length_realloc [simp]: "length (realloc cells n) = unat n"
  by (simp add: realloc_def)

lemma memcpy_in_fits:
  assumes "None \<notin> set (take (unat (bb_size b)) (bb_data b))"
    and "length (bb_data b) = unat (bb_capacity b)"
    and "unat len \<le> length buf"
    and "unat (bb_size b) + unat len \<le> unat (bb_capacity b)"
  shows "\<exists>b'. memcpy_in b buf len = Written b' \<and> bb_inv b' \<and>
           bb_contents b' = bb_contents b @ take (unat len) buf \<and>
           bb_capacity b' = bb_capacity b"
proof -
  let ?s = "unat (bb_size b)" and ?l = "unat len"
  have cap: "unat (bb_capacity b) < 2 ^ 64"
    using unsigned_less [of "bb_capacity b", where 'a = nat] by simp
  have sum: "unat (bb_size b + len) = ?s + ?l"
    using assms(4) cap by (intro unat_size_add) linarith
  show ?thesis
    using assms sum
    by (auto simp: memcpy_in_def bb_inv_def bb_contents_def word_le_nat_alt)
qed

lemma bb_write_grows:
  assumes "bb_inv b" and "unat (bb_size b) + unat len < 2 ^ 64"
    and "bb_size b + len > bb_capacity b"
  defines "newcap \<equiv> max (bb_capacity b * 2) (bb_size b + len)"
  shows "bb_capacity b \<le> newcap"
    and "unat (bb_size b) + unat len \<le> unat newcap"
    and "None \<notin> set (take (unat (bb_size b)) (realloc (bb_data b) newcap))"
    and "take (unat (bb_size b)) (realloc (bb_data b) newcap) = take (unat (bb_size b)) (bb_data b)"
proof -
  have sum: "unat (bb_size b + len) = unat (bb_size b) + unat len"
    using assms(2) by (rule unat_size_add)
  show le: "bb_capacity b \<le> newcap"
    using assms(3) by (auto simp: newcap_def le_max_iff_disj)
  show "unat (bb_size b) + unat len \<le> unat newcap"
    using sum by (metis newcap_def max.cobounded2 word_le_nat_alt)
  have len: "length (bb_data b) \<le> unat newcap"
    using assms(1) le by (simp add: bb_inv_def word_le_nat_alt)
  show eq: "take (unat (bb_size b)) (realloc (bb_data b) newcap) = take (unat (bb_size b)) (bb_data b)"
    using bb_inv_size [OF assms(1)] len by (rule take_realloc)
  show "None \<notin> set (take (unat (bb_size b)) (realloc (bb_data b) newcap))"
    using assms(1) eq by (simp add: bb_inv_def)
qed

text \<open>
  One \<^verbatim>\<open>write\<close> that finds memory appends its input, keeps the invariant and never touches
  memory outside the block; the only sizes excluded are those whose sum is no
  \<^verbatim>\<open>size_t\<close>.
\<close>

lemma bb_write_appends:
  assumes "bb_inv b" and "unat len \<le> length buf"
    and "unat (bb_size b) + unat len < 2 ^ 64"
    and "bb_size b + len > bb_capacity b \<Longrightarrow> alloc_ok (max (bb_capacity b * 2) (bb_size b + len))"
  shows "\<exists>b'. bb_write alloc_ok b buf len = Written b' \<and> bb_inv b' \<and>
           bb_contents b' = bb_contents b @ take (unat len) buf \<and> bb_capacity b \<le> bb_capacity b'"
proof (cases "bb_size b + len > bb_capacity b")
  case True
  let ?n = "max (bb_capacity b * 2) (bb_size b + len)"
  let ?b = "b\<lparr>bb_data := realloc (bb_data b) ?n, bb_capacity := ?n\<rparr>"
  note g = bb_write_grows [OF assms(1,3) True]
  have "\<exists>b'. memcpy_in ?b buf len = Written b' \<and> bb_inv b' \<and>
          bb_contents b' = bb_contents ?b @ take (unat len) buf \<and> bb_capacity b' = bb_capacity ?b"
    using g(2,3) assms(2) by (intro memcpy_in_fits) simp_all
  moreover have "bb_contents ?b = bb_contents b"
    using g(4) by (simp add: bb_contents_def)
  ultimately show ?thesis
    using True assms(4) g(1) by (auto simp: bb_write_def Let_def)
next
  case False
  then have "unat (bb_size b) + unat len \<le> unat (bb_capacity b)"
    using unat_size_add [OF assms(3)] by (simp add: word_le_nat_alt not_less)
  with assms(1,2) have "\<exists>b'. memcpy_in b buf len = Written b' \<and> bb_inv b' \<and>
          bb_contents b' = bb_contents b @ take (unat len) buf \<and> bb_capacity b' = bb_capacity b"
    by (intro memcpy_in_fits) (simp_all add: bb_inv_def)
  with False show ?thesis by (auto simp: bb_write_def)
qed

lemma bb_write_fails:
  "bb_size b + len > bb_capacity b \<Longrightarrow> \<not> alloc_ok (max (bb_capacity b * 2) (bb_size b + len)) \<Longrightarrow>
   bb_write alloc_ok b buf len = ThrewBadAlloc b"
  by (simp add: bb_write_def)

text \<open>What one call does, whatever the allocator answers.\<close>

lemma bb_write_outcomes:
  assumes "bb_inv b" and "unat (bb_size b) + length c < 2 ^ 64"
  obtains (written) b' where "bb_write alloc_ok b c (word_of_nat (length c)) = Written b'"
      "bb_inv b'" "bb_contents b' = bb_contents b @ c"
  | (failed) n where "bb_write alloc_ok b c (word_of_nat (length c)) = ThrewBadAlloc b" "\<not> alloc_ok n"
proof -
  let ?len = "word_of_nat (length c) :: size_t"
  have len: "unat ?len = length c" using assms(2) by (simp add: unat_of_nat)
  show thesis
  proof (cases "bb_size b + ?len > bb_capacity b \<and> \<not> alloc_ok (max (bb_capacity b * 2) (bb_size b + ?len))")
    case True
    then show thesis using bb_write_fails failed by blast
  next
    case False
    then obtain b' where "bb_write alloc_ok b c ?len = Written b'" "bb_inv b'"
        "bb_contents b' = bb_contents b @ take (unat ?len) c"
      using bb_write_appends [OF assms(1), of ?len c alloc_ok] assms(2) len by auto
    then show thesis using written len by simp
  qed
qed

lemma bb_write_all_outcome:
  assumes "bb_inv b" and "unat (bb_size b) + length (concat cs) < 2 ^ 64"
  shows "(\<exists>b'. bb_write_all alloc_ok b cs = Written b' \<and> bb_inv b' \<and>
            bb_contents b' = bb_contents b @ concat cs) \<or>
         (\<exists>b' k n. bb_write_all alloc_ok b cs = ThrewBadAlloc b' \<and> bb_inv b' \<and> \<not> alloc_ok n \<and>
            k < length cs \<and> bb_contents b' = bb_contents b @ concat (take k cs))"
  using assms
proof (induction cs arbitrary: b)
  case Nil
  then show ?case by simp
next
  case (Cons c cs)
  from Cons.prems have "unat (bb_size b) + length c < 2 ^ 64" by simp
  from Cons.prems(1) this show ?case
  proof (cases rule: bb_write_outcomes [where alloc_ok = alloc_ok])
    case (written b')
    have "unat (bb_size b') = length (bb_contents b) + length c"
      using bb_contents_length [OF written(2)] written(3) by simp
    with Cons.prems have "unat (bb_size b') + length (concat cs) < 2 ^ 64"
      by (simp add: bb_contents_length)
    from Cons.IH [OF written(2) this] show ?thesis
    proof (elim disjE exE conjE)
      fix b'' k n
      assume "bb_write_all alloc_ok b' cs = ThrewBadAlloc b''" "bb_inv b''" "\<not> alloc_ok n"
        "k < length cs" "bb_contents b'' = bb_contents b' @ concat (take k cs)"
      with written show ?thesis by (intro disjI2 exI [of _ b''] exI [of _ "Suc k"] exI [of _ n]) simp
    qed (use written in simp)
  next
    case (failed n)
    with Cons.prems show ?thesis by (intro disjI2 exI [of _ b] exI [of _ 0] exI [of _ n]) simp
  qed
qed

section \<open>The service name loop\<close>

definition header_spec :: "bytes \<Rightarrow> bytes" where
  "header_spec bs = takeWhile (\<lambda>x. x \<noteq> 0) (take kMaxLen bs)"

lemma header_len_eq:
  assumes "sz \<le> length d" and "n \<le> min sz kMaxLen"
  shows "header_len d sz n = Some (n + length (takeWhile (\<lambda>x. x \<noteq> 0) (drop n (take (min sz kMaxLen) d))))"
  using assms
proof (induction d sz n rule: header_len.induct)
  case (1 d sz n)
  let ?t = "take (min sz kMaxLen) d"
  show ?case
  proof (cases "n < sz \<and> n < kMaxLen")
    case True
    then have n: "n < length ?t" using "1.prems" by simp
    then have d: "drop n ?t = d ! n # drop (Suc n) ?t" by (simp add: Cons_nth_drop_Suc [symmetric])
    show ?thesis
    proof (cases "d ! n = 0")
      case True
      then show ?thesis using n d by (subst header_len.simps) (simp add: nth_opt_def)
    next
      case False
      have "header_len d sz (Suc n) =
          Some (Suc n + length (takeWhile (\<lambda>x. x \<noteq> 0) (drop (Suc n) ?t)))"
        using True False "1.prems" by (intro "1.IH") (auto simp: nth_opt_def)
      then show ?thesis using True False n d by (subst header_len.simps) (simp add: nth_opt_def)
    qed
  next
    case False
    then have "drop n ?t = []" using "1.prems" by auto
    moreover have "header_len d sz n = Some n" using False by (subst header_len.simps) auto
    ultimately show ?thesis by simp
  qed
qed

lemma header_spec_length: "length (header_spec bs) \<le> 1024"
proof -
  have "length (header_spec bs) \<le> length (take kMaxLen bs)"
    unfolding header_spec_def by (rule length_takeWhile_le)
  then show ?thesis by (simp add: kMaxLen_def)
qed

lemma header_spec_no_nul: "0 \<notin> set (header_spec bs)"
  by (auto simp: header_spec_def dest: set_takeWhileD)

lemma header_spec_id_iff: "header_spec bs = bs \<longleftrightarrow> length bs \<le> 1024 \<and> 0 \<notin> set bs"
proof
  assume "header_spec bs = bs"
  then show "length bs \<le> 1024 \<and> 0 \<notin> set bs"
    using header_spec_length [of bs] header_spec_no_nul [of bs] by simp
next
  assume "length bs \<le> 1024 \<and> 0 \<notin> set bs"
  then show "header_spec bs = bs"
    by (auto simp: header_spec_def kMaxLen_def takeWhile_eq_all_conv)
qed

lemma decodeServiceHeader_eq:
  assumes "bv_ok v"
  shows "decodeServiceHeader v = Some (string_of_bytes (header_spec (bv_bytes v)))"
proof (cases "bv_data v")
  case None
  then show ?thesis
    by (simp add: decodeServiceHeader_def header_spec_def bv_bytes_def string_of_bytes_def)
next
  case (Some d)
  let ?sz = "unat (bv_size v)"
  from Some assms have sz: "?sz \<le> length d" by (simp add: bv_ok_def)
  have bytes: "bv_bytes v = take ?sz d" using Some by (simp add: bv_bytes_def bv_begin_def bv_end_def)
  have spec: "header_spec (take ?sz d) = takeWhile (\<lambda>x. x \<noteq> 0) (take (min ?sz kMaxLen) d)"
    by (simp add: header_spec_def min.commute)
  have "take (length (takeWhile (\<lambda>x. x \<noteq> 0) (take (min ?sz kMaxLen) d))) d =
      takeWhile (\<lambda>x. x \<noteq> 0) (take (min ?sz kMaxLen) d)"
    by (metis (no_types, lifting) append_take_drop_id append_eq_append_conv_if append_eq_conv_conj takeWhile_eq_take length_takeWhile_le take_take min_def length_take le_trans)
  then show ?thesis
    using Some sz bytes spec header_len_eq [OF sz, of 0]
    by (auto simp: decodeServiceHeader_def string_of_bytes_def unat_eq_zero)
qed

section \<open>Properties\<close>

text \<open>
  Any sequence of \<^verbatim>\<open>ByteBuffer::write\<close> calls whose total length is a
  \<^verbatim>\<open>size_t\<close> stays inside the allocated block whatever \<^verbatim>\<open>realloc\<close> answers;
  if every allocation succeeds, the buffer holds its old bytes followed by all the inputs in
  order; if one fails, the thrown \<^verbatim>\<open>bad_alloc\<close> leaves a valid buffer with the inputs of
  the calls before it.
\<close>

lemma bytebuffer_collects_writes:
  assumes "bb_inv b" and "unat (bb_size b) + length (concat cs) < 2 ^ 64"
  shows "bb_write_all alloc_ok b cs \<noteq> OutOfBounds \<and>
    ((\<forall>n. alloc_ok n) \<longrightarrow> (\<exists>b'. bb_write_all alloc_ok b cs = Written b' \<and> bb_inv b' \<and>
        bb_contents b' = bb_contents b @ concat cs)) \<and>
    (\<forall>b'. bb_write_all alloc_ok b cs = ThrewBadAlloc b' \<longrightarrow> bb_inv b' \<and>
        (\<exists>k < length cs. bb_contents b' = bb_contents b @ concat (take k cs)))"
  using bb_write_all_outcome [OF assms, of alloc_ok] by auto

lemma bytebuffer_collects_writes_witness:
  "\<exists>b'. bb_write_all (\<lambda>_. True) bb_empty [[1, 2], [], [3]] = Written b' \<and> bb_contents b' = [1, 2, 3]"
  using bytebuffer_collects_writes [of bb_empty "[[1, 2], [], [3]]" "\<lambda>_. True"] bb_empty_inv
  by (auto simp: bb_empty_def bb_contents_def)

text \<open>
  \<^verbatim>\<open>decodeServiceHeader\<close> never reads outside a well-formed view and returns the
  bytes before the first NUL, at most 1024 of them; so the name a client sends in a frame arrives
  unchanged exactly when it has at most 1024 bytes and none of them is NUL.
\<close>

lemma service_header_decoding:
  assumes "bv_ok v"
  shows "\<exists>nm. decodeServiceHeader v = Some nm \<and> length nm \<le> 1024 \<and> CHR 0x00 \<notin> set nm \<and>
     bytes_of_string nm = header_spec (bv_bytes v) \<and>
     (bytes_of_string nm = bv_bytes v \<longleftrightarrow> length (bv_bytes v) \<le> 1024 \<and> 0 \<notin> set (bv_bytes v))"
  using decodeServiceHeader_eq [OF assms] header_spec_length [of "bv_bytes v"]
    header_spec_no_nul [of "bv_bytes v"] header_spec_id_iff [of "bv_bytes v"]
  by simp

lemma service_header_decoding_witness:
  "decodeServiceHeader (view_of (bytes_of_string ''EchoService'')) = Some ''EchoService''"
proof -
  let ?v = "view_of (bytes_of_string ''EchoService'')"
  have "bv_ok ?v" by (simp add: bv_ok_def view_of_def)
  from service_header_decoding [OF this] obtain nm where
    "decodeServiceHeader ?v = Some nm" "bytes_of_string nm = header_spec (bv_bytes ?v)"
    by blast
  moreover have "header_spec (bv_bytes ?v) = bytes_of_string ''EchoService''" by code_simp
  ultimately show ?thesis by simp
qed

end
