(* ===== verification/Msgpack_Codec.thy ===== *)
theory Msgpack_Codec
  imports Binary_Codec
begin

text \<open>
  \<^verbatim>\<open>serialization/msppack_codec.hpp\<close>: \<^verbatim>\<open>encode\<close> and \<^verbatim>\<open>decode\<close>
  around the msgpack library, and the adaptors of the \<^verbatim>\<open>Empty\<close> message. msgpack is an
  argument: \<open>pack\<close> gives the pieces it writes to the buffer and the exception that may end
  it, \<open>unpack\<close> parses bytes into an object, \<open>convert\<close> turns an object into a value,
  starting from the value already there.
\<close>

section \<open>encode and decode\<close>

type_synonym 'a packer = "'a \<Rightarrow> bytes list \<times> exn option"

definition as_encode_error :: "exn \<Rightarrow> exn" where
  "as_encode_error e = (if is_std_exception e then EncodeException (what e) else e)"

text \<open>The buffer keeps its block: only its length is reset before packing.\<close>

definition encode :: "(size_t \<Rightarrow> bool) \<Rightarrow> 'a packer \<Rightarrow> 'a \<Rightarrow> ByteBuffer \<Rightarrow> exn option \<times> ByteBuffer" where
  "encode alloc_ok pack obj out =
     (case pack obj of
        (chunks, exc) \<Rightarrow>
          (case bb_write_all alloc_ok (out\<lparr>bb_size := 0\<rparr>) chunks of
             Written b \<Rightarrow> (map_option as_encode_error exc, b)
           | ThrewBadAlloc b \<Rightarrow> (Some (as_encode_error BadAlloc), b)
           | OutOfBounds \<Rightarrow> (Some MemoryError, out)))"

definition decode :: "(bytes \<Rightarrow> 'o result) \<Rightarrow> ('o \<Rightarrow> 'a \<Rightarrow> 'a result) \<Rightarrow> ByteView \<Rightarrow> 'a \<Rightarrow> 'a result" where
  "decode unpack convert bv out =
     rethrow_as DecodeException (ebind (unpack (bv_bytes bv)) (\<lambda>obj. convert obj out))"

text \<open>
  \<^verbatim>\<open>ByteBuffer out; encode(x, out);\<close> and the bytes between \<^verbatim>\<open>out.data\<close> and
  \<^verbatim>\<open>out.data + out.size\<close>.
\<close>

definition encode_bytes :: "(size_t \<Rightarrow> bool) \<Rightarrow> 'a packer \<Rightarrow> 'a \<Rightarrow> bytes result" where
  "encode_bytes alloc_ok pack obj =
     (case encode alloc_ok pack obj bb_empty of
        (Some e, out) \<Rightarrow> Inl e
      | (None, out) \<Rightarrow> Inr (bb_contents out))"

section \<open>The Empty message\<close>

datatype Empty = Empty

definition pack_Empty :: "bytes list \<Rightarrow> Empty packer" where
  "pack_Empty pack_nil e = (pack_nil, None)"

definition convert_Empty :: "('o \<Rightarrow> bool) \<Rightarrow> 'o \<Rightarrow> Empty \<Rightarrow> Empty result" where
  "convert_Empty is_nil obj e = (if \<not> is_nil obj then Inl (MsgpackError ''std::bad_cast'') else Inr e)"

section \<open>What encode and decode do\<close>

lemma bb_inv_reset: "bb_inv b \<Longrightarrow> bb_inv (b\<lparr>bb_size := 0\<rparr>)"
  by (simp add: bb_inv_def)

lemma encode_outcome:
  assumes "bb_inv out" and "length (concat (fst (pack x))) < 2 ^ 64"
  shows "\<exists>b. encode alloc_ok pack x out =
          (case pack x of (cs, exc) \<Rightarrow> (map_option as_encode_error exc, b)) \<and> bb_inv b \<and>
          bb_contents b = concat (fst (pack x)) \<or>
     (\<exists>n. \<not> alloc_ok n) \<and> encode alloc_ok pack x out = (Some (EncodeException ''std::bad_alloc''), b) \<and> bb_inv b"
proof -
  obtain cs exc where p: "pack x = (cs, exc)" by fastforce
  have "bb_inv (out\<lparr>bb_size := 0\<rparr>)" using assms(1) by (rule bb_inv_reset)
  from bb_write_all_outcome [OF this, of cs alloc_ok] assms(2) p show ?thesis
    by (auto simp: encode_def as_encode_error_def bb_contents_def)
qed

lemma bv_bytes_view_of [simp]: "length b < 2 ^ 64 \<Longrightarrow> bv_bytes (view_of b) = b"
  by (simp add: bv_bytes_def view_of_def bv_begin_def bv_end_def unat_of_nat)

lemma bv_size_view_of: "length b < 2 ^ 64 \<Longrightarrow> bv_size (view_of b) = 0 \<longleftrightarrow> b = []"
  by (auto simp: view_of_def word_unat_eq_iff unat_of_nat)

lemma bv_ok_view_of [simp]: "bv_ok (view_of b)"
  by (simp add: bv_ok_def view_of_def unat_of_nat)

lemma encode_bytes_Inr:
  assumes "pack x = (cs, None)" and "length (concat cs) < 2 ^ 64" and "\<forall>n. alloc_ok n"
  shows "encode_bytes alloc_ok pack x = Inr (concat cs)"
proof -
  have "length (concat (fst (pack x))) < 2 ^ 64" using assms by simp
  from encode_outcome [of bb_empty pack x alloc_ok, OF bb_empty_inv this] assms show ?thesis
    by (auto simp: encode_bytes_def)
qed

section \<open>The contract of a message type\<close>

text \<open>
  What RPC and publishing rely on: a value that packs is read back, over whatever value is
  already in the receiver, and is at least one byte long.
\<close>

locale serializer =
  fixes enc :: "'a \<Rightarrow> bytes result"
    and dec :: "ByteView \<Rightarrow> 'a \<Rightarrow> 'a result"
    and ok :: "'a \<Rightarrow> bool"
  assumes enc_dec: "ok x \<Longrightarrow>
      \<exists>b. enc x = Inr b \<and> b \<noteq> [] \<and> length b < 2 ^ 64 \<and> dec (view_of b) d = Inr x"
begin

lemma enc_inj: "ok x \<Longrightarrow> ok y \<Longrightarrow> enc x = enc y \<Longrightarrow> x = y"
  using enc_dec [of x undefined] enc_dec [of y undefined] by auto

lemma enc_fails: "enc x = Inl e \<Longrightarrow> \<not> ok x"
  using enc_dec [of x undefined] by auto

text \<open>What is read does not depend on the value that was there.\<close>

lemma dec_fresh: "ok x \<Longrightarrow> enc x = Inr b \<Longrightarrow> dec (view_of b) d = dec (view_of b) d'"
  using enc_dec [of x d] enc_dec [of x d'] by auto

end

text \<open>
  What is assumed of msgpack for a message type: packing does not throw and unpacking the
  written bytes gives an object that converts to the value. The model's \<^const>\<open>encode\<close> and
  \<^const>\<open>decode\<close> then meet the contract.
\<close>

locale msgpack_type =
  fixes pack :: "'a packer"
    and unpack :: "bytes \<Rightarrow> 'o result"
    and convert :: "'o \<Rightarrow> 'a \<Rightarrow> 'a result"
    and ok :: "'a \<Rightarrow> bool"
  assumes pack_unpack: "ok x \<Longrightarrow>
      \<exists>cs obj. pack x = (cs, None) \<and> concat cs \<noteq> [] \<and> length (concat cs) < 2 ^ 64 \<and>
        unpack (concat cs) = Inr obj \<and> (\<forall>d. convert obj d = Inr x)"

sublocale msgpack_type \<subseteq> ser: serializer "encode_bytes (\<lambda>_. True) pack" "decode unpack convert" ok
proof unfold_locales
  fix x d
  assume "ok x"
  then obtain cs obj where "pack x = (cs, None)" "concat cs \<noteq> []" "length (concat cs) < 2 ^ 64"
    "unpack (concat cs) = Inr obj" "\<forall>d. convert obj d = Inr x"
    using pack_unpack by blast
  then show "\<exists>b. encode_bytes (\<lambda>_. True) pack x = Inr b \<and> b \<noteq> [] \<and> length b < 2 ^ 64 \<and>
      decode unpack convert (view_of b) d = Inr x"
    by (simp add: encode_bytes_Inr decode_def del: concat_eq_Nil_conv)
qed

context msgpack_type
begin

lemma roundtrip: "ok x \<Longrightarrow>
    \<exists>b. encode_bytes (\<lambda>_. True) pack x = Inr b \<and> b \<noteq> [] \<and> length b < 2 ^ 64 \<and>
      decode unpack convert (view_of b) d = Inr x"
  by (rule ser.enc_dec)

lemma is_serializer: "serializer (encode_bytes (\<lambda>_. True) pack) (decode unpack convert) ok"
  by (rule ser.serializer_axioms)

end

text \<open>The \<^verbatim>\<open>Empty\<close> adaptors, with nil as the one-byte message it is in the msgpack format.\<close>

definition unpack_nil_only :: "bytes \<Rightarrow> unit result" where
  "unpack_nil_only bs = (if bs = [0xC0] then Inr () else Inl (MsgpackError ''parse error''))"

interpretation empty_msg: msgpack_type "pack_Empty [[0xC0]]" unpack_nil_only "convert_Empty (\<lambda>_. True)" "\<lambda>_. True"
proof unfold_locales
  fix x :: Empty
  show "\<exists>cs obj. pack_Empty [[0xC0]] x = (cs, None) \<and> concat cs \<noteq> [] \<and> length (concat cs) < 2 ^ 64 \<and>
      unpack_nil_only (concat cs) = Inr obj \<and> (\<forall>d. convert_Empty (\<lambda>_. True) obj d = Inr x)"
    by (auto simp: pack_Empty_def unpack_nil_only_def convert_Empty_def) (metis Empty.exhaust)
qed

section \<open>Properties\<close>

text \<open>
  \<^verbatim>\<open>encode\<close> into a well-formed buffer never writes outside it and forgets what the
  buffer held. If msgpack and the allocator succeed, the buffer holds exactly the packed bytes;
  otherwise the only standard exception that leaves is \<^verbatim>\<open>EncodeException\<close>. The only
  standard exception of \<^verbatim>\<open>decode\<close> is \<^verbatim>\<open>DecodeException\<close>.
\<close>

lemma codec_wraps_errors:
  assumes "bb_inv out" and "length (concat (fst (pack x))) < 2 ^ 64"
  shows "(case encode alloc_ok pack x out of (exc, b) \<Rightarrow>
       bb_inv b \<and>
       (exc = None \<longrightarrow> bb_contents b = concat (fst (pack x))) \<and>
       ((\<forall>n. alloc_ok n) \<and> snd (pack x) = None \<longrightarrow> exc = None) \<and>
       (\<forall>e. exc = Some e \<and> is_std_exception e \<longrightarrow> (\<exists>m. e = EncodeException m)) \<and>
       (snd (pack x) \<noteq> Some MemoryError \<longrightarrow> exc \<noteq> Some MemoryError)) \<and>
     (\<forall>e. decode unpack convert bv d = Inl e \<and> is_std_exception e \<longrightarrow> (\<exists>m. e = DecodeException m))"
proof -
  have "\<exists>m. e = DecodeException m" if "decode unpack convert bv d = Inl e" "is_std_exception e" for e
    using that by (auto simp: decode_def rethrow_as_def split: sum.splits if_splits)
  then show ?thesis
    using encode_outcome [of out pack x alloc_ok, OF assms]
    by (cases "pack x") ((auto simp: as_encode_error_def split: if_splits)[1], metis)
qed

lemma codec_wraps_errors_witness:
  "\<exists>b. encode (\<lambda>_. True) (pack_Empty [[0xC0]]) Empty bb_empty = (None, b) \<and> bb_contents b = [0xC0] \<and>
     (\<exists>m. decode unpack_nil_only (convert_Empty (\<lambda>_. True)) (view_of [1]) Empty = Inl (DecodeException m))"
proof -
  have l: "length (concat (fst (pack_Empty [[0xC0]] Empty))) < 2 ^ 64" by (simp add: pack_Empty_def)
  note th = codec_wraps_errors [of bb_empty "pack_Empty [[0xC0]]" Empty "\<lambda>_. True" unpack_nil_only
      "convert_Empty (\<lambda>_. True)" "view_of [1]" Empty, OF bb_empty_inv l]
  have "decode unpack_nil_only (convert_Empty (\<lambda>_. True)) (view_of [1]) Empty =
      Inl (DecodeException ''parse error'')"
    by (simp add: decode_def unpack_nil_only_def rethrow_as_def)
  with th show ?thesis
    by (cases "encode (\<lambda>_. True) (pack_Empty [[0xC0]]) Empty bb_empty") (simp add: pack_Empty_def)
qed

end
