(* ===== verification/Uuid.thy ===== *)
theory Uuid
  imports Prelude
begin

text \<open>
  \<^verbatim>\<open>utils/message.hpp\<close>: \<^verbatim>\<open>generateUUID\<close> turns four draws of the
  random generator into a version-4 UUID string of 36 characters. The generator is an argument
  (the sequence of its draws); everything after the draws is modelled.
\<close>

section \<open>generateUUID\<close>

definition hex_digit :: "nat \<Rightarrow> char" where
  "hex_digit d = (if d < 10 then char_of (48 + d) else char_of (87 + d))"

text \<open>\<^verbatim>\<open>std::hex\<close> with width 2 and fill \<^verbatim>\<open>0\<close> on a value below 256.\<close>

definition hex2 :: "u8 \<Rightarrow> string" where
  "hex2 b = [hex_digit (unat b div 16), hex_digit (unat b mod 16)]"

definition draw_bytes :: "u32 \<Rightarrow> bytes" where
  "draw_bytes r = [ucast (drop_bit 24 r AND 0xFF), ucast (drop_bit 16 r AND 0xFF),
                   ucast (drop_bit 8 r AND 0xFF), ucast (r AND 0xFF)]"

definition uuid_bytes :: "(nat \<Rightarrow> u32) \<Rightarrow> bytes" where
  "uuid_bytes draws =
     (let bs = concat (map (\<lambda>i. draw_bytes (draws i)) [0..<4]);
          bs = bs[6 := ((bs ! 6) AND 0x0F) OR 0x40]
      in bs[8 := ((bs ! 8) AND 0x3F) OR 0x80])"

definition uuid_format :: "bytes \<Rightarrow> string" where
  "uuid_format bs =
     concat (map (\<lambda>(i, b). hex2 b @ (if i = 3 \<or> i = 5 \<or> i = 7 \<or> i = 9 then ''-'' else []))
       (enumerate 0 bs))"

definition generateUUID :: "(nat \<Rightarrow> u32) \<Rightarrow> string" where
  "generateUUID draws = uuid_format (uuid_bytes draws)"

section \<open>Its shape\<close>

definition is_hex :: "char \<Rightarrow> bool" where
  "is_hex c \<longleftrightarrow> (48 \<le> (of_char c :: nat) \<and> (of_char c :: nat) \<le> 57) \<or>
               (97 \<le> (of_char c :: nat) \<and> (of_char c :: nat) \<le> 102)"

lemma of_char_hex_digit: "d < 16 \<Longrightarrow> (of_char (hex_digit d) :: nat) = (if d < 10 then 48 + d else 87 + d)"
  by (simp add: hex_digit_def)

lemma is_hex_hex_digit [simp]: "d < 16 \<Longrightarrow> is_hex (hex_digit d)"
  by (auto simp: is_hex_def of_char_hex_digit)

lemma hex_digit_inj: "c < 16 \<Longrightarrow> d < 16 \<Longrightarrow> hex_digit c = hex_digit d \<longleftrightarrow> c = d"
proof -
  assume lt: "c < 16" "d < 16"
  show ?thesis
  proof
    assume "hex_digit c = hex_digit d"
    with lt have "(if c < 10 then 48 + c else 87 + c) = (if d < 10 then 48 + d else 87 + d)"
      by (metis of_char_hex_digit)
    then show "c = d" using lt by (simp split: if_splits)
  qed simp
qed

lemma u8_nibbles [simp]: "unat (b :: u8) div 16 < 16"
  using unat_u8_less [of b] by linarith

lemma hex2_inj [simp]: "hex2 a = hex2 b \<longleftrightarrow> a = b"
proof
  assume "hex2 a = hex2 b"
  then have "unat a div 16 = unat b div 16" "unat a mod 16 = unat b mod 16"
    by (simp_all add: hex2_def hex_digit_inj)
  then have "unat a = unat b" by (metis div_mult_mod_eq)
  then show "a = b" by (simp add: word_unat_eq_iff)
qed simp

lemma length_hex2 [simp]: "length (hex2 b) = 2"
  by (simp add: hex2_def)

lemma length_uuid_bytes [simp]: "length (uuid_bytes draws) = 16"
  by (simp add: uuid_bytes_def draw_bytes_def Let_def numeral_eq_Suc)

lemma sixteen_bytes:
  assumes "length bs = 16"
  obtains b0 b1 b2 b3 b4 b5 b6 b7 b8 b9 b10 b11 b12 b13 b14 b15
  where "bs = [b0, b1, b2, b3, b4, b5, b6, b7, b8, b9, b10, b11, b12, b13, b14, b15]"
  using assms by (auto simp: numeral_eq_Suc length_Suc_conv)

lemma uuid_format_16:
  "uuid_format [b0, b1, b2, b3, b4, b5, b6, b7, b8, b9, b10, b11, b12, b13, b14, b15] =
     hex2 b0 @ hex2 b1 @ hex2 b2 @ hex2 b3 @ ''-'' @ hex2 b4 @ hex2 b5 @ ''-'' @ hex2 b6 @ hex2 b7
     @ ''-'' @ hex2 b8 @ hex2 b9 @ ''-'' @ hex2 b10 @ hex2 b11 @ hex2 b12 @ hex2 b13 @ hex2 b14 @ hex2 b15"
  by (simp add: uuid_format_def)

lemma uuid_format_inj:
  assumes "length bs = 16" and "length cs = 16" and "uuid_format bs = uuid_format cs"
  shows "bs = cs"
proof (rule sixteen_bytes [OF assms(1)], rule sixteen_bytes [OF assms(2)])
qed (use assms(3) in \<open>simp add: uuid_format_16\<close>)

lemma uuid_byte_6: "uuid_bytes draws ! 6 = (ucast (drop_bit 8 (draws 1) AND 0xFF) AND 0x0F) OR 0x40"
  by (simp add: uuid_bytes_def draw_bytes_def Let_def numeral_eq_Suc)

lemma uuid_byte_8: "uuid_bytes draws ! 8 = (ucast (drop_bit 24 (draws 2) AND 0xFF) AND 0x3F) OR 0x80"
  by (simp add: uuid_bytes_def draw_bytes_def Let_def numeral_eq_Suc)

text \<open>The version nibble is 4 and the variant bits are \<open>10\<close>.\<close>

lemma unat_div_drop_bit: "unat (w :: u8) div 2 ^ n = unat (drop_bit n w)"
  by (simp only: unat_drop_bit_eq drop_bit_eq_div [of n "unat w"])

lemma version_nibble: "unat (((x :: u8) AND 0x0F) OR 0x40) div 16 = 4"
proof -
  have "drop_bit 4 ((x AND 0x0F) OR 0x40) = (4 :: u8)"
    by (simp add: drop_bit_or drop_bit_and)
  then show ?thesis using unat_div_drop_bit [of "(x AND 0x0F) OR 0x40" 4] by simp
qed

lemma variant_bits: "unat (((x :: u8) AND 0x3F) OR 0x80) div 64 = 2"
proof -
  have "drop_bit 6 ((x AND 0x3F) OR 0x80) = (2 :: u8)"
    by (simp add: drop_bit_or drop_bit_and)
  then show ?thesis using unat_div_drop_bit [of "(x AND 0x3F) OR 0x80" 6] by simp
qed

definition uuid_shape :: "string \<Rightarrow> bool" where
  "uuid_shape s \<longleftrightarrow>
     length s = 36 \<and>
     list_all (\<lambda>i. if i \<in> {8, 13, 18, 23} then s ! i = CHR ''-'' else is_hex (s ! i)) [0..<36] \<and>
     s ! 14 = CHR ''4'' \<and> s ! 19 \<in> {CHR ''8'', CHR ''9'', CHR ''a'', CHR ''b''}"

lemma hex_digit_values:
  "hex_digit 4 = CHR ''4''" "hex_digit 8 = CHR ''8''" "hex_digit 9 = CHR ''9''"
  "hex_digit 10 = CHR ''a''" "hex_digit 11 = CHR ''b''"
  by code_simp+

lemma hex_digit_variant:
  "d div 4 = 2 \<Longrightarrow> hex_digit d \<in> {CHR ''8'', CHR ''9'', CHR ''a'', CHR ''b''}"
proof -
  assume "d div 4 = 2"
  then have "d = 8 \<or> d = 9 \<or> d = 10 \<or> d = 11" by linarith
  then show ?thesis by (auto simp: hex_digit_values)
qed

lemma uuid_format_shape:
  assumes "length bs = 16" and "unat (bs ! 6) div 16 = 4" and "unat (bs ! 8) div 64 = 2"
  shows "uuid_shape (uuid_format bs)"
proof -
  obtain b0 b1 b2 b3 b4 b5 b6 b7 b8 b9 b10 b11 b12 b13 b14 b15
    where bs: "bs = [b0, b1, b2, b3, b4, b5, b6, b7, b8, b9, b10, b11, b12, b13, b14, b15]"
    using assms(1) by (rule sixteen_bytes)
  have v: "hex_digit (unat b6 div 16) = CHR ''4''" using assms(2) by (simp add: bs hex_digit_values)
  have "unat b8 div 16 div 4 = 2" using assms(3) by (simp add: bs div_mult2_eq [symmetric])
  then have w: "hex_digit (unat b8 div 16) \<in> {CHR ''8'', CHR ''9'', CHR ''a'', CHR ''b''}"
    by (rule hex_digit_variant)
  have up: "[0..<36] = [0, 1, 2, 3, 4, 5, 6, 7, 8, 9, 10, 11, 12, 13, 14, 15, 16, 17, 18, 19, 20,
      21, 22, 23, 24, 25, 26, 27, 28, 29, 30, 31, 32, 33, 34, 35]"
    by (simp add: upt_rec)
  show ?thesis
    unfolding uuid_shape_def up bs uuid_format_16 hex2_def using v w by (simp add: is_hex_def [of "CHR ''4''"])
qed

lemma generateUUID_shape: "uuid_shape (generateUUID draws)"
  unfolding generateUUID_def
  by (rule uuid_format_shape) (simp_all add: uuid_byte_6 uuid_byte_8 version_nibble variant_bits)

lemma length_generateUUID [simp]: "length (generateUUID draws) = 36"
  using generateUUID_shape by (simp add: uuid_shape_def)

section \<open>Properties\<close>

text \<open>
  Every generated id has the version-4 UUID shape: 36 characters, hyphens after 8, 12, 16 and
  20 hexadecimal digits, version digit 4 and variant digit 8, 9, a or b; and two ids are equal
  only if all sixteen bytes behind them are.
\<close>

lemma generateUUID_wellformed:
  "uuid_shape (generateUUID draws) \<and>
   (generateUUID draws = generateUUID draws' \<longleftrightarrow> uuid_bytes draws = uuid_bytes draws')"
  using generateUUID_shape uuid_format_inj [of "uuid_bytes draws" "uuid_bytes draws'"]
  by (auto simp: generateUUID_def)

end
