(* ===== verification/Byte_Order.thy ===== *)
theory Byte_Order
  imports Prelude
begin

text \<open>
  Byte order: the object representation of a \<^verbatim>\<open>uint32_t\<close> on a little- or big-endian
  host, \<^verbatim>\<open>htonl\<close> and \<^verbatim>\<open>ntohl\<close>, and copying a number to and from a byte
  vector the way the heartbeat codec does. The composition is big-endian on every host, which is
  why heartbeats can cross machines.
\<close>

datatype endian = LittleEndian | BigEndian

definition be_bytes :: "u32 \<Rightarrow> bytes" where
  "be_bytes w = [ucast (drop_bit 24 w), ucast (drop_bit 16 w), ucast (drop_bit 8 w), ucast w]"

definition u32_of_be :: "bytes \<Rightarrow> u32" where
  "u32_of_be bs = foldl (\<lambda>v b. push_bit 8 v OR ucast b) 0 bs"

text \<open>The object representation of a \<^verbatim>\<open>uint32_t\<close> and its inverse.\<close>

fun mem_of_u32 :: "endian \<Rightarrow> u32 \<Rightarrow> bytes" where
  "mem_of_u32 BigEndian w = be_bytes w"
| "mem_of_u32 LittleEndian w = rev (be_bytes w)"

fun u32_of_mem :: "endian \<Rightarrow> bytes \<Rightarrow> u32" where
  "u32_of_mem BigEndian bs = u32_of_be bs"
| "u32_of_mem LittleEndian bs = u32_of_be (rev bs)"

definition byteswap32 :: "u32 \<Rightarrow> u32" where
  "byteswap32 w = u32_of_be (rev (be_bytes w))"

fun htonl :: "endian \<Rightarrow> u32 \<Rightarrow> u32" where
  "htonl BigEndian w = w"
| "htonl LittleEndian w = byteswap32 w"

fun ntohl :: "endian \<Rightarrow> u32 \<Rightarrow> u32" where
  "ntohl BigEndian w = w"
| "ntohl LittleEndian w = byteswap32 w"

lemma length_be_bytes [simp]: "length (be_bytes w) = 4"
  by (simp add: be_bytes_def)

lemma length_mem_of_u32 [simp]: "length (mem_of_u32 e w) = 4"
  by (cases e) simp_all

lemma u32_of_be_four:
  "u32_of_be [a, b, c, d] =
     push_bit 24 (ucast a) OR push_bit 16 (ucast b) OR push_bit 8 (ucast c) OR ucast d"
  by (rule bit_word_eqI) (auto simp: u32_of_be_def bit_simps)

lemma u32_of_be_bytes [simp]: "u32_of_be (be_bytes w) = w"
proof (rule bit_word_eqI)
  fix n
  assume "n < LENGTH(32)"
  then show "bit (u32_of_be (be_bytes w)) n = bit w n"
    by (cases "n < 8"; cases "n < 16"; cases "n < 24")
      (auto simp: be_bytes_def u32_of_be_four bit_simps)
qed

lemma u8_bit_beyond [simp]:
  "\<not> bit (w :: u8) (8 + n)" "\<not> bit (w :: u8) (16 + n)" "\<not> bit (w :: u8) (24 + n)"
  using bit_imp_le_length [of w] by fastforce+

lemma be_bytes_of_be_four: "be_bytes (u32_of_be [a, b, c, d]) = [a, b, c, d]"
  by (auto simp: be_bytes_def u32_of_be_four bit_simps intro!: bit_word_eqI)

lemma length_four: "length bs = 4 \<Longrightarrow> \<exists>a b c d. bs = [a, b, c, d]"
  by (auto simp: numeral_eq_Suc length_Suc_conv)

lemma be_bytes_u32_of_be [simp]: "length bs = 4 \<Longrightarrow> be_bytes (u32_of_be bs) = bs"
  using length_four be_bytes_of_be_four by blast

lemma u32_of_be_inj:
  "length bs = 4 \<Longrightarrow> length cs = 4 \<Longrightarrow> u32_of_be bs = u32_of_be cs \<longleftrightarrow> bs = cs"
  by (metis be_bytes_u32_of_be)

text \<open>\<^verbatim>\<open>htonl\<close> followed by a byte copy writes big-endian bytes on every host.\<close>

lemma mem_htonl [wire_simps]: "mem_of_u32 e (htonl e w) = be_bytes w"
  by (cases e) (simp_all add: byteswap32_def)

lemma ntohl_mem [wire_simps]: "length bs = 4 \<Longrightarrow> ntohl e (u32_of_mem e bs) = u32_of_be bs"
  by (cases e) (simp_all add: byteswap32_def)

lemma ntohl_htonl: "ntohl e (htonl e w) = w"
  by (cases e) (simp_all add: byteswap32_def)

end
