(* ===== verification/Net_Utils.thy ===== *)
theory Net_Utils
  imports Byte_Order Exceptions
begin

text \<open>
  The address helpers: the subnet test and the port query of \<^verbatim>\<open>utils/zmq_utils.hpp\<close>,
  and the endpoint strings \<^verbatim>\<open>tcp://<ip>:<port>\<close> that the client, the subscriber
  manager and the publisher build. \<^verbatim>\<open>inet_aton\<close> belongs to the platform and is an
  argument: \<open>None\<close> for a malformed address, otherwise the address in network byte order.
\<close>

section \<open>isInSameSubnet\<close>

definition DEFAULT_SUBNET_MASK :: u32 where
  "DEFAULT_SUBNET_MASK = 0xFFFFFF00"

definition isInSameSubnet :: "endian \<Rightarrow> (string \<Rightarrow> u32 option) \<Rightarrow> string \<Rightarrow> string \<Rightarrow> u32 \<Rightarrow> bool" where
  "isInSameSubnet e inet_aton ip1 ip2 subnetMask =
     (case inet_aton ip1 of
        None \<Rightarrow> False
      | Some addr1 \<Rightarrow>
          (case inet_aton ip2 of
             None \<Rightarrow> False
           | Some addr2 \<Rightarrow> (ntohl e addr1 AND subnetMask) = (ntohl e addr2 AND subnetMask)))"

text \<open>The default mask keeps the first three octets of the dotted quad.\<close>

lemma drop_bit_8_eq_iff:
  "drop_bit 8 a = drop_bit 8 (b :: u32) \<longleftrightarrow> (a AND DEFAULT_SUBNET_MASK) = (b AND DEFAULT_SUBNET_MASK)"
proof -
  have mask: "DEFAULT_SUBNET_MASK = NOT (mask 8)"
    by (simp add: DEFAULT_SUBNET_MASK_def mask_eq_exp_minus_1)
  have *: "x AND NOT (mask 8) = push_bit 8 (drop_bit 8 x)" for x :: u32
    by (rule bit_word_eqI) (auto simp: bit_simps)
  have "push_bit 8 (drop_bit 8 a) = push_bit 8 (drop_bit 8 b) \<Longrightarrow> drop_bit 8 a = drop_bit 8 b"
  proof (rule bit_word_eqI)
    fix n
    assume eq: "push_bit 8 (drop_bit 8 a) = push_bit 8 (drop_bit 8 b)" and "n < LENGTH(32)"
    show "bit (drop_bit 8 a) n = bit (drop_bit 8 b) n"
    proof (cases "n + 8 < 32")
      case True
      have "bit (push_bit 8 (drop_bit 8 a)) (n + 8) = bit (push_bit 8 (drop_bit 8 b)) (n + 8)"
        using eq by simp
      with True show ?thesis by (simp add: bit_push_bit_iff)
    next
      case False
      then show ?thesis using bit_imp_le_length [of a "8 + n"] bit_imp_le_length [of b "8 + n"]
        by (auto simp: bit_drop_bit_eq)
    qed
  qed
  then show ?thesis by (auto simp: mask *)
qed

lemma isInSameSubnet_iff:
  "isInSameSubnet e aton ip1 ip2 m \<longleftrightarrow>
     (\<exists>a b. aton ip1 = Some a \<and> aton ip2 = Some b \<and> (ntohl e a AND m) = (ntohl e b AND m))"
  by (auto simp: isInSameSubnet_def split: option.splits)

lemma octets_eq_iff:
  "take 3 (be_bytes a) = take 3 (be_bytes b) \<longleftrightarrow> (a AND DEFAULT_SUBNET_MASK) = (b AND DEFAULT_SUBNET_MASK)"
proof -
  have *: "take 3 (be_bytes x) = map (\<lambda>n. ucast (drop_bit n (drop_bit 8 x))) [16, 8, 0]" for x
    by (simp add: be_bytes_def)
  have "take 3 (be_bytes a) = take 3 (be_bytes b) \<Longrightarrow> drop_bit 8 a = drop_bit 8 b"
  proof (rule bit_word_eqI)
    fix n
    assume eq: "take 3 (be_bytes a) = take 3 (be_bytes b)" and "n < LENGTH(32)"
    have oct: "bit (ucast (drop_bit k a) :: u8) i = bit (ucast (drop_bit k b) :: u8) i"
      if "k \<in> {24, 16, 8}" for k i
      using eq that by (auto simp: be_bytes_def)
    consider "n < 8" | "8 \<le> n" "n < 16" | "16 \<le> n" "n < 24" | "24 \<le> n" by linarith
    then show "bit (drop_bit 8 a) n = bit (drop_bit 8 b) n"
    proof cases
      case 1
      then show ?thesis using oct [of 8 n] by (simp add: bit_simps)
    next
      case 2
      then show ?thesis using oct [of 16 "n - 8"] by (simp add: bit_simps less_diff_conv2)
    next
      case 3
      then show ?thesis using oct [of 24 "n - 16"] by (simp add: bit_simps less_diff_conv2)
    next
      case 4
      then show ?thesis using bit_imp_le_length [of a "8 + n"] bit_imp_le_length [of b "8 + n"]
        by (auto simp: bit_drop_bit_eq)
    qed
  qed
  moreover have "drop_bit 8 a = drop_bit 8 b \<Longrightarrow> take 3 (be_bytes a) = take 3 (be_bytes b)"
    by (simp only: *)
  ultimately show ?thesis unfolding drop_bit_8_eq_iff [symmetric] by blast
qed

section \<open>Endpoint strings\<close>

text \<open>\<^verbatim>\<open>"tcp://" + ip + ":" + std::to_string(port)\<close>, and the same text by \<^verbatim>\<open>fmt::format\<close>.\<close>

definition tcp_url :: "string \<Rightarrow> nat \<Rightarrow> string" where
  "tcp_url ip port = ''tcp://'' @ ip @ '':'' @ dec_of_nat port"

text \<open>The same with a signed port, as the heartbeat carries it.\<close>

definition tcp_url_i32 :: "string \<Rightarrow> u32 \<Rightarrow> string" where
  "tcp_url_i32 ip port = ''tcp://'' @ ip @ '':'' @ to_string (sint port)"

section \<open>getBoundPort\<close>

definition rfind :: "char \<Rightarrow> string \<Rightarrow> nat option" where
  "rfind c s = (if c \<in> set s then Some (length s - 1 - length (takeWhile (\<lambda>x. x \<noteq> c) (rev s))) else None)"

text \<open>\<open>endpoint\<close> is what the socket reports as its last endpoint.\<close>

definition getBoundPort :: "string \<Rightarrow> int result" where
  "getBoundPort endpoint =
     (case rfind (CHR '':'') endpoint of
        None \<Rightarrow> Inl (RuntimeError (''Invalid endpoint: '' @ endpoint))
      | Some pos \<Rightarrow> stoi (drop (pos + 1) endpoint))"

lemma rfind_last: "c \<notin> set t \<Longrightarrow> rfind c (s @ c # t) = Some (length s)"
proof -
  assume "c \<notin> set t"
  then have "takeWhile (\<lambda>x. x \<noteq> c) (rev (s @ c # t)) = rev t"
    by (auto simp: takeWhile_tail takeWhile_eq_all_conv)
  then show ?thesis by (simp add: rfind_def)
qed

lemma rfind_None [simp]: "rfind c s = None \<longleftrightarrow> c \<notin> set s"
  by (simp add: rfind_def)

lemma colon_not_digit: "CHR '':'' \<notin> set (dec_of_nat n)"
  using dec_of_nat_digits [of "CHR '':''" n] by (auto simp: is_digit_def)

lemma getBoundPort_suffix:
  "n < 2 ^ 31 \<Longrightarrow> getBoundPort (s @ '':'' @ dec_of_nat n) = Inr (int n)"
  using rfind_last [OF colon_not_digit, of s n]
  by (simp add: getBoundPort_def stoi_dec_of_nat)

lemma getBoundPort_no_colon:
  "CHR '':'' \<notin> set s \<Longrightarrow> getBoundPort s = Inl (RuntimeError (''Invalid endpoint: '' @ s))"
  by (simp add: getBoundPort_def rfind_def)

lemma split_at_last_colon:
  assumes "s @ '':'' @ dec_of_nat m = t @ '':'' @ dec_of_nat n"
  shows "s = t \<and> m = n"
proof -
  have "Some (length s) = Some (length t)"
    using rfind_last [OF colon_not_digit, of s m] rfind_last [OF colon_not_digit, of t n] assms by simp
  then have "length s = length t" by simp
  with assms show ?thesis by simp
qed

text \<open>Distinct addresses have distinct endpoint strings.\<close>

lemma tcp_url_inj [simp]: "tcp_url ip p = tcp_url ip' p' \<longleftrightarrow> ip = ip' \<and> p = p'"
  using split_at_last_colon [of ip p ip' p'] by (auto simp: tcp_url_def)

lemma getBoundPort_tcp_url: "n < 2 ^ 31 \<Longrightarrow> getBoundPort (tcp_url ip n) = Inr (int n)"
  using getBoundPort_suffix [of n "''tcp://'' @ ip"] by (simp add: tcp_url_def)

lemma sint_small: "unat (w :: u32) < 2 ^ 31 \<Longrightarrow> sint w = int (unat w)"
proof -
  assume a: "unat w < 2 ^ 31"
  then have "int (unat w) < int (2 ^ 31)" by (simp only: of_nat_less_iff)
  then have small: "uint w < 2 ^ 31" by simp
  have "signed_take_bit 31 (uint w) = uint w"
    using small by (intro signed_take_bit_int_eq_self) (auto intro: order_trans [of _ 0])
  moreover have "sint w = signed_take_bit 31 (uint w)"
    using sint_uint [of w] by simp
  ultimately show ?thesis by simp
qed

lemma tcp_url_i32_eq: "unat p < 2 ^ 31 \<Longrightarrow> tcp_url_i32 ip p = tcp_url ip (unat p)"
  by (simp add: tcp_url_i32_def tcp_url_def to_string_def sint_small)

section \<open>Properties\<close>

text \<open>
  With the default mask two well-formed addresses are in the same subnet exactly when their
  first three octets agree; malformed addresses are in no subnet; the test is symmetric and
  transitive.
\<close>

lemma same_subnet_octets:
  "(isInSameSubnet e aton ip1 ip2 DEFAULT_SUBNET_MASK \<longleftrightarrow>
      (\<exists>a b. aton ip1 = Some a \<and> aton ip2 = Some b \<and>
             take 3 (be_bytes (ntohl e a)) = take 3 (be_bytes (ntohl e b)))) \<and>
   isInSameSubnet e aton ip1 ip2 m = isInSameSubnet e aton ip2 ip1 m \<and>
   (isInSameSubnet e aton ip1 ip2 m \<and> isInSameSubnet e aton ip2 ip3 m \<longrightarrow>
      isInSameSubnet e aton ip1 ip3 m)"
  by (auto simp: isInSameSubnet_iff octets_eq_iff)

lemma same_subnet_octets_witness:
  "isInSameSubnet BigEndian (\<lambda>s. if s = ''a'' then Some 0xC0A80105 else Some 0xC0A801FE) ''a'' ''b''
     DEFAULT_SUBNET_MASK"
  using same_subnet_octets [of BigEndian "\<lambda>s. if s = ''a'' then Some 0xC0A80105 else Some 0xC0A801FE"
      "''a''" "''b''" 0 "''a''"]
  by (simp add: be_bytes_def)

end
