(* ===== verification/Node_Info.thy ===== *)
theory Node_Info
  imports Uuid Net_Utils
begin

text \<open>
  \<^verbatim>\<open>nodes/node_info.hpp\<close> and \<^verbatim>\<open>.cpp\<close>: what a node tells others about
  itself, and the lines \<^verbatim>\<open>printNodeInfo\<close> logs.
\<close>

record SocketInfo =
  si_name :: string
  si_ip :: string
  si_port :: u16

record NodeInfo =
  nodeID :: string
  infoID :: u32
  ni_name :: string
  ni_ip :: string
  topics :: "SocketInfo list"
  services :: "SocketInfo list"

text \<open>
  \<^verbatim>\<open>NodeInfo()\<close>, the value a map creates for a missing key, is zero where it has no constructor. A
  local variable \<^verbatim>\<open>NodeInfo info;\<close> is not: \<^verbatim>\<open>infoID\<close> has no initialiser and holds an
  indeterminate value, here any \<open>u\<close>.
\<close>

definition NodeInfo_default :: NodeInfo where
  "NodeInfo_default =
     \<lparr>nodeID = [], infoID = 0, ni_name = [], ni_ip = [], topics = [], services = []\<rparr>"

definition NodeInfo_uninit :: "u32 \<Rightarrow> NodeInfo" where
  "NodeInfo_uninit u = NodeInfo_default\<lparr>infoID := u\<rparr>"

definition socket_line :: "SocketInfo \<Rightarrow> string" where
  "socket_line t = ''  - '' @ si_name t @ '':'' @ dec_of_nat (unat (si_port t))"

definition printNodeInfo :: "NodeInfo \<Rightarrow> string list" where
  "printNodeInfo n =
     [''-------------------------------------------------------------'',
      ''NodeID: '' @ nodeID n, ''InfoID: '' @ dec_of_nat (unat (infoID n)), ''Name: '' @ ni_name n,
      ''IP: '' @ ni_ip n, ''Topics:''] @ map socket_line (topics n)
     @ [''Services:''] @ map socket_line (services n)"

text \<open>The endpoint of an announced socket.\<close>

definition socket_url :: "SocketInfo \<Rightarrow> string" where
  "socket_url t = tcp_url (si_ip t) (unat (si_port t))"

lemma socket_url_eq_iff:
  "socket_url s = socket_url t \<longleftrightarrow> si_ip s = si_ip t \<and> si_port s = si_port t"
  by (simp add: socket_url_def word_unat_eq_iff)

end
