(* ===== verification/Heartbeat.thy ===== *)
theory Heartbeat
  imports Byte_Order Exceptions "HOL-Library.Monad_Syntax"
begin

text \<open>
  \<^verbatim>\<open>nodes/heartbeat_message.hpp\<close> and \<^verbatim>\<open>.cpp\<close>: the datagram a node
  multicasts every second. Encoding writes the fields in network byte order and refuses a node
  id that has not 36 characters; decoding reads them back from a block of which \<open>size\<close> bytes
  were received and refuses fewer than 56. Reads are bounds checked: \<open>None\<close> is a read outside
  the block. The codec is an instance of the \<open>wire_format\<close> contract.
\<close>

section \<open>The message\<close>

definition ZLC_VERSION :: "u32 \<times> u32 \<times> u32" where
  "ZLC_VERSION = (0, 1, 0)"

text \<open>\<^verbatim>\<open>int32_t\<close> fields are kept as their 32-bit patterns.\<close>

record HeartbeatMessage =
  zlc_version :: "u32 \<times> u32 \<times> u32"
  node_id :: string
  info_id :: u32
  service_port :: u32
  group_name :: string

definition HEARTBEAT_FIXED_SIZE :: nat where
  "HEARTBEAT_FIXED_SIZE = 56"

section \<open>encode\<close>

definition put_u32 :: "endian \<Rightarrow> u32 \<Rightarrow> bytes" where
  "put_u32 e w = mem_of_u32 e (htonl e w)"

definition hb_encode :: "endian \<Rightarrow> HeartbeatMessage \<Rightarrow> bytes result" where
  "hb_encode e m =
     (let (major, minor, patch) = zlc_version m;
          buf = concat (map (put_u32 e) [major, minor, patch])
      in if length (node_id m) \<noteq> 36
         then Inl (RuntimeError ''node_id must be exactly 36 characters'')
         else Inr (buf @ bytes_of_string (node_id m) @ put_u32 e (info_id m)
                   @ put_u32 e (service_port m) @ bytes_of_string (group_name m)))"

section \<open>decode\<close>

definition read_block :: "bytes \<Rightarrow> nat \<Rightarrow> nat \<Rightarrow> bytes option" where
  "read_block data off n = (if off + n \<le> length data then Some (take n (drop off data)) else None)"

definition get_u32 :: "endian \<Rightarrow> bytes \<Rightarrow> nat \<Rightarrow> u32 option" where
  "get_u32 e data off = map_option (\<lambda>b. ntohl e (u32_of_mem e b)) (read_block data off 4)"

definition hb_decode :: "endian \<Rightarrow> bytes \<Rightarrow> nat \<Rightarrow> HeartbeatMessage result option" where
  "hb_decode e data sz =
     (if sz < HEARTBEAT_FIXED_SIZE
      then Some (Inl (RuntimeError ''HeartbeatMessage: data too short, expected at least 56 bytes''))
      else do {
        v0 \<leftarrow> get_u32 e data 0;
        v1 \<leftarrow> get_u32 e data 4;
        v2 \<leftarrow> get_u32 e data 8;
        nid \<leftarrow> read_block data 12 36;
        info \<leftarrow> get_u32 e data 48;
        port \<leftarrow> get_u32 e data 52;
        grp \<leftarrow> (if sz > HEARTBEAT_FIXED_SIZE then read_block data 56 (sz - 56) else Some []);
        Some (Inr \<lparr>zlc_version = (v0, v1, v2), node_id = string_of_bytes nid, info_id = info,
                   service_port = port, group_name = string_of_bytes grp\<rparr>)
      })"

section \<open>The wire format contract\<close>

text \<open>
  What the discovery protocol needs of a datagram format: every valid message is encoded, the
  decoder returns it, and whatever the decoder accepts is the encoding of the message it
  returns. \<open>None\<close> of the decoder is a memory error.
\<close>

locale wire_format =
  fixes enc :: "'m \<Rightarrow> bytes result"
    and dec :: "bytes \<Rightarrow> 'm result option"
    and valid :: "'m \<Rightarrow> bool"
  assumes enc_valid: "valid m \<Longrightarrow> \<exists>b. enc m = Inr b \<and> dec b = Some (Inr m)"
    and dec_sound: "dec b = Some (Inr m) \<Longrightarrow> valid m \<and> enc m = Inr b"
    and dec_safe: "dec b \<noteq> None"
begin

lemma enc_injective: "valid m \<Longrightarrow> valid n \<Longrightarrow> enc m = enc n \<Longrightarrow> m = n"
  using enc_valid by (metis Inr_inject option.inject)

lemma dec_enc: "valid m \<Longrightarrow> enc m = Inr b \<Longrightarrow> dec b = Some (Inr m)"
  using enc_valid by fastforce

lemma dec_injective: "dec a = Some (Inr m) \<Longrightarrow> dec b = Some (Inr m) \<Longrightarrow> a = b"
  by (metis Inr_inject dec_sound)

lemma dec_iff: "dec b = Some (Inr m) \<longleftrightarrow> valid m \<and> enc m = Inr b"
  using dec_sound dec_enc by blast

end

definition hb_valid :: "HeartbeatMessage \<Rightarrow> bool" where
  "hb_valid m \<longleftrightarrow> length (node_id m) = 36"

text \<open>The layout on the wire, the same on every host.\<close>

definition hb_layout :: "HeartbeatMessage \<Rightarrow> bytes" where
  "hb_layout m =
     (case zlc_version m of (a, b, c) \<Rightarrow> be_bytes a @ be_bytes b @ be_bytes c)
     @ bytes_of_string (node_id m) @ be_bytes (info_id m) @ be_bytes (service_port m)
     @ bytes_of_string (group_name m)"

lemma hb_encode_valid [wire_simps]: "hb_valid m \<Longrightarrow> hb_encode e m = Inr (hb_layout m)"
  by (simp add: hb_encode_def hb_layout_def hb_valid_def put_u32_def mem_htonl split: prod.splits)

lemma hb_encode_invalid:
  "\<not> hb_valid m \<Longrightarrow> hb_encode e m = Inl (RuntimeError ''node_id must be exactly 36 characters'')"
  by (simp add: hb_encode_def hb_valid_def split: prod.splits)

lemma hb_encode_Inr_iff: "hb_encode e m = Inr b \<longleftrightarrow> hb_valid m \<and> b = hb_layout m"
  by (cases "hb_valid m") (auto simp: hb_encode_valid hb_encode_invalid)

lemma length_hb_layout:
  "hb_valid m \<Longrightarrow> length (hb_layout m) = HEARTBEAT_FIXED_SIZE + length (group_name m)"
  by (simp add: hb_layout_def hb_valid_def HEARTBEAT_FIXED_SIZE_def split: prod.splits)

lemma get_u32_in_bounds [wire_simps]:
  "off + 4 \<le> length data \<Longrightarrow> get_u32 e data off = Some (u32_of_be (take 4 (drop off data)))"
  by (simp add: get_u32_def read_block_def ntohl_mem)

text \<open>The message a sufficiently long block stands for.\<close>

definition hb_parse :: "bytes \<Rightarrow> HeartbeatMessage" where
  "hb_parse d =
     \<lparr>zlc_version = (u32_of_be (take 4 d), u32_of_be (take 4 (drop 4 d)), u32_of_be (take 4 (drop 8 d))),
      node_id = string_of_bytes (take 36 (drop 12 d)), info_id = u32_of_be (take 4 (drop 48 d)),
      service_port = u32_of_be (take 4 (drop 52 d)), group_name = string_of_bytes (drop 56 d)\<rparr>"

lemma hb_decode_long:
  assumes "HEARTBEAT_FIXED_SIZE \<le> sz" and "sz \<le> length data"
  shows "hb_decode e data sz = Some (Inr (hb_parse (take sz data)))"
proof -
  have "sz = 56 \<or> 56 < sz" using assms(1) by (auto simp: HEARTBEAT_FIXED_SIZE_def)
  then show ?thesis
    using assms
    by (auto simp: hb_decode_def hb_parse_def HEARTBEAT_FIXED_SIZE_def get_u32_in_bounds
        read_block_def drop_take string_of_bytes_def)
qed

lemma hb_decode_short:
  "sz < HEARTBEAT_FIXED_SIZE \<Longrightarrow> hb_decode e data sz =
     Some (Inl (RuntimeError ''HeartbeatMessage: data too short, expected at least 56 bytes''))"
  by (simp add: hb_decode_def)

lemma hb_parse_layout: "hb_valid m \<Longrightarrow> hb_parse (hb_layout m) = m"
  by (cases m) (auto simp: hb_parse_def hb_layout_def hb_valid_def)

lemma hb_parse_valid: "HEARTBEAT_FIXED_SIZE \<le> length d \<Longrightarrow> hb_valid (hb_parse d)"
  by (simp add: hb_valid_def hb_parse_def HEARTBEAT_FIXED_SIZE_def)

lemma take_drop_rejoin: "take k (drop n d) @ drop (n + k) d = drop n d"
  by (metis add.commute append_take_drop_id drop_drop)

lemma hb_layout_parse:
  assumes "HEARTBEAT_FIXED_SIZE \<le> length d"
  shows "hb_layout (hb_parse d) = d"
proof -
  have "hb_layout (hb_parse d) = take 4 d @ take 4 (drop 4 d) @ take 4 (drop 8 d) @ take 36 (drop 12 d)
      @ take 4 (drop 48 d) @ take 4 (drop 52 d) @ drop 56 d"
    using assms by (simp add: hb_layout_def hb_parse_def HEARTBEAT_FIXED_SIZE_def)
  also have "\<dots> = take 4 d @ take 4 (drop 4 d) @ take 4 (drop 8 d) @ take 36 (drop 12 d) @ drop 48 d"
    using take_drop_rejoin [of 4 52 d] take_drop_rejoin [of 4 48 d] by simp
  also have "\<dots> = take 4 d @ take 4 (drop 4 d) @ take 4 (drop 8 d) @ drop 12 d"
    using take_drop_rejoin [of 36 12 d] by simp
  also have "\<dots> = d"
    using take_drop_rejoin [of 4 8 d] take_drop_rejoin [of 4 4 d] take_drop_rejoin [of 4 0 d] by simp
  finally show ?thesis .
qed

interpretation hb: wire_format "hb_encode e" "\<lambda>b. hb_decode e' b (length b)" hb_valid for e e'
proof unfold_locales
  fix m
  assume m: "hb_valid m"
  then have "HEARTBEAT_FIXED_SIZE \<le> length (hb_layout m)" by (simp add: length_hb_layout)
  with m show "\<exists>b. hb_encode e m = Inr b \<and> hb_decode e' b (length b) = Some (Inr m)"
    by (simp add: hb_encode_valid hb_decode_long hb_parse_layout)
next
  fix b m
  assume dec: "hb_decode e' b (length b) = Some (Inr m)"
  then have len: "HEARTBEAT_FIXED_SIZE \<le> length b"
    by (metis Inl_Inr_False hb_decode_short not_less option.inject)
  with dec have "m = hb_parse b" by (simp add: hb_decode_long)
  with len show "hb_valid m \<and> hb_encode e m = Inr b"
    by (simp add: hb_parse_valid hb_encode_valid hb_layout_parse)
next
  fix b
  show "hb_decode e' b (length b) \<noteq> None"
    by (cases "length b < HEARTBEAT_FIXED_SIZE") (simp_all add: hb_decode_short hb_decode_long)
qed

section \<open>Properties\<close>

text \<open>
  C8: A heartbeat with a 36-character node id encodes to 56 bytes plus the group name, and every
  receiver, whatever its byte order and whatever follows the datagram in its receive buffer,
  decodes exactly the message that was sent.
\<close>

theorem heartbeat_roundtrip:
  assumes "length (node_id m) = 36"
  shows "\<exists>b. hb_encode e m = Inr b \<and> length b = 56 + length (group_name m) \<and>
           hb_decode e' (b @ rest) (length b) = Some (Inr m)"
proof -
  have v: "hb_valid m" using assms by (simp add: hb_valid_def)
  then have "HEARTBEAT_FIXED_SIZE \<le> length (hb_layout m)" by (simp add: length_hb_layout)
  with v show ?thesis
    by (simp add: hb_encode_valid hb_decode_long hb_parse_layout length_hb_layout HEARTBEAT_FIXED_SIZE_def)
qed

definition hb_example :: HeartbeatMessage where
  "hb_example = \<lparr>zlc_version = (0, 1, 0), node_id = replicate 36 (CHR ''a''), info_id = 7,
                 service_port = 5555, group_name = ''grp''\<rparr>"

theorem heartbeat_roundtrip_witness:
  "\<exists>b. hb_encode LittleEndian hb_example = Inr b \<and> length b = 59 \<and>
       hb_decode BigEndian (b @ [0, 0]) (length b) = Some (Inr hb_example)"
  using heartbeat_roundtrip [of hb_example LittleEndian BigEndian "[0, 0]"]
  by (simp add: hb_example_def)

text \<open>
  C33: Decoding a received block never reads outside it: fewer than 56 received bytes give the
  documented runtime error, and any longer datagram is accepted as the unique message whose
  encoding is those bytes.
\<close>

theorem heartbeat_decode_total:
  assumes "sz \<le> length data"
  shows "(sz < 56 \<and> hb_decode e data sz = Some (Inl (RuntimeError
            ''HeartbeatMessage: data too short, expected at least 56 bytes''))) \<or>
         (56 \<le> sz \<and> (\<exists>m. hb_decode e data sz = Some (Inr m) \<and>
            (\<forall>m'. hb_encode e' m' = Inr (take sz data) \<longleftrightarrow> m' = m)))"
proof (cases "sz < 56")
  case True
  then show ?thesis by (simp add: hb_decode_short HEARTBEAT_FIXED_SIZE_def)
next
  case False
  let ?m = "hb_parse (take sz data)"
  have len: "HEARTBEAT_FIXED_SIZE \<le> length (take sz data)"
    using False assms by (simp add: HEARTBEAT_FIXED_SIZE_def)
  have dec: "hb_decode e data sz = Some (Inr ?m)"
    using False assms by (intro hb_decode_long) (simp_all add: HEARTBEAT_FIXED_SIZE_def)
  have "hb_encode e' m' = Inr (take sz data) \<longleftrightarrow> m' = ?m" for m'
    using len hb_parse_valid [OF len] hb_layout_parse [OF len] hb_parse_layout
    by (auto simp: hb_encode_Inr_iff)
  with False dec show ?thesis by auto
qed

theorem heartbeat_decode_total_witness:
  "hb_decode LittleEndian (replicate 55 0) 55 = Some (Inl (RuntimeError
     ''HeartbeatMessage: data too short, expected at least 56 bytes''))"
  using heartbeat_decode_total [of 55 "replicate 55 0" LittleEndian BigEndian] by simp

end
