(* ===== verification/Event.thy ===== *)
theory Event
  imports Exceptions
begin

text \<open>
  \<^verbatim>\<open>utils/event.hpp\<close>: the observer list through which the node registry tells the
  subscriber manager about nodes. A callback changes the world \<open>'w\<close> it captured and may
  throw; \<^verbatim>\<open>trigger\<close> runs a snapshot of the list in registration order and stops at the
  first exception, which reaches the caller.
\<close>

type_synonym ('a, 'w) callback = "'a \<Rightarrow> 'w \<Rightarrow> exn option \<times> 'w"

record ('a, 'w) Event =
  callbacks :: "('a, 'w) callback list"

definition event_empty :: "('a, 'w) Event" where
  "event_empty = \<lparr>callbacks = []\<rparr>"

definition subscribe :: "('a, 'w) callback \<Rightarrow> ('a, 'w) Event \<Rightarrow> ('a, 'w) Event" where
  "subscribe cb ev = ev\<lparr>callbacks := callbacks ev @ [cb]\<rparr>"

fun run_callbacks :: "('a, 'w) callback list \<Rightarrow> 'a \<Rightarrow> 'w \<Rightarrow> exn option \<times> 'w" where
  "run_callbacks [] a w = (None, w)"
| "run_callbacks (cb # cbs) a w =
     (case cb a w of
        (Some e, w') \<Rightarrow> (Some e, w')
      | (None, w') \<Rightarrow> run_callbacks cbs a w')"

definition trigger :: "('a, 'w) Event \<Rightarrow> 'a \<Rightarrow> 'w \<Rightarrow> exn option \<times> 'w" where
  "trigger ev a w = (let callbacks_copy = callbacks ev in run_callbacks callbacks_copy a w)"

definition event_clear :: "('a, 'w) Event \<Rightarrow> ('a, 'w) Event" where
  "event_clear ev = ev\<lparr>callbacks := []\<rparr>"

definition subscriberCount :: "('a, 'w) Event \<Rightarrow> nat" where
  "subscriberCount ev = length (callbacks ev)"

section \<open>The contract of an observer list\<close>

text \<open>
  What the publisher of events relies on: no observer, no effect; a new observer runs after all
  the older ones, and only if none of them threw.
\<close>

locale observable =
  fixes none :: "'e"
    and sub :: "('a, 'w) callback \<Rightarrow> 'e \<Rightarrow> 'e"
    and fire :: "'e \<Rightarrow> 'a \<Rightarrow> 'w \<Rightarrow> exn option \<times> 'w"
  assumes fire_none: "fire none a w = (None, w)"
    and fire_sub: "fire (sub cb ev) a w =
          (case fire ev a w of (Some e, w') \<Rightarrow> (Some e, w') | (None, w') \<Rightarrow> cb a w')"
begin

lemma fire_single: "fire (sub cb none) a w = cb a w"
  by (simp add: fire_sub fire_none)

lemma fire_all:
  "fire (foldl (\<lambda>ev cb. sub cb ev) none cbs) a w = run_callbacks cbs a w"
proof (induction cbs arbitrary: w rule: rev_induct)
  case Nil
  show ?case by (simp add: fire_none)
next
  case (snoc cb cbs)
  have "run_callbacks (cbs @ [cb]) a w =
      (case run_callbacks cbs a w of (Some e, w') \<Rightarrow> (Some e, w') | (None, w') \<Rightarrow> cb a w')"
    by (induction cbs arbitrary: w) (auto split: prod.splits option.splits)
  then show ?case by (simp add: fire_sub snoc.IH)
qed

end

lemma run_callbacks_append:
  "run_callbacks (cbs @ ds) a w =
     (case run_callbacks cbs a w of (Some e, w') \<Rightarrow> (Some e, w') | (None, w') \<Rightarrow> run_callbacks ds a w')"
  by (induction cbs arbitrary: w) (auto split: prod.splits option.splits)

interpretation ev: observable event_empty subscribe trigger
proof unfold_locales
  fix a :: 'a and w :: 'w
  show "trigger event_empty a w = (None, w)"
    by (simp add: trigger_def event_empty_def)
next
  fix cb :: "('a, 'w) callback" and ev a w
  show "trigger (subscribe cb ev) a w =
      (case trigger ev a w of (Some e, w') \<Rightarrow> (Some e, w') | (None, w') \<Rightarrow> cb a w')"
    by (auto simp: trigger_def subscribe_def run_callbacks_append split: prod.splits option.splits)
qed

lemma trigger_subscribe_single [simp]: "trigger (subscribe cb event_empty) a w = cb a w"
  by (rule ev.fire_single)

lemma trigger_empty [simp]: "trigger event_empty a w = (None, w)"
  by (rule ev.fire_none)

lemma subscriberCount_ops [simp]:
  "subscriberCount event_empty = 0"
  "subscriberCount (subscribe cb ev) = Suc (subscriberCount ev)"
  "subscriberCount (event_clear ev) = 0"
  by (simp_all add: subscriberCount_def event_empty_def subscribe_def event_clear_def)

text \<open>Several events in a row, stopped by the first exception.\<close>

fun trigger_all :: "('a, 'w) Event \<Rightarrow> 'a list \<Rightarrow> 'w \<Rightarrow> exn option \<times> 'w" where
  "trigger_all ev [] w = (None, w)"
| "trigger_all ev (a # as) w =
     (case trigger ev a w of
        (Some e, w') \<Rightarrow> (Some e, w')
      | (None, w') \<Rightarrow> trigger_all ev as w')"

end
