(* ===== verification/Node_Info_Manager.thy ===== *)
theory Node_Info_Manager
  imports Node_Info Heartbeat Event
begin

text \<open>
  \<^verbatim>\<open>nodes/node_info_manager.hpp\<close> and \<^verbatim>\<open>.cpp\<close>: the registry of remote
  nodes (their last fetched description, its version and the time of the last heartbeat) and the
  description of the local node. Time points are nanoseconds of the steady clock. The events
  carry callbacks over the world \<open>'w\<close> outside the registry. Every operation is one critical
  section of the code except \<^verbatim>\<open>processHeartbeat\<close>, which is its two sections with the
  fetch between them.
\<close>

section \<open>State\<close>

record 'w NodeInfoManager =
  nodes_info :: "NodeInfo hash_map"
  nodes_info_id :: "u32 hash_map"
  nodes_heartbeat :: "int hash_map"
  localNodeInfo :: NodeInfo
  groupName :: string
  servicePort :: u32
  node_update_event :: "(NodeInfo, 'w) Event"
  node_remove_event :: "(NodeInfo, 'w) Event"

definition NodeInfoManager_ctor :: "(nat \<Rightarrow> u32) \<Rightarrow> string \<Rightarrow> string \<Rightarrow> 'w NodeInfoManager" where
  "NodeInfoManager_ctor draws nm addr =
     \<lparr>nodes_info = [], nodes_info_id = [], nodes_heartbeat = [],
      localNodeInfo = \<lparr>nodeID = generateUUID draws, infoID = 0, ni_name = nm, ni_ip = addr,
                       topics = [], services = []\<rparr>,
      groupName = [], servicePort = 0,
      node_update_event = event_empty, node_remove_event = event_empty\<rparr>"

section \<open>Private helpers\<close>

definition updateNodeUnlocked :: "int \<Rightarrow> string \<Rightarrow> NodeInfo \<Rightarrow> 'w NodeInfoManager \<Rightarrow> 'w NodeInfoManager" where
  "updateNodeUnlocked now nid info s =
     s\<lparr>nodes_info := AList.update nid info (nodes_info s),
       nodes_info_id := AList.update nid (infoID info) (nodes_info_id s),
       nodes_heartbeat := AList.update nid now (nodes_heartbeat s)\<rparr>"

definition checkNodeIDUnlocked :: "string \<Rightarrow> 'w NodeInfoManager \<Rightarrow> bool" where
  "checkNodeIDUnlocked nid s = (map_of (nodes_info s) nid \<noteq> None)"

definition checkNodeInfoIDUnlocked :: "string \<Rightarrow> u32 \<Rightarrow> 'w NodeInfoManager \<Rightarrow> bool" where
  "checkNodeInfoIDUnlocked nid iid s =
     (case map_of (nodes_info_id s) nid of None \<Rightarrow> False | Some x \<Rightarrow> x = iid)"

text \<open>
  \<open>request\<close> is the blocking call \<^verbatim>\<open>Client::zlcRequest<Empty, NodeInfo>\<close> to a service
  at a URL. Only \<^verbatim>\<open>std::exception\<close>s are caught.
\<close>

definition fetchNodeInfo ::
  "(string \<Rightarrow> string \<Rightarrow> NodeInfo result) \<Rightarrow> string \<Rightarrow> u32 \<Rightarrow> NodeInfo option result" where
  "fetchNodeInfo request addr port =
     (case request ''get_node_info'' (tcp_url_i32 addr port) of
        Inr info \<Rightarrow> Inr (Some info)
      | Inl e \<Rightarrow> if is_std_exception e then Inr None else Inl e)"

section \<open>Remote nodes\<close>

definition checkNodeID :: "string \<Rightarrow> 'w NodeInfoManager \<Rightarrow> bool" where
  "checkNodeID nid s = checkNodeIDUnlocked nid s"

definition checkNodeInfoID :: "string \<Rightarrow> u32 \<Rightarrow> 'w NodeInfoManager \<Rightarrow> bool" where
  "checkNodeInfoID nid iid s = checkNodeInfoIDUnlocked nid iid s"

definition removeNode :: "string \<Rightarrow> 'w NodeInfoManager \<Rightarrow> 'w NodeInfoManager" where
  "removeNode nid s =
     s\<lparr>nodes_info := AList.delete nid (nodes_info s),
       nodes_info_id := AList.delete nid (nodes_info_id s),
       nodes_heartbeat := AList.delete nid (nodes_heartbeat s)\<rparr>"

definition getPublisherInfo ::
  "(NodeInfo hash_map \<Rightarrow> NodeInfo hash_map) \<Rightarrow> string \<Rightarrow> 'w NodeInfoManager \<Rightarrow> SocketInfo list" where
  "getPublisherInfo iter topicName s =
     concat (map (\<lambda>(nid, node). filter (\<lambda>t. si_name t = topicName) (topics node)) (iter (nodes_info s)))
     @ filter (\<lambda>t. si_name t = topicName) (topics (localNodeInfo s))"

text \<open>
  \<^verbatim>\<open>getServiceInfo\<close> returns a raw pointer into one of the vectors: a location, read
  again by whoever dereferences it.
\<close>

datatype socket_ptr = RemoteSocket string nat | LocalSocket nat

fun find_socket :: "string \<Rightarrow> SocketInfo list \<Rightarrow> nat option" where
  "find_socket nm [] = None"
| "find_socket nm (t # ts) = (if si_name t = nm then Some 0 else map_option Suc (find_socket nm ts))"

fun find_service :: "string \<Rightarrow> NodeInfo hash_map \<Rightarrow> socket_ptr option" where
  "find_service nm [] = None"
| "find_service nm ((nid, node) # ns) =
     (case find_socket nm (services node) of
        Some i \<Rightarrow> Some (RemoteSocket nid i)
      | None \<Rightarrow> find_service nm ns)"

definition getServiceInfo ::
  "(NodeInfo hash_map \<Rightarrow> NodeInfo hash_map) \<Rightarrow> string \<Rightarrow> 'w NodeInfoManager \<Rightarrow> socket_ptr option" where
  "getServiceInfo iter serviceName s =
     (case find_service serviceName (iter (nodes_info s)) of
        Some p \<Rightarrow> Some p
      | None \<Rightarrow> map_option LocalSocket (find_socket serviceName (services (localNodeInfo s))))"

text \<open>\<^verbatim>\<open>*ptr\<close>: \<open>None\<close> when the location no longer exists.\<close>

fun deref_socket :: "'w NodeInfoManager \<Rightarrow> socket_ptr \<Rightarrow> SocketInfo option" where
  "deref_socket s (RemoteSocket nid i) =
     (case map_of (nodes_info s) nid of None \<Rightarrow> None | Some n \<Rightarrow> nth_opt (services n) i)"
| "deref_socket s (LocalSocket i) = nth_opt (services (localNodeInfo s)) i"

section \<open>Heartbeats\<close>

text \<open>\<^verbatim>\<open>duration_cast<seconds>\<close> truncates towards zero.\<close>

definition seconds_between :: "int \<Rightarrow> int \<Rightarrow> int" where
  "seconds_between now prev = sgn (now - prev) * (\<bar>now - prev\<bar> div 1000000000)"

definition expired :: "int \<Rightarrow> int \<Rightarrow> bool" where
  "expired now prev \<longleftrightarrow> seconds_between now prev > 2"

definition to_remove :: "(int hash_map \<Rightarrow> int hash_map) \<Rightarrow> int \<Rightarrow> 'w NodeInfoManager \<Rightarrow> string list" where
  "to_remove iter now s = map fst (filter (\<lambda>(nid, prev). expired now prev) (iter (nodes_heartbeat s)))"

text \<open>
  The second loop of \<^verbatim>\<open>checkHeartbeats\<close>: \<^verbatim>\<open>nodes_info_[nodeID]\<close> inserts a
  default description for a node that never had one, the event fires, then the three maps drop
  the node. An exception of a callback leaves the loop at once.
\<close>

fun evict :: "string list \<Rightarrow> 'w NodeInfoManager \<Rightarrow> 'w \<Rightarrow> exn option \<times> 'w NodeInfoManager \<times> 'w" where
  "evict [] s w = (None, s, w)"
| "evict (nid # nids) s w =
     (let s0 = (case map_of (nodes_info s) nid of
                  None \<Rightarrow> s\<lparr>nodes_info := AList.update nid NodeInfo_default (nodes_info s)\<rparr>
                | Some _ \<Rightarrow> s);
          info = (case map_of (nodes_info s0) nid of None \<Rightarrow> NodeInfo_default | Some i \<Rightarrow> i)
      in case trigger (node_remove_event s0) info w of
           (Some e, w') \<Rightarrow> (Some e, s0, w')
         | (None, w') \<Rightarrow> evict nids (removeNode nid s0) w')"

definition checkHeartbeats ::
  "(int hash_map \<Rightarrow> int hash_map) \<Rightarrow> int \<Rightarrow> 'w NodeInfoManager \<Rightarrow> 'w
     \<Rightarrow> exn option \<times> 'w NodeInfoManager \<times> 'w" where
  "checkHeartbeats iter now s w = evict (to_remove iter now s) s w"

text \<open>
  The first critical section of \<^verbatim>\<open>processHeartbeat\<close>: it stores the time and answers
  \<open>(needsFetch, isNew)\<close>.
\<close>

definition touchHeartbeat ::
  "int \<Rightarrow> HeartbeatMessage \<Rightarrow> 'w NodeInfoManager \<Rightarrow> 'w NodeInfoManager \<times> bool \<times> bool" where
  "touchHeartbeat now hb s =
     (let s1 = s\<lparr>nodes_heartbeat := AList.update (node_id hb) now (nodes_heartbeat s)\<rparr>
      in if \<not> checkNodeIDUnlocked (node_id hb) s1 then (s1, True, True)
         else if \<not> checkNodeInfoIDUnlocked (node_id hb) (info_id hb) s1 then (s1, True, False)
         else (s1, False, False))"

text \<open>\<open>now1\<close> and \<open>now2\<close> are the clock readings of the two sections.\<close>

definition processHeartbeat ::
  "(string \<Rightarrow> string \<Rightarrow> NodeInfo result) \<Rightarrow> int \<Rightarrow> int \<Rightarrow> HeartbeatMessage \<Rightarrow> string
     \<Rightarrow> 'w NodeInfoManager \<Rightarrow> 'w \<Rightarrow> exn option \<times> 'w NodeInfoManager \<times> 'w" where
  "processHeartbeat request now1 now2 hb nodeIP s w =
     (let (s1, needsFetch, isNew) = touchHeartbeat now1 hb s
      in if \<not> needsFetch then (None, s1, w)
         else case fetchNodeInfo request nodeIP (service_port hb) of
                Inl e \<Rightarrow> (Some e, s1, w)
              | Inr None \<Rightarrow> (None, s1, w)
              | Inr (Some info) \<Rightarrow>
                  (let s2 = updateNodeUnlocked now2 (node_id hb) info s1
                   in case trigger (node_update_event s2) info w of
                        (exc, w') \<Rightarrow> (swallow_std exc, s2, w')))"

section \<open>The local node\<close>

definition nim_nodeID :: "'w NodeInfoManager \<Rightarrow> string" where
  "nim_nodeID s = nodeID (localNodeInfo s)"

definition setGroupName :: "string \<Rightarrow> 'w NodeInfoManager \<Rightarrow> 'w NodeInfoManager" where
  "setGroupName nm s = s\<lparr>groupName := nm\<rparr>"

definition setServicePort :: "u32 \<Rightarrow> 'w NodeInfoManager \<Rightarrow> 'w NodeInfoManager" where
  "setServicePort port s = s\<lparr>servicePort := port\<rparr>"

definition createHeartbeat :: "'w NodeInfoManager \<Rightarrow> HeartbeatMessage" where
  "createHeartbeat s =
     \<lparr>zlc_version = ZLC_VERSION, node_id = nodeID (localNodeInfo s), info_id = infoID (localNodeInfo s),
      service_port = servicePort s, group_name = groupName s\<rparr>"

definition getLocalNodeInfo :: "'w NodeInfoManager \<Rightarrow> NodeInfo" where
  "getLocalNodeInfo s = localNodeInfo s"

definition registerLocalTopic :: "string \<Rightarrow> u16 \<Rightarrow> 'w NodeInfoManager \<Rightarrow> 'w NodeInfoManager" where
  "registerLocalTopic nm port s =
     (let n = localNodeInfo s
      in s\<lparr>localNodeInfo := n\<lparr>topics := topics n @ [\<lparr>si_name = nm, si_ip = ni_ip n, si_port = port\<rparr>],
                              infoID := infoID n + 1\<rparr>\<rparr>)"

definition registerLocalService :: "string \<Rightarrow> u16 \<Rightarrow> 'w NodeInfoManager \<Rightarrow> 'w NodeInfoManager" where
  "registerLocalService nm port s =
     (let n = localNodeInfo s
      in s\<lparr>localNodeInfo := n\<lparr>services := services n @ [\<lparr>si_name = nm, si_ip = ni_ip n, si_port = port\<rparr>],
                              infoID := infoID n + 1\<rparr>\<rparr>)"

section \<open>The invariant of the registry\<close>

text \<open>
  The local description counts its own changes, and every socket it announces is bound to its
  address.
\<close>

definition local_inv :: "NodeInfo \<Rightarrow> bool" where
  "local_inv n \<longleftrightarrow>
     uuid_shape (nodeID n) \<and>
     infoID n = word_of_nat (length (topics n) + length (services n)) \<and>
     (\<forall>t \<in> set (topics n) \<union> set (services n). si_ip t = ni_ip n)"

text \<open>A callback list that accepts the description of a node that was never fetched.\<close>

definition accepts_default :: "(NodeInfo, 'w) Event \<Rightarrow> bool" where
  "accepts_default ev \<longleftrightarrow> (\<forall>w. fst (trigger ev NodeInfo_default w) = None)"

text \<open>
  The versions are those of the stored descriptions, and every described node has a heartbeat
  time, so that it will be evicted when it falls silent.
\<close>

definition nim_inv :: "'w NodeInfoManager \<Rightarrow> bool" where
  "nim_inv s \<longleftrightarrow>
     hm_ok (nodes_info s) \<and> hm_ok (nodes_info_id s) \<and> hm_ok (nodes_heartbeat s) \<and>
     map_of (nodes_info_id s) = map_option infoID \<circ> map_of (nodes_info s) \<and>
     keys (nodes_info s) \<subseteq> keys (nodes_heartbeat s) \<and>
     local_inv (localNodeInfo s) \<and> accepts_default (node_remove_event s)"

lemma nim_inv_versions: "nim_inv s \<Longrightarrow> map_of (nodes_info_id s) k = map_option infoID (map_of (nodes_info s) k)"
  by (simp add: nim_inv_def)

lemma nim_inv_ctor [inv_intros]: "nim_inv (NodeInfoManager_ctor draws nm addr)"
  by (simp add: nim_inv_def NodeInfoManager_ctor_def local_inv_def generateUUID_shape
      accepts_default_def fun_eq_iff)

lemma nim_inv_updateNode [inv_intros]: "nim_inv s \<Longrightarrow> nim_inv (updateNodeUnlocked now nid info s)"
  by (auto simp: nim_inv_def updateNodeUnlocked_def fun_eq_iff)

lemma nim_inv_removeNode [inv_intros]: "nim_inv s \<Longrightarrow> nim_inv (removeNode nid s)"
  by (auto simp: nim_inv_def removeNode_def fun_eq_iff)

lemma touchHeartbeat_state:
  "fst (touchHeartbeat now hb s) = s\<lparr>nodes_heartbeat := AList.update (node_id hb) now (nodes_heartbeat s)\<rparr>"
  by (simp add: touchHeartbeat_def Let_def)

lemma nim_inv_touch [inv_intros]: "nim_inv s \<Longrightarrow> nim_inv (fst (touchHeartbeat now hb s))"
  by (auto simp: nim_inv_def touchHeartbeat_state)

lemma nim_inv_setters [inv_intros]:
  "nim_inv s \<Longrightarrow> nim_inv (setGroupName g s)" "nim_inv s \<Longrightarrow> nim_inv (setServicePort p s)"
  by (simp_all add: nim_inv_def setGroupName_def setServicePort_def)

lemma nim_inv_register [inv_intros]:
  "nim_inv s \<Longrightarrow> nim_inv (registerLocalTopic nm port s)"
  "nim_inv s \<Longrightarrow> nim_inv (registerLocalService nm port s)"
  by (auto simp: nim_inv_def registerLocalTopic_def registerLocalService_def local_inv_def Let_def)

section \<open>Eviction\<close>

definition info_or_default :: "'w NodeInfoManager \<Rightarrow> string \<Rightarrow> NodeInfo" where
  "info_or_default s nid = (case map_of (nodes_info s) nid of None \<Rightarrow> NodeInfo_default | Some i \<Rightarrow> i)"

text \<open>One round of the loop, with the inserted default already out of the way.\<close>

lemma removeNode_default:
  "removeNode nid (s\<lparr>nodes_info := AList.update nid d (nodes_info s)\<rparr>) =
   (removeNode nid s)\<lparr>nodes_info := AList.delete nid (AList.update nid d (nodes_info s))\<rparr>"
  by (simp add: removeNode_def)

lemma delete_update_same: "AList.delete k (AList.update k v m) = AList.delete k m"
  by (induction m) auto

lemma evict_Cons:
  "evict (nid # nids) s w =
     (case trigger (node_remove_event s) (info_or_default s nid) w of
        (Some e, w') \<Rightarrow>
          (Some e, if nid \<in> keys (nodes_info s) then s
                   else s\<lparr>nodes_info := AList.update nid NodeInfo_default (nodes_info s)\<rparr>, w')
      | (None, w') \<Rightarrow> evict nids (removeNode nid s) w')"
  by (cases "map_of (nodes_info s) nid")
    (auto simp: info_or_default_def keys_iff_lookup removeNode_def delete_update_same
      split: prod.splits option.splits)

declare evict.simps(2) [simp del]

text \<open>The world after the loop is the world after the events, in the order of the list.\<close>

lemma evict_world:
  assumes "distinct nids"
  shows "fst (evict nids s w) = fst (trigger_all (node_remove_event s) (map (info_or_default s) nids) w) \<and>
         snd (snd (evict nids s w)) =
           snd (trigger_all (node_remove_event s) (map (info_or_default s) nids) w)"
  using assms
proof (induction nids arbitrary: s w)
  case Nil
  then show ?case by simp
next
  case (Cons nid nids)
  have ev: "node_remove_event (removeNode nid s) = node_remove_event s"
    by (simp add: removeNode_def)
  have eq: "map (info_or_default (removeNode nid s)) nids = map (info_or_default s) nids"
    using Cons.prems by (auto simp: info_or_default_def removeNode_def)
  from Cons.prems have "distinct nids" by simp
  note IH = Cons.IH [OF this, of "removeNode nid s", unfolded ev eq]
  show ?case
    by (cases "trigger (node_remove_event s) (info_or_default s nid) w")
      (simp add: evict_Cons IH split: option.splits)
qed

text \<open>When no callback throws, exactly the listed nodes are gone.\<close>

lemma evict_state:
  assumes "fst (evict nids s w) = None"
  shows "map_of (nodes_info (fst (snd (evict nids s w)))) k =
           (if k \<in> set nids then None else map_of (nodes_info s) k) \<and>
         map_of (nodes_info_id (fst (snd (evict nids s w)))) k =
           (if k \<in> set nids then None else map_of (nodes_info_id s) k) \<and>
         map_of (nodes_heartbeat (fst (snd (evict nids s w)))) k =
           (if k \<in> set nids then None else map_of (nodes_heartbeat s) k) \<and>
         localNodeInfo (fst (snd (evict nids s w))) = localNodeInfo s"
  using assms
proof (induction nids arbitrary: s w)
  case Nil
  then show ?case by simp
next
  case (Cons nid nids)
  obtain exc w' where t: "trigger (node_remove_event s) (info_or_default s nid) w = (exc, w')"
    by fastforce
  with Cons.prems have "exc = None" by (auto simp: evict_Cons split: option.splits)
  with t have eq: "evict (nid # nids) s w = evict nids (removeNode nid s) w'"
    by (simp add: evict_Cons)
  with Cons.prems have "fst (evict nids (removeNode nid s) w') = None" by simp
  from Cons.IH [OF this] show ?case by (auto simp: eq removeNode_def)
qed

lemma nim_inv_evict: "nim_inv s \<Longrightarrow> nim_inv (fst (snd (evict nids s w)))"
proof (induction nids arbitrary: s w)
  case Nil
  then show ?case by simp
next
  case (Cons nid nids)
  show ?case
  proof (cases "trigger (node_remove_event s) (info_or_default s nid) w")
    case (Pair exc w')
    show ?thesis
    proof (cases exc)
      case None
      with Pair Cons show ?thesis by (simp add: evict_Cons nim_inv_removeNode)
    next
      case (Some e)
      have "nid \<in> keys (nodes_info s)"
      proof (rule ccontr)
        assume "nid \<notin> keys (nodes_info s)"
        then have "info_or_default s nid = NodeInfo_default"
          by (simp add: info_or_default_def keys_iff_lookup)
        moreover have "fst (trigger (node_remove_event s) NodeInfo_default w) = None"
          using Cons.prems by (simp add: nim_inv_def accepts_default_def)
        ultimately show False using Pair Some by simp
      qed
      with Pair Some Cons.prems show ?thesis by (simp add: evict_Cons)
    qed
  qed
qed

lemma nim_inv_checkHeartbeats [inv_intros]:
  "nim_inv s \<Longrightarrow> nim_inv (fst (snd (checkHeartbeats iter now s w)))"
  by (simp add: checkHeartbeats_def nim_inv_evict)

lemma to_remove_set:
  "iter_order iter \<Longrightarrow> hm_ok (nodes_heartbeat s) \<Longrightarrow>
   set (to_remove iter now s) = {k. \<exists>t. map_of (nodes_heartbeat s) k = Some t \<and> expired now t}"
  by (auto simp: to_remove_def iter_order_set hm_ok_lookup image_iff)

lemma to_remove_distinct:
  "iter_order iter \<Longrightarrow> hm_ok (nodes_heartbeat s) \<Longrightarrow> distinct (to_remove iter now s)"
  using iter_order_distinct [of iter "nodes_heartbeat s"] distinct_map_filter
  by (auto simp: to_remove_def)

lemma expired_iff: "prev \<le> now \<Longrightarrow> expired now prev \<longleftrightarrow> 3 * 1000000000 \<le> now - prev"
proof -
  assume le: "prev \<le> now"
  show ?thesis
  proof (cases "prev = now")
    case True
    then show ?thesis by (simp add: expired_def seconds_between_def)
  next
    case False
    then have "sgn (now - prev) = 1" "\<bar>now - prev\<bar> = now - prev" using le by simp_all
    then show ?thesis by (simp add: expired_def seconds_between_def) linarith
  qed
qed

section \<open>Lookups\<close>

lemma find_socket_Some:
  "find_socket nm ts = Some i \<Longrightarrow> \<exists>t. nth_opt ts i = Some t \<and> si_name t = nm"
  by (induction ts arbitrary: i) (auto simp: nth_opt_def split: if_splits)

lemma find_socket_None [simp]: "find_socket nm ts = None \<longleftrightarrow> (\<forall>t \<in> set ts. si_name t \<noteq> nm)"
  by (induction ts) auto

lemma find_service_None:
  "find_service nm ns = None \<longleftrightarrow> (\<forall>(k, n) \<in> set ns. \<forall>t \<in> set (services n). si_name t \<noteq> nm)"
proof (induction nm ns rule: find_service.induct)
  case (2 nm nid node ns)
  then show ?case
    using find_socket_None [of nm "services node"]
    by (cases "find_socket nm (services node)") (auto simp del: find_socket_None)
qed simp

lemma find_service_Some:
  "find_service nm ns = Some p \<Longrightarrow>
   \<exists>k n i t. p = RemoteSocket k i \<and> (k, n) \<in> set ns \<and> nth_opt (services n) i = Some t \<and> si_name t = nm"
  by (induction nm ns rule: find_service.induct) (auto split: option.splits dest!: find_socket_Some)

lemma getServiceInfo_deref:
  assumes "iter_order iter" and "hm_ok (nodes_info s)" and "getServiceInfo iter nm s = Some p"
  shows "\<exists>t. deref_socket s p = Some t \<and> si_name t = nm"
proof (cases "find_service nm (iter (nodes_info s))")
  case None
  with assms(3) obtain i where "p = LocalSocket i" "find_socket nm (services (localNodeInfo s)) = Some i"
    by (auto simp: getServiceInfo_def)
  then show ?thesis by (auto dest: find_socket_Some)
next
  case (Some q)
  with assms(3) have "p = q" by (simp add: getServiceInfo_def)
  from find_service_Some [OF Some] obtain k n i t where
    "q = RemoteSocket k i" "(k, n) \<in> set (nodes_info s)" "nth_opt (services n) i = Some t" "si_name t = nm"
    by (auto simp: iter_order_set [OF assms(1)])
  with \<open>p = q\<close> show ?thesis by (simp add: hm_ok_lookup [OF assms(2)])
qed

lemma getServiceInfo_None:
  assumes "iter_order iter" and "hm_ok (nodes_info s)"
  shows "getServiceInfo iter nm s = None \<longleftrightarrow>
     (\<forall>k n. map_of (nodes_info s) k = Some n \<longrightarrow> (\<forall>t \<in> set (services n). si_name t \<noteq> nm)) \<and>
     (\<forall>t \<in> set (services (localNodeInfo s)). si_name t \<noteq> nm)"
proof -
  have "getServiceInfo iter nm s = None \<longleftrightarrow>
      find_service nm (iter (nodes_info s)) = None \<and> find_socket nm (services (localNodeInfo s)) = None"
    by (auto simp: getServiceInfo_def split: option.splits)
  then show ?thesis
    by (auto simp: find_service_None iter_order_set [OF assms(1)] hm_ok_lookup [OF assms(2), symmetric])
qed

lemma getPublisherInfo_set:
  assumes "iter_order iter" and "hm_ok (nodes_info s)"
  shows "t \<in> set (getPublisherInfo iter nm s) \<longleftrightarrow>
     si_name t = nm \<and>
     ((\<exists>k n. map_of (nodes_info s) k = Some n \<and> t \<in> set (topics n)) \<or> t \<in> set (topics (localNodeInfo s)))"
  by (auto simp: getPublisherInfo_def iter_order_set [OF assms(1)] hm_ok_lookup [OF assms(2), symmetric])

lemma getPublisherInfo_mset:
  assumes "iter_order iter"
  shows "mset (getPublisherInfo iter nm s) = mset (getPublisherInfo (\<lambda>m. m) nm s)"
proof -
  have "mset (map g (iter (nodes_info s))) = mset (map g (nodes_info s))"
    for g :: "string \<times> NodeInfo \<Rightarrow> SocketInfo multiset"
    using assms by (simp add: iter_order_def)
  then have "sum_list (map g (iter (nodes_info s))) = sum_list (map g (nodes_info s))"
    for g :: "string \<times> NodeInfo \<Rightarrow> SocketInfo multiset"
    by (metis sum_mset_sum_list)
  then show ?thesis by (simp add: getPublisherInfo_def mset_concat comp_def)
qed

section \<open>Heartbeat processing\<close>

lemma touch_needsFetch:
  assumes "nim_inv s"
  shows "fst (snd (touchHeartbeat now hb s)) \<longleftrightarrow>
     map_option infoID (map_of (nodes_info s) (node_id hb)) \<noteq> Some (info_id hb)"
  using nim_inv_versions [OF assms, of "node_id hb"]
  by (auto simp: touchHeartbeat_def Let_def checkNodeIDUnlocked_def checkNodeInfoIDUnlocked_def
      split: option.splits)

abbreviation touched :: "int \<Rightarrow> HeartbeatMessage \<Rightarrow> 'w NodeInfoManager \<Rightarrow> 'w NodeInfoManager" where
  "touched now hb s \<equiv> s\<lparr>nodes_heartbeat := AList.update (node_id hb) now (nodes_heartbeat s)\<rparr>"

lemma processHeartbeat_current:
  assumes "nim_inv s" and "map_option infoID (map_of (nodes_info s) (node_id hb)) = Some (info_id hb)"
  shows "processHeartbeat request now1 now2 hb ip s w = (None, touched now1 hb s, w)"
  using touch_needsFetch [OF assms(1), of now1 hb] assms(2) touchHeartbeat_state [of now1 hb s]
  by (auto simp: processHeartbeat_def split: prod.splits)

lemma processHeartbeat_stale:
  assumes "nim_inv s" and "map_option infoID (map_of (nodes_info s) (node_id hb)) \<noteq> Some (info_id hb)"
  shows "processHeartbeat request now1 now2 hb ip s w =
     (case fetchNodeInfo request ip (service_port hb) of
        Inl e \<Rightarrow> (Some e, touched now1 hb s, w)
      | Inr None \<Rightarrow> (None, touched now1 hb s, w)
      | Inr (Some info) \<Rightarrow>
          (let (exc, w') = trigger (node_update_event s) info w
           in (swallow_std exc, updateNodeUnlocked now2 (node_id hb) info (touched now1 hb s), w')))"
  using touch_needsFetch [OF assms(1), of now1 hb] assms(2) touchHeartbeat_state [of now1 hb s]
  by (auto simp: processHeartbeat_def updateNodeUnlocked_def Let_def split: prod.splits sum.splits option.splits)

lemma nim_inv_touched: "nim_inv s \<Longrightarrow> nim_inv (touched now hb s)"
  using nim_inv_touch by (simp add: touchHeartbeat_state)

lemma nim_inv_processHeartbeat [inv_intros]:
  assumes "nim_inv s"
  shows "nim_inv (fst (snd (processHeartbeat request now1 now2 hb ip s w)))"
proof (cases "map_option infoID (map_of (nodes_info s) (node_id hb)) = Some (info_id hb)")
  case True
  with assms show ?thesis by (simp add: processHeartbeat_current nim_inv_touched)
next
  case False
  with assms show ?thesis
    by (auto simp: processHeartbeat_stale nim_inv_touched nim_inv_updateNode
        split: prod.splits sum.splits option.splits)
qed

section \<open>The registry as a directory\<close>

text \<open>
  What the clients of the registry rely on: a lookup after an update or a removal, and that the
  operations keep the directory well formed.
\<close>

locale node_directory =
  fixes look :: "'d \<Rightarrow> string \<Rightarrow> NodeInfo option"
    and put :: "string \<Rightarrow> NodeInfo \<Rightarrow> 'd \<Rightarrow> 'd"
    and del :: "string \<Rightarrow> 'd \<Rightarrow> 'd"
    and ok :: "'d \<Rightarrow> bool"
  assumes look_put: "ok d \<Longrightarrow> look (put k i d) = (look d)(k \<mapsto> i)"
    and look_del: "ok d \<Longrightarrow> look (del k d) = (look d)(k := None)"
    and ok_put: "ok d \<Longrightarrow> ok (put k i d)"
    and ok_del: "ok d \<Longrightarrow> ok (del k d)"
begin

definition offers :: "'d \<Rightarrow> (NodeInfo \<Rightarrow> SocketInfo list) \<Rightarrow> string \<Rightarrow> SocketInfo \<Rightarrow> bool" where
  "offers d kind nm t \<longleftrightarrow> si_name t = nm \<and> (\<exists>k i. look d k = Some i \<and> t \<in> set (kind i))"

lemma offers_put: "ok d \<Longrightarrow> t \<in> set (kind i) \<Longrightarrow> offers (put k i d) kind (si_name t) t"
  by (auto simp: offers_def look_put)

lemma offers_put_other:
  "ok d \<Longrightarrow> offers d kind nm t \<Longrightarrow> (\<forall>i'. look d k = Some i' \<longrightarrow> t \<notin> set (kind i')) \<Longrightarrow>
   offers (put k i d) kind nm t"
  by (auto simp: offers_def look_put)

lemma offers_del:
  "ok d \<Longrightarrow> offers (del k d) kind nm t \<longleftrightarrow>
     si_name t = nm \<and> (\<exists>k' i. k' \<noteq> k \<and> look d k' = Some i \<and> t \<in> set (kind i))"
  by (auto simp: offers_def look_del)

lemma put_twice: "ok d \<Longrightarrow> look (put k j (put k i d)) = look (put k j d)"
  by (simp add: look_put ok_put)

lemma del_put: "ok d \<Longrightarrow> look (del k (put k i d)) = look (del k d)"
  by (simp add: look_put look_del ok_put)

end

interpretation dir: node_directory "\<lambda>s. map_of (nodes_info s)" "updateNodeUnlocked now" removeNode nim_inv
  for now
proof unfold_locales
qed (auto simp: updateNodeUnlocked_def [of _ _ _ "_ :: 'w NodeInfoManager"] removeNode_def fun_eq_iff
     intro: nim_inv_updateNode [unfolded updateNodeUnlocked_def] nim_inv_removeNode [unfolded removeNode_def])

section \<open>Interleaved use\<close>

text \<open>
  The threads of a node call the registry in any order: each critical section is one step.
\<close>

inductive nim_step :: "'w NodeInfoManager \<Rightarrow> 'w NodeInfoManager \<Rightarrow> bool" where
  touch: "nim_step s (fst (touchHeartbeat now hb s))"
| update: "nim_step s (updateNodeUnlocked now nid info s)"
| check: "nim_step s (fst (snd (checkHeartbeats iter now s w)))"
| remove: "nim_step s (removeNode nid s)"
| group: "nim_step s (setGroupName nm s)"
| port: "nim_step s (setServicePort p s)"
| topic: "nim_step s (registerLocalTopic nm p16 s)"
| service: "nim_step s (registerLocalService nm p16 s)"
| on_update: "nim_step s (s\<lparr>node_update_event := subscribe cb (node_update_event s)\<rparr>)"
| on_remove: "\<forall>w. fst (cb NodeInfo_default w) = None \<Longrightarrow>
     nim_step s (s\<lparr>node_remove_event := subscribe cb (node_remove_event s)\<rparr>)"

definition nim_start :: "'w NodeInfoManager \<Rightarrow> bool" where
  "nim_start s \<longleftrightarrow> (\<exists>draws nm addr. s = NodeInfoManager_ctor draws nm addr)"

lemma accepts_default_subscribe:
  "accepts_default ev \<Longrightarrow> \<forall>w. fst (cb NodeInfo_default w) = None \<Longrightarrow> accepts_default (subscribe cb ev)"
  by (auto simp: accepts_default_def ev.fire_sub split: prod.splits option.splits)
    (metis fst_conv option.distinct(1))

lemma nim_inv_events [inv_intros]:
  "nim_inv s \<Longrightarrow> nim_inv (s\<lparr>node_update_event := ev\<rparr>)"
  "nim_inv s \<Longrightarrow> accepts_default ev \<Longrightarrow> nim_inv (s\<lparr>node_remove_event := ev\<rparr>)"
  by (simp_all add: nim_inv_def)

lemma nim_inv_accepts: "nim_inv s \<Longrightarrow> accepts_default (node_remove_event s)"
  by (simp add: nim_inv_def)

interpretation nim: safe_system nim_start nim_step nim_inv
proof unfold_locales
  fix s :: "'w NodeInfoManager"
  assume "nim_start s"
  then show "nim_inv s" by (auto simp: nim_start_def intro: nim_inv_ctor)
next
  fix s t :: "'w NodeInfoManager"
  assume "nim_inv s" and "nim_step s t"
  from this(2,1) show "nim_inv t"
    by cases (auto intro: inv_intros nim_inv_accepts accepts_default_subscribe)
qed

section \<open>A node's own announcements\<close>

datatype registration = RegTopic string u16 | RegService string u16

fun register_local :: "'w NodeInfoManager \<Rightarrow> registration \<Rightarrow> 'w NodeInfoManager" where
  "register_local s (RegTopic nm p) = registerLocalTopic nm p s"
| "register_local s (RegService nm p) = registerLocalService nm p s"

lemma register_local_local:
  "nodeID (localNodeInfo (register_local s r)) = nodeID (localNodeInfo s)"
  "infoID (localNodeInfo (register_local s r)) = infoID (localNodeInfo s) + 1"
  by (cases r; simp add: registerLocalTopic_def registerLocalService_def Let_def)+

lemma register_all_local:
  "nodeID (localNodeInfo (foldl register_local s rs)) = nodeID (localNodeInfo s) \<and>
   infoID (localNodeInfo (foldl register_local s rs)) = infoID (localNodeInfo s) + word_of_nat (length rs)"
  by (induction rs arbitrary: s) (simp_all add: register_local_local)

lemma createHeartbeat_valid: "nim_inv s \<Longrightarrow> hb_valid (createHeartbeat s)"
  by (simp add: nim_inv_def local_inv_def uuid_shape_def createHeartbeat_def hb_valid_def)

lemma nim_inv_register_all: "nim_inv s \<Longrightarrow> nim_inv (foldl register_local s rs)"
proof (induction rs arbitrary: s)
  case (Cons r rs)
  then have "nim_inv (register_local s r)" by (cases r) (auto intro: inv_intros)
  with Cons.IH show ?case by simp
qed simp

lemma word_u32_zero_iff: "(word_of_nat n :: u32) = 0 \<longleftrightarrow> n mod 2 ^ 32 = 0"
  by (simp add: word_unat_eq_iff unat_of_nat)

section \<open>Properties\<close>

text \<open>
  C9: In every state the registry reaches by any interleaving of its critical sections, the three
  maps have one entry per node, the stored versions are those of the stored descriptions, every
  described node has a heartbeat time, and the local description counts its registrations and
  carries a well-formed id.
\<close>

theorem registry_invariant:
  assumes "reachable nim_start nim_step s"
  shows "nim_inv s"
  using assms by (rule nim.reachable_inv)

theorem registry_invariant_witness:
  "nim_inv (registerLocalTopic ''t'' 9 (NodeInfoManager_ctor (\<lambda>_. 0) ''n'' ''127.0.0.1'' :: unit NodeInfoManager))"
proof (rule registry_invariant)
  have "reachable nim_start nim_step (NodeInfoManager_ctor (\<lambda>_. 0) ''n'' ''127.0.0.1'' :: unit NodeInfoManager)"
    by (rule reach_start) (auto simp: nim_start_def)
  then show "reachable nim_start nim_step
      (registerLocalTopic ''t'' 9 (NodeInfoManager_ctor (\<lambda>_. 0) ''n'' ''127.0.0.1'' :: unit NodeInfoManager))"
    by (rule reach_step) (rule nim_step.topic)
qed

text \<open>
  C13: \<^verbatim>\<open>processHeartbeat\<close> on every branch. The heartbeat time is always renewed. A node
  known in the announced version costs no request and no event. Otherwise the description is
  requested from the announced port: if that fails, nothing else changes; if it succeeds, the
  three maps hold the new description, its version and the time of the update under the
  announced id, the other nodes are untouched, and the update event carries the description.
\<close>

theorem processHeartbeat_branches:
  assumes "nim_inv s"
  shows "case processHeartbeat request now1 now2 hb ip s w of (exc, s', w') \<Rightarrow>
    (if map_option infoID (map_of (nodes_info s) (node_id hb)) = Some (info_id hb)
     then exc = None \<and> w' = w \<and> s' = touched now1 hb s
     else (case request ''get_node_info'' (tcp_url_i32 ip (service_port hb)) of
             Inl e \<Rightarrow> exc = swallow_std (Some e) \<and> w' = w \<and> s' = touched now1 hb s
           | Inr info \<Rightarrow>
               exc = swallow_std (fst (trigger (node_update_event s) info w)) \<and>
               w' = snd (trigger (node_update_event s) info w) \<and>
               map_of (nodes_info s') = (map_of (nodes_info s))(node_id hb \<mapsto> info) \<and>
               map_of (nodes_info_id s') = (map_of (nodes_info_id s))(node_id hb \<mapsto> infoID info) \<and>
               map_of (nodes_heartbeat s') = (map_of (nodes_heartbeat s))(node_id hb \<mapsto> now2) \<and>
               localNodeInfo s' = localNodeInfo s))"
proof (cases "map_option infoID (map_of (nodes_info s) (node_id hb)) = Some (info_id hb)")
  case True
  then show ?thesis using assms by (simp add: processHeartbeat_current)
next
  case False
  note stale = processHeartbeat_stale [OF assms(1) this]
  show ?thesis
  proof (cases "request ''get_node_info'' (tcp_url_i32 ip (service_port hb))")
    case (Inl e)
    with False show ?thesis by (auto simp: stale fetchNodeInfo_def swallow_std_def)
  next
    case (Inr info)
    with False show ?thesis
      by (auto simp: stale fetchNodeInfo_def updateNodeUnlocked_def split: prod.splits)
  qed
qed

definition nim_example :: "unit NodeInfoManager" where
  "nim_example = NodeInfoManager_ctor (\<lambda>_. 0) ''n'' ''127.0.0.1''"

theorem processHeartbeat_branches_witness:
  "case processHeartbeat (\<lambda>_ _. Inr NodeInfo_default) 5 6 hb_example ''10.0.0.7'' nim_example () of
     (exc, s', w') \<Rightarrow> exc = None \<and>
       map_of (nodes_info s') (node_id hb_example) = Some NodeInfo_default \<and>
       map_of (nodes_heartbeat s') (node_id hb_example) = Some 6"
proof -
  have inv: "nim_inv nim_example" unfolding nim_example_def by (rule nim_inv_ctor)
  have none: "map_of (nodes_info nim_example) (node_id hb_example) = None"
    "node_update_event nim_example = event_empty"
    by (simp_all add: nim_example_def NodeInfoManager_ctor_def)
  show ?thesis
    using processHeartbeat_branches [OF inv, where request = "\<lambda>_ _. Inr NodeInfo_default" and
        hb = hb_example and ?now1.0 = 5 and ?now2.0 = 6 and ip = "''10.0.0.7''" and w = "()"] none
    by (auto split: prod.splits)
qed

text \<open>
  C17: When no callback throws, \<^verbatim>\<open>checkHeartbeats\<close> drops from all three maps exactly
  the nodes whose last heartbeat is at least three full seconds old and keeps every other entry,
  and fires the remove event once for each of them, in the order the map is visited, with the
  description stored last (the default one for a node that was never fetched).
\<close>

theorem checkHeartbeats_evicts:
  assumes "nim_inv s" and "iter_order iter" and "\<forall>k t. map_of (nodes_heartbeat s) k = Some t \<longrightarrow> t \<le> now"
    and "checkHeartbeats iter now s w = (None, s', w')"
  shows "(\<forall>k. let silent = (\<exists>t. map_of (nodes_heartbeat s) k = Some t \<and> 3 * 1000000000 \<le> now - t) in
            map_of (nodes_heartbeat s') k = (if silent then None else map_of (nodes_heartbeat s) k) \<and>
            map_of (nodes_info s') k = (if silent then None else map_of (nodes_info s) k) \<and>
            map_of (nodes_info_id s') k = (if silent then None else map_of (nodes_info_id s) k)) \<and>
         (\<exists>ks. distinct ks \<and>
            set ks = {k. \<exists>t. map_of (nodes_heartbeat s) k = Some t \<and> 3 * 1000000000 \<le> now - t} \<and>
            trigger_all (node_remove_event s) (map (info_or_default s) ks) w = (None, w'))"
proof -
  let ?ks = "to_remove iter now s"
  have ok: "hm_ok (nodes_heartbeat s)" using assms(1) by (simp add: nim_inv_def)
  have set_ks: "set ?ks = {k. \<exists>t. map_of (nodes_heartbeat s) k = Some t \<and> 3 * 1000000000 \<le> now - t}"
    using to_remove_set [OF assms(2) ok, of now] assms(3) expired_iff by auto
  have ev: "evict ?ks s w = (None, s', w')" using assms(4) by (simp add: checkHeartbeats_def)
  have dis: "distinct ?ks" by (rule to_remove_distinct [OF assms(2) ok])
  have "trigger_all (node_remove_event s) (map (info_or_default s) ?ks) w = (None, w')"
    using evict_world [OF dis, of s w] ev by (simp add: prod_eq_iff)
  moreover have "map_of (nodes_info s') k = (if k \<in> set ?ks then None else map_of (nodes_info s) k) \<and>
      map_of (nodes_info_id s') k = (if k \<in> set ?ks then None else map_of (nodes_info_id s) k) \<and>
      map_of (nodes_heartbeat s') k = (if k \<in> set ?ks then None else map_of (nodes_heartbeat s) k)" for k
    using evict_state [of ?ks s w k] ev by simp
  ultimately show ?thesis using dis set_ks unfolding Let_def by (intro conjI allI exI [of _ ?ks]) simp_all
qed

definition nim_silent :: "unit NodeInfoManager" where
  "nim_silent = updateNodeUnlocked 0 ''old'' NodeInfo_default
     (updateNodeUnlocked 4000000000 ''new'' NodeInfo_default nim_example)"

theorem checkHeartbeats_evicts_witness:
  "map_of (nodes_info (fst (snd (checkHeartbeats rev 5000000000 nim_silent ())))) =
     [''new'' \<mapsto> NodeInfo_default]"
proof -
  let ?r = "checkHeartbeats rev 5000000000 nim_silent ()"
  have inv: "nim_inv nim_silent"
    unfolding nim_silent_def nim_example_def by (intro inv_intros)
  have hb: "map_of (nodes_heartbeat nim_silent) = [''old'' \<mapsto> 0, ''new'' \<mapsto> 4000000000]"
    "map_of (nodes_info nim_silent) = [''old'' \<mapsto> NodeInfo_default, ''new'' \<mapsto> NodeInfo_default]"
    by (auto simp: nim_silent_def nim_example_def NodeInfoManager_ctor_def updateNodeUnlocked_def)
  have "node_remove_event nim_silent = event_empty"
    by (simp add: nim_silent_def nim_example_def NodeInfoManager_ctor_def updateNodeUnlocked_def)
  then have "trigger_all (node_remove_event nim_silent) is () = (None, ())" for "is"
    by (induction "is") simp_all
  moreover have "hm_ok (nodes_heartbeat nim_silent)" using inv by (simp add: nim_inv_def)
  ultimately have "fst ?r = None"
    using evict_world [OF to_remove_distinct [OF iter_order_rev], of nim_silent 5000000000 nim_silent "()"]
    by (simp add: checkHeartbeats_def)
  then have r: "?r = (None, fst (snd ?r), ())" by (simp add: prod_eq_iff)
  show ?thesis
    using checkHeartbeats_evicts [OF inv iter_order_rev _ r] hb
    by (auto simp: fun_eq_iff Let_def split: if_splits)
qed

text \<open>
  Discovery notices changes across the wire: when a receiver holds the description a sender had
  before some registrations, the heartbeat the sender then builds is always encodable, arrives
  unchanged, and makes the receiver fetch again exactly when the number of registrations is not a
  multiple of \<open>2 ^ 32\<close>, the period of the version counter.
\<close>

lemma change_detected_over_wire:
  assumes "nim_inv s" and "nim_inv r"
    and "map_of (nodes_info s) (nim_nodeID r) = Some (getLocalNodeInfo r)"
  shows "\<exists>b m. hb_encode e (createHeartbeat (foldl register_local r rs)) = Inr b \<and>
     hb_decode e' b (length b) = Some (Inr m) \<and>
     (fst (snd (touchHeartbeat now m s)) \<longleftrightarrow> length rs mod 2 ^ 32 \<noteq> 0)"
proof -
  let ?r = "foldl register_local r rs" and ?m = "createHeartbeat (foldl register_local r rs)"
  have "hb_valid ?m" by (intro createHeartbeat_valid nim_inv_register_all assms(2))
  then obtain b where b: "hb_encode e ?m = Inr b" "hb_decode e' b (length b) = Some (Inr ?m)"
    using hb.enc_valid [of ?m e e'] by blast
  have ids: "node_id ?m = nim_nodeID r" "info_id ?m = infoID (localNodeInfo r) + word_of_nat (length rs)"
    using register_all_local [of r rs] by (simp_all add: createHeartbeat_def nim_nodeID_def)
  have "fst (snd (touchHeartbeat now ?m s)) \<longleftrightarrow>
      Some (infoID (localNodeInfo r)) \<noteq> Some (infoID (localNodeInfo r) + word_of_nat (length rs))"
    using touch_needsFetch [OF assms(1), of now ?m] assms(3) ids by (simp add: getLocalNodeInfo_def)
  also have "\<dots> \<longleftrightarrow> length rs mod 2 ^ 32 \<noteq> 0"
    using word_u32_zero_iff [of "length rs"] by simp
  finally show ?thesis using b by blast
qed

lemma change_detected_over_wire_witness:
  "\<exists>b m. hb_encode LittleEndian (createHeartbeat (registerLocalTopic ''t'' 9 nim_example)) = Inr b \<and>
     hb_decode BigEndian b (length b) = Some (Inr m) \<and>
     fst (snd (touchHeartbeat 3 m
       (updateNodeUnlocked 1 (nim_nodeID nim_example) (getLocalNodeInfo nim_example) nim_example)))"
proof -
  have inv: "nim_inv nim_example" unfolding nim_example_def by (rule nim_inv_ctor)
  have up: "nim_inv (updateNodeUnlocked 1 (nim_nodeID nim_example) (getLocalNodeInfo nim_example) nim_example)"
    using inv by (rule nim_inv_updateNode)
  show ?thesis
    using change_detected_over_wire [OF up inv, of LittleEndian "[RegTopic ''t'' 9]" BigEndian 3]
    by (simp add: updateNodeUnlocked_def)
qed

text \<open>
  \<^verbatim>\<open>getPublisherInfo\<close> returns exactly the announced topics of that name, those of
  every known remote node and the local ones, and each as often as it is announced, whatever the
  order in which the hash map is visited.
\<close>

lemma getPublisherInfo_complete:
  assumes "iter_order iter" and "nim_inv s"
  shows "(t \<in> set (getPublisherInfo iter nm s) \<longleftrightarrow>
      si_name t = nm \<and> ((\<exists>k n. map_of (nodes_info s) k = Some n \<and> t \<in> set (topics n)) \<or>
                        t \<in> set (topics (localNodeInfo s)))) \<and>
     mset (getPublisherInfo iter nm s) = mset (getPublisherInfo rev nm s)"
  using assms getPublisherInfo_set [of iter s t nm] getPublisherInfo_mset [of iter nm s]
    getPublisherInfo_mset [OF iter_order_rev, of nm s]
  by (simp add: nim_inv_def)

lemma getPublisherInfo_complete_witness:
  "\<lparr>si_name = ''t'', si_ip = ''127.0.0.1'', si_port = 9\<rparr> \<in>
     set (getPublisherInfo (\<lambda>m. m) ''t'' (registerLocalTopic ''t'' 9 nim_example))"
proof -
  have inv: "nim_inv (registerLocalTopic ''t'' 9 nim_example)"
    unfolding nim_example_def by (intro inv_intros)
  show ?thesis
    using getPublisherInfo_complete [OF iter_order_id inv,
        of "\<lparr>si_name = ''t'', si_ip = ''127.0.0.1'', si_port = 9\<rparr>" "''t''"]
    by (simp add: registerLocalTopic_def nim_example_def NodeInfoManager_ctor_def)
qed

text \<open>
  \<^verbatim>\<open>getServiceInfo\<close> returns null exactly when neither a known remote node nor the
  local node offers the service; otherwise the pointer, read before anything else changes, is a
  socket of that name. A pointer into a remote description dangles as soon as that node is
  removed, although the caller holds no lock that would prevent it.
\<close>

lemma getServiceInfo_pointer:
  assumes "iter_order iter" and "nim_inv s"
  shows "(getServiceInfo iter nm s = None \<longleftrightarrow>
       (\<forall>k n. map_of (nodes_info s) k = Some n \<longrightarrow> (\<forall>t \<in> set (services n). si_name t \<noteq> nm)) \<and>
       (\<forall>t \<in> set (services (localNodeInfo s)). si_name t \<noteq> nm)) \<and>
     (\<forall>p. getServiceInfo iter nm s = Some p \<longrightarrow> (\<exists>t. deref_socket s p = Some t \<and> si_name t = nm)) \<and>
     (\<forall>k i. getServiceInfo iter nm s = Some (RemoteSocket k i) \<longrightarrow>
        deref_socket (removeNode k s) (RemoteSocket k i) = None)"
proof -
  have ok: "hm_ok (nodes_info s)" using assms(2) by (simp add: nim_inv_def)
  show ?thesis
    using getServiceInfo_None [OF assms(1) ok, of nm] getServiceInfo_deref [OF assms(1) ok]
      dir.look_del [OF assms(2)]
    by auto
qed

definition nim_with_service :: "unit NodeInfoManager" where
  "nim_with_service = updateNodeUnlocked 1 ''remote''
     (NodeInfo_default\<lparr>services := [\<lparr>si_name = ''Echo'', si_ip = ''10.0.0.7'', si_port = 4000\<rparr>]\<rparr>) nim_example"

lemma getServiceInfo_pointer_witness:
  "getServiceInfo rev ''Echo'' nim_with_service = Some (RemoteSocket ''remote'' 0) \<and>
   deref_socket nim_with_service (RemoteSocket ''remote'' 0) \<noteq> None \<and>
   deref_socket (removeNode ''remote'' nim_with_service) (RemoteSocket ''remote'' 0) = None"
proof -
  have inv: "nim_inv nim_with_service"
    unfolding nim_with_service_def nim_example_def by (intro inv_intros)
  have "getServiceInfo rev ''Echo'' nim_with_service = Some (RemoteSocket ''remote'' 0)"
    by (simp add: getServiceInfo_def nim_with_service_def nim_example_def NodeInfoManager_ctor_def
        updateNodeUnlocked_def NodeInfo_default_def)
  with getServiceInfo_pointer [OF iter_order_rev inv, of "''Echo''"] show ?thesis by auto
qed

end
