(* ===== verification/Publisher.thy ===== *)
theory Publisher
  imports Msgpack_Codec Node_Info_Manager
begin

text \<open>
  \<^verbatim>\<open>sockets/publisher.hpp\<close>: a PUB socket bound to an ephemeral port and announced in the
  local description. \<open>create\<close> is what \<^verbatim>\<open>createSocket\<close> throws, \<open>zbind\<close> answers the
  endpoint the socket reports after binding, \<open>send\<close> is what \<^verbatim>\<open>send\<close> throws.
\<close>

record Publisher =
  pub_port :: int
  pub_sent :: "bytes list"

definition full_topic_name :: "string \<Rightarrow> bool \<Rightarrow> string" where
  "full_topic_name topic_name with_local_namespace =
     (if with_local_namespace then ''lc.local.'' @ topic_name else topic_name)"

definition Publisher_ctor ::
  "exn option \<Rightarrow> (string \<Rightarrow> string result) \<Rightarrow> string \<Rightarrow> bool \<Rightarrow> 'w NodeInfoManager
     \<Rightarrow> (Publisher \<times> 'w NodeInfoManager) result" where
  "Publisher_ctor create zbind topic_name with_local_namespace nim =
     (case create of
        Some e \<Rightarrow> Inl e
      | None \<Rightarrow>
          (let address = ni_ip (getLocalNodeInfo nim)
           in ebind (zbind (''tcp://'' @ address @ '':0'')) (\<lambda>endpoint.
              ebind (getBoundPort endpoint) (\<lambda>port.
              Inr (\<lparr>pub_port = port, pub_sent = []\<rparr>,
                   registerLocalTopic (full_topic_name topic_name with_local_namespace)
                     (word_of_int port) nim)))))"

definition publish :: "('m \<Rightarrow> bytes result) \<Rightarrow> exn option \<Rightarrow> 'm \<Rightarrow> Publisher \<Rightarrow> exn option \<times> Publisher" where
  "publish enc send msg p =
     (case enc msg of
        Inl e \<Rightarrow> (Some e, p)
      | Inr out \<Rightarrow>
          (case send of
             Some e \<Rightarrow> (Some e, p)
           | None \<Rightarrow> (None, p\<lparr>pub_sent := pub_sent p @ [out]\<rparr>)))"

text \<open>A run of messages, stopped by the first exception.\<close>

fun publish_all :: "('m \<Rightarrow> bytes result) \<Rightarrow> 'm list \<Rightarrow> Publisher \<Rightarrow> exn option \<times> Publisher" where
  "publish_all enc [] p = (None, p)"
| "publish_all enc (m # ms) p =
     (case publish enc None m p of (Some e, p') \<Rightarrow> (Some e, p') | (None, p') \<Rightarrow> publish_all enc ms p')"

lemma unat_port: "p < 65536 \<Longrightarrow> unat (word_of_int (int p) :: u16) = p"
  by (simp add: unat_of_nat)

text \<open>A subscriber that receives the frames decodes the messages in the order they were published.\<close>

lemma publish_all_sent:
  assumes "msgpack_type pack unpack convert ok" and "\<forall>m \<in> set ms. ok m"
  shows "\<exists>p' bs. publish_all (encode_bytes (\<lambda>_. True) pack) ms p = (None, p') \<and>
     pub_sent p' = pub_sent p @ bs \<and> map (\<lambda>b. decode unpack convert (view_of b) d) bs = map Inr ms"
  using assms(2)
proof (induction ms arbitrary: p)
  case (Cons m ms)
  then obtain b where b: "encode_bytes (\<lambda>_. True) pack m = Inr b" "decode unpack convert (view_of b) d = Inr m"
    using msgpack_type.roundtrip [OF assms(1), of m d] by auto
  from Cons.prems have "\<forall>m \<in> set ms. ok m" by simp
  from Cons.IH [OF this, of "p\<lparr>pub_sent := pub_sent p @ [b]\<rparr>"] obtain p' bs where
    "publish_all (encode_bytes (\<lambda>_. True) pack) ms (p\<lparr>pub_sent := pub_sent p @ [b]\<rparr>) = (None, p')"
    "pub_sent p' = pub_sent p @ b # bs" "map (\<lambda>b. decode unpack convert (view_of b) d) bs = map Inr ms"
    by auto
  with b show ?case by (intro exI [of _ p'] exI [of _ "b # bs"]) (simp add: publish_def)
qed simp

section \<open>Properties\<close>

text \<open>
  A publisher that is constructed announces its endpoint: the local description gains exactly one
  topic, under the given name with the optional prefix, whose URL is the endpoint the socket is
  bound to, and its version grows by one, so that remote nodes fetch it again. If creating or
  binding the socket fails, nothing is announced.
\<close>

lemma publisher_announces:
  assumes "nim_inv nim" and "zbind (''tcp://'' @ ni_ip (localNodeInfo nim) @ '':0'') =
     Inr (tcp_url (ni_ip (localNodeInfo nim)) p)" and "p < 65536"
  shows "\<exists>pub nim' t. Publisher_ctor None zbind nm local nim = Inr (pub, nim') \<and> pub_port pub = int p \<and>
     topics (localNodeInfo nim') = topics (localNodeInfo nim) @ [t] \<and>
     si_name t = (if local then ''lc.local.'' @ nm else nm) \<and>
     socket_url t = tcp_url (ni_ip (localNodeInfo nim)) p \<and>
     infoID (localNodeInfo nim') = infoID (localNodeInfo nim) + 1 \<and> nim_inv nim' \<and>
     Publisher_ctor (Some e) zbind nm local nim = Inl e"
proof -
  let ?t = "\<lparr>si_name = full_topic_name nm local, si_ip = ni_ip (localNodeInfo nim), si_port = word_of_int (int p)\<rparr>"
  let ?n = "registerLocalTopic (full_topic_name nm local) (word_of_int (int p)) nim"
  have "getBoundPort (tcp_url (ni_ip (localNodeInfo nim)) p) = Inr (int p)"
    using assms(3) by (intro getBoundPort_tcp_url) simp
  then have "Publisher_ctor None zbind nm local nim = Inr (\<lparr>pub_port = int p, pub_sent = []\<rparr>, ?n)"
    using assms(2) by (simp add: Publisher_ctor_def getLocalNodeInfo_def)
  moreover have "topics (localNodeInfo ?n) = topics (localNodeInfo nim) @ [?t]"
    "infoID (localNodeInfo ?n) = infoID (localNodeInfo nim) + 1"
    by (simp_all add: registerLocalTopic_def Let_def)
  moreover have "socket_url ?t = tcp_url (ni_ip (localNodeInfo nim)) p"
    using unat_port [OF assms(3)] by (simp add: socket_url_def)
  moreover have "nim_inv ?n" using assms(1) by (rule nim_inv_register(1))
  ultimately show ?thesis by (auto simp: full_topic_name_def Publisher_ctor_def)
qed

lemma publisher_announces_witness:
  "\<exists>pub nim'. Publisher_ctor None (\<lambda>_. Inr ''tcp://127.0.0.1:5555'') ''pose'' True nim_example = Inr (pub, nim') \<and>
     map si_name (topics (localNodeInfo nim')) = [''lc.local.pose''] \<and> pub_port pub = 5555"
proof -
  have inv: "nim_inv nim_example" unfolding nim_example_def by (rule nim_inv_ctor)
  have loc: "ni_ip (localNodeInfo nim_example) = ''127.0.0.1''" "topics (localNodeInfo nim_example) = []"
    by (simp_all add: nim_example_def NodeInfoManager_ctor_def)
  have ep: "''tcp://127.0.0.1:5555'' = tcp_url ''127.0.0.1'' 5555" by (simp add: tcp_url_def dec_eval)
  show ?thesis
    using publisher_announces [OF inv, of "\<lambda>_. Inr ''tcp://127.0.0.1:5555''" 5555 "''pose''" True BadAlloc]
    unfolding loc ep by auto
qed

end
