(* ===== verification/Subscriber_Manager.thy ===== *)
theory Subscriber_Manager
  imports Node_Info_Manager Binary_Codec
begin

text \<open>
  \<^verbatim>\<open>sockets/subscriber_manager.hpp\<close> and \<^verbatim>\<open>.cpp\<close>: one SUB socket per
  registered callback, connected to every publisher of its topic as nodes come and go, and the
  polling pass that hands messages to callbacks. ZeroMQ is not modelled: a socket is the list of
  calls the code made on it, and an argument says which call throws. A callback changes the
  user's world \<open>'u\<close> and may throw.
\<close>

section \<open>State\<close>

datatype sock_call = SetSubscribe string | Connect string | Disconnect string

type_synonym zmq_answer = "sock_call list \<Rightarrow> sock_call \<Rightarrow> exn option"

record 'u Subscriber =
  topicName :: string
  publisherURLs :: "string list"
  sub_callback :: "ByteView \<Rightarrow> 'u \<Rightarrow> exn option \<times> 'u"
  sub_socket :: "sock_call list"

record 'u SubscriberManager =
  subscribers :: "'u Subscriber list"

definition sm_empty :: "'u SubscriberManager" where
  "sm_empty = \<lparr>subscribers = []\<rparr>"

text \<open>Sockets none of whose calls throws.\<close>

abbreviation quiet :: zmq_answer where
  "quiet \<equiv> \<lambda>_ _. None"

text \<open>A call on the socket: recorded when it returns.\<close>

definition sock_do :: "zmq_answer \<Rightarrow> sock_call \<Rightarrow> 'u Subscriber \<Rightarrow> exn option \<times> 'u Subscriber" where
  "sock_do zmq c sub =
     (case zmq (sub_socket sub) c of
        Some e \<Rightarrow> (Some e, sub)
      | None \<Rightarrow> (None, sub\<lparr>sub_socket := sub_socket sub @ [c]\<rparr>))"

section \<open>Registration\<close>

definition findTopicURLs ::
  "(NodeInfo hash_map \<Rightarrow> NodeInfo hash_map) \<Rightarrow> 'w NodeInfoManager \<Rightarrow> string \<Rightarrow> string list" where
  "findTopicURLs iter nim topic = map socket_url (getPublisherInfo iter topic nim)"

fun connect_urls :: "zmq_answer \<Rightarrow> string list \<Rightarrow> 'u Subscriber \<Rightarrow> exn option \<times> 'u Subscriber" where
  "connect_urls zmq [] sub = (None, sub)"
| "connect_urls zmq (url # urls) sub =
     (case sock_do zmq (Connect url) sub of
        (Some e, sub') \<Rightarrow> (Some e, sub')
      | (None, sub') \<Rightarrow> connect_urls zmq urls (sub'\<lparr>publisherURLs := publisherURLs sub' @ [url]\<rparr>))"

text \<open>
  \<^verbatim>\<open>_registerTopicSubscriber\<close>: \<open>create_exc\<close> is what \<^verbatim>\<open>createSocket\<close>
  throws. Any exception leaves the list of subscribers as it was.
\<close>

definition register_subscriber ::
  "zmq_answer \<Rightarrow> exn option \<Rightarrow> (NodeInfo hash_map \<Rightarrow> NodeInfo hash_map) \<Rightarrow> 'w NodeInfoManager \<Rightarrow> string
     \<Rightarrow> (ByteView \<Rightarrow> 'u \<Rightarrow> exn option \<times> 'u) \<Rightarrow> 'u SubscriberManager \<Rightarrow> exn option \<times> 'u SubscriberManager" where
  "register_subscriber zmq create_exc iter nim topic cb m =
     (case create_exc of
        Some e \<Rightarrow> (Some e, m)
      | None \<Rightarrow>
          (case sock_do zmq (SetSubscribe [])
                  \<lparr>topicName = topic, publisherURLs = [], sub_callback = cb, sub_socket = []\<rparr> of
             (Some e, sub) \<Rightarrow> (Some e, m)
           | (None, sub) \<Rightarrow>
               (case connect_urls zmq (findTopicURLs iter nim topic) sub of
                  (Some e, sub') \<Rightarrow> (Some e, m)
                | (None, sub') \<Rightarrow> (None, m\<lparr>subscribers := subscribers m @ [sub']\<rparr>))))"

text \<open>
  The typed registration wraps the user's function: the message is decoded first, and an
  exception of either reaches the caller of the wrapper. \<open>dec\<close> is the decoder of the message
  type.
\<close>

definition typed_callback ::
  "(ByteView \<Rightarrow> 'm result) \<Rightarrow> ('m \<Rightarrow> 'u \<Rightarrow> exn option \<times> 'u) \<Rightarrow> ByteView \<Rightarrow> 'u \<Rightarrow> exn option \<times> 'u" where
  "typed_callback dec cb view u =
     (case dec view of Inl e \<Rightarrow> (Some e, u) | Inr msg \<Rightarrow> cb msg u)"

section \<open>Following the nodes\<close>

text \<open>The body of the inner loops of \<^verbatim>\<open>updateTopicSubscriber\<close> and \<^verbatim>\<open>removeTopicSubscriber\<close>.\<close>

definition connect_topic :: "zmq_answer \<Rightarrow> SocketInfo \<Rightarrow> 'u Subscriber \<Rightarrow> exn option \<times> 'u Subscriber" where
  "connect_topic zmq topic sub =
     (if topicName sub \<noteq> si_name topic then (None, sub)
      else let url = socket_url topic
           in if url \<in> set (publisherURLs sub) then (None, sub)
              else case sock_do zmq (Connect url) sub of
                     (Some e, sub') \<Rightarrow> (Some e, sub')
                   | (None, sub') \<Rightarrow> (None, sub'\<lparr>publisherURLs := publisherURLs sub' @ [url]\<rparr>))"

definition disconnect_topic :: "zmq_answer \<Rightarrow> SocketInfo \<Rightarrow> 'u Subscriber \<Rightarrow> exn option \<times> 'u Subscriber" where
  "disconnect_topic zmq topic sub =
     (if topicName sub \<noteq> si_name topic then (None, sub)
      else let url = socket_url topic
           in if url \<notin> set (publisherURLs sub) then (None, sub)
              else case sock_do zmq (Disconnect url) sub of
                     (Some e, sub') \<Rightarrow> (Some e, sub')
                   | (None, sub') \<Rightarrow> (None, sub'\<lparr>publisherURLs := remove1 url (publisherURLs sub')\<rparr>))"

fun for_subs :: "('s \<Rightarrow> exn option \<times> 's) \<Rightarrow> 's list \<Rightarrow> exn option \<times> 's list" where
  "for_subs f [] = (None, [])"
| "for_subs f (x # xs) =
     (case f x of
        (Some e, x') \<Rightarrow> (Some e, x' # xs)
      | (None, x') \<Rightarrow> (case for_subs f xs of (exc, xs') \<Rightarrow> (exc, x' # xs')))"

fun for_topics :: "(SocketInfo \<Rightarrow> 's \<Rightarrow> exn option \<times> 's) \<Rightarrow> SocketInfo list \<Rightarrow> 's list \<Rightarrow> exn option \<times> 's list" where
  "for_topics f [] subs = (None, subs)"
| "for_topics f (t # ts) subs =
     (case for_subs (f t) subs of
        (Some e, subs') \<Rightarrow> (Some e, subs')
      | (None, subs') \<Rightarrow> for_topics f ts subs')"

definition updateTopicSubscriber ::
  "zmq_answer \<Rightarrow> NodeInfo \<Rightarrow> 'u SubscriberManager \<Rightarrow> exn option \<times> 'u SubscriberManager" where
  "updateTopicSubscriber zmq nodeInfo m =
     (case for_topics (connect_topic zmq) (topics nodeInfo) (subscribers m) of
        (exc, subs) \<Rightarrow> (exc, m\<lparr>subscribers := subs\<rparr>))"

definition removeTopicSubscriber ::
  "zmq_answer \<Rightarrow> NodeInfo \<Rightarrow> 'u SubscriberManager \<Rightarrow> exn option \<times> 'u SubscriberManager" where
  "removeTopicSubscriber zmq nodeInfo m =
     (case for_topics (disconnect_topic zmq) (topics nodeInfo) (subscribers m) of
        (exc, subs) \<Rightarrow> (exc, m\<lparr>subscribers := subs\<rparr>))"

text \<open>The constructor subscribes both handlers to the registry's events.\<close>

definition SubscriberManager_ctor ::
  "zmq_answer \<Rightarrow> 'u SubscriberManager NodeInfoManager \<Rightarrow> 'u SubscriberManager NodeInfoManager" where
  "SubscriberManager_ctor zmq nim =
     nim\<lparr>node_update_event := subscribe (updateTopicSubscriber zmq) (node_update_event nim),
         node_remove_event := subscribe (removeTopicSubscriber zmq) (node_remove_event nim)\<rparr>"

section \<open>Polling\<close>

text \<open>
  What the socket of one subscriber answers in a polling pass: not ready, or ready with the
  outcome of \<^verbatim>\<open>recv\<close>.
\<close>

datatype recv_result = NotReady | NoMessage | Received bytes | RecvThrew exn

fun dispatch :: "('u Subscriber \<times> recv_result) list \<Rightarrow> 'u \<Rightarrow> exn option \<times> 'u" where
  "dispatch [] u = (None, u)"
| "dispatch ((sub, NotReady) # ps) u = dispatch ps u"
| "dispatch ((sub, NoMessage) # ps) u = dispatch ps u"
| "dispatch ((sub, RecvThrew e) # ps) u = (Some e, u)"
| "dispatch ((sub, Received msg) # ps) u =
     (case sub_callback sub (view_of msg) u of
        (Some e, u') \<Rightarrow> (Some e, u')
      | (None, u') \<Rightarrow> dispatch ps u')"

text \<open>
  One pass: \<open>poll_exc\<close> is what \<^verbatim>\<open>zmq::poll\<close> throws, \<open>answers\<close> the sockets in
  the order of the subscribers. Every \<^verbatim>\<open>std::exception\<close> ends the pass and is logged.
\<close>

definition sm_pollOnce :: "exn option \<Rightarrow> recv_result list \<Rightarrow> 'u SubscriberManager \<Rightarrow> 'u \<Rightarrow> exn option \<times> 'u" where
  "sm_pollOnce poll_exc answers m u =
     (case poll_exc of
        Some e \<Rightarrow> (swallow_std (Some e), u)
      | None \<Rightarrow> (case dispatch (zip (subscribers m) answers) u of (exc, u') \<Rightarrow> (swallow_std exc, u')))"

section \<open>Bookkeeping and connections\<close>

text \<open>
  The endpoints a list of calls leaves connected. A SUB socket has one connection to an endpoint:
  a second \<^verbatim>\<open>connect\<close> is ignored, one \<^verbatim>\<open>disconnect\<close> closes it, and a \<^verbatim>\<open>disconnect\<close> of an
  endpoint that is not connected is an error, so \<open>legal\<close> lists have none.
\<close>

fun open_urls :: "sock_call list \<Rightarrow> string set" where
  "open_urls [] = {}"
| "open_urls (SetSubscribe p # cs) = open_urls cs"
| "open_urls (Connect u # cs) = insert u (open_urls cs)"
| "open_urls (Disconnect u # cs) = open_urls cs - {u}"

definition conns :: "sock_call list \<Rightarrow> string set" where
  "conns cs = open_urls (rev cs)"

fun legal_rev :: "sock_call list \<Rightarrow> bool" where
  "legal_rev [] = True"
| "legal_rev (SetSubscribe p # cs) = legal_rev cs"
| "legal_rev (Connect u # cs) = legal_rev cs"
| "legal_rev (Disconnect u # cs) = (u \<in> open_urls cs \<and> legal_rev cs)"

definition legal :: "sock_call list \<Rightarrow> bool" where
  "legal cs = legal_rev (rev cs)"

lemma conns_snoc [simp]:
  "conns [] = {}" "conns (cs @ [SetSubscribe p]) = conns cs" "conns (cs @ [Connect u]) = insert u (conns cs)"
  "conns (cs @ [Disconnect u]) = conns cs - {u}"
  by (simp_all add: conns_def)

lemma legal_snoc [simp]:
  "legal []" "legal (cs @ [SetSubscribe p]) = legal cs" "legal (cs @ [Connect u]) = legal cs"
  "legal (cs @ [Disconnect u]) = (u \<in> conns cs \<and> legal cs)"
  by (simp_all add: legal_def conns_def)

text \<open>
  No connection is ever forgotten; and when no endpoint was remembered twice at first, the list is
  the connections, each once.
\<close>

definition sub_inv :: "'u Subscriber \<Rightarrow> bool" where
  "sub_inv sub \<longleftrightarrow> conns (sub_socket sub) \<subseteq> set (publisherURLs sub)"

definition sub_exact :: "'u Subscriber \<Rightarrow> bool" where
  "sub_exact sub \<longleftrightarrow> distinct (publisherURLs sub) \<and> set (publisherURLs sub) = conns (sub_socket sub) \<and>
     legal (sub_socket sub)"

definition sm_inv :: "'u SubscriberManager \<Rightarrow> bool" where
  "sm_inv m \<longleftrightarrow> (\<forall>sub \<in> set (subscribers m). sub_inv sub)"

definition sm_exact :: "'u SubscriberManager \<Rightarrow> bool" where
  "sm_exact m \<longleftrightarrow> (\<forall>sub \<in> set (subscribers m). sub_exact sub)"

lemma remove1_keeps: "A \<subseteq> set us \<Longrightarrow> A - {u} \<subseteq> set (remove1 u us)"
  using in_set_remove1 [of _ u us] by blast

lemma connect_topic_inv:
  "sub_inv sub \<Longrightarrow> sub_inv (snd (connect_topic zmq t sub))"
  "sub_exact sub \<Longrightarrow> sub_exact (snd (connect_topic zmq t sub))"
  by (auto simp: connect_topic_def sock_do_def sub_inv_def sub_exact_def Let_def split: option.splits)

lemma disconnect_topic_inv:
  "sub_inv sub \<Longrightarrow> sub_inv (snd (disconnect_topic zmq t sub))"
  "sub_exact sub \<Longrightarrow> sub_exact (snd (disconnect_topic zmq t sub))"
  by (auto simp: disconnect_topic_def sock_do_def sub_inv_def sub_exact_def Let_def remove1_keeps split: option.splits)

lemma for_subs_all:
  assumes "\<And>x. P x \<Longrightarrow> P (snd (f x))" and "\<forall>x \<in> set xs. P x"
  shows "\<forall>x \<in> set (snd (for_subs f xs)). P x"
  using assms(2)
proof (induction xs)
  case (Cons x xs)
  then show ?case using assms(1) [of x] by (auto split: prod.splits option.splits)
qed simp

lemma for_topics_all:
  assumes "\<And>t x. P x \<Longrightarrow> P (snd (f t x))" and "\<forall>x \<in> set xs. P x"
  shows "\<forall>x \<in> set (snd (for_topics f ts xs)). P x"
  using assms(2)
proof (induction ts arbitrary: xs)
  case (Cons t ts)
  have "\<forall>x \<in> set (snd (for_subs (f t) xs)). P x"
    using assms(1) Cons.prems by (rule for_subs_all)
  then show ?case using Cons.IH by (auto split: prod.splits option.splits)
qed simp

text \<open>The connections a registration makes: all its endpoints, unless a call throws.\<close>

lemma connect_urls_inv:
  "sub_inv sub \<Longrightarrow> sub_inv (snd (connect_urls zmq urls sub))"
  "sub_exact sub \<Longrightarrow> distinct (publisherURLs sub @ urls) \<Longrightarrow> sub_exact (snd (connect_urls zmq urls sub))"
proof (induction urls arbitrary: sub)
  case (Cons url urls)
  {
    case 1
    let ?s = "sub\<lparr>sub_socket := sub_socket sub @ [Connect url], publisherURLs := publisherURLs sub @ [url]\<rparr>"
    from 1 have "sub_inv ?s" by (simp add: sub_inv_def) blast
    with 1 Cons.IH(1) [of ?s] show ?case by (simp add: sock_do_def split: option.split)
  next
    case 2
    let ?s = "sub\<lparr>sub_socket := sub_socket sub @ [Connect url], publisherURLs := publisherURLs sub @ [url]\<rparr>"
    from 2 have "sub_exact ?s" "distinct (publisherURLs ?s @ urls)" by (auto simp: sub_exact_def)
    with 2 Cons.IH(2) [of ?s] show ?case by (simp add: sock_do_def split: option.split)
  }
qed simp_all

text \<open>A registration adds at most one subscriber, which has just been connected.\<close>

lemma register_adds:
  "subscribers (snd (register_subscriber zmq cx iter nim topic cb m)) \<in>
     {subscribers m, subscribers m @ [snd (connect_urls zmq (findTopicURLs iter nim topic)
         \<lparr>topicName = topic, publisherURLs = [], sub_callback = cb, sub_socket = [SetSubscribe []]\<rparr>)]}"
  by (cases cx; cases "zmq [] (SetSubscribe [])"; cases "connect_urls zmq (findTopicURLs iter nim topic)
         \<lparr>topicName = topic, publisherURLs = [], sub_callback = cb, sub_socket = [SetSubscribe []]\<rparr>")
    (simp_all add: register_subscriber_def sock_do_def split: option.split)

lemma new_subscriber:
  "sub_inv \<lparr>topicName = topic, publisherURLs = [], sub_callback = cb, sub_socket = [SetSubscribe []]\<rparr>"
  "sub_exact \<lparr>topicName = topic, publisherURLs = [], sub_callback = cb, sub_socket = [SetSubscribe []]\<rparr>"
  by (simp_all add: sub_inv_def sub_exact_def conns_def legal_def)

lemma sm_inv_register [inv_intros]:
  assumes "sm_inv m"
  shows "sm_inv (snd (register_subscriber zmq cx iter nim topic cb m))"
  using register_adds [of zmq cx iter nim topic cb m] assms connect_urls_inv(1) [OF new_subscriber(1)]
  by (auto simp: sm_inv_def)

lemma sm_exact_register [inv_intros]:
  assumes "sm_exact m" and "distinct (findTopicURLs iter nim topic)"
  shows "sm_exact (snd (register_subscriber zmq cx iter nim topic cb m))"
  using register_adds [of zmq cx iter nim topic cb m] assms(1)
    connect_urls_inv(2) [where urls = "findTopicURLs iter nim topic" and zmq = zmq, OF new_subscriber(2) [of topic cb]] assms(2)
  by (auto simp: sm_exact_def)

lemma update_snd:
  "subscribers (snd (updateTopicSubscriber zmq info m)) =
     snd (for_topics (connect_topic zmq) (topics info) (subscribers m))"
  "fst (updateTopicSubscriber zmq info m) = fst (for_topics (connect_topic zmq) (topics info) (subscribers m))"
  by (simp_all add: updateTopicSubscriber_def split: prod.splits)

lemma remove_snd:
  "subscribers (snd (removeTopicSubscriber zmq info m)) =
     snd (for_topics (disconnect_topic zmq) (topics info) (subscribers m))"
  "fst (removeTopicSubscriber zmq info m) = fst (for_topics (disconnect_topic zmq) (topics info) (subscribers m))"
  by (simp_all add: removeTopicSubscriber_def split: prod.splits)

lemma sm_inv_ops [inv_intros]:
  "sm_inv sm_empty"
  "sm_inv m \<Longrightarrow> sm_inv (snd (updateTopicSubscriber zmq info m))"
  "sm_inv m \<Longrightarrow> sm_inv (snd (removeTopicSubscriber zmq info m))"
  "sm_exact sm_empty"
  "sm_exact m \<Longrightarrow> sm_exact (snd (updateTopicSubscriber zmq info m))"
  "sm_exact m \<Longrightarrow> sm_exact (snd (removeTopicSubscriber zmq info m))"
proof -
  show "sm_inv sm_empty" "sm_exact sm_empty" by (simp_all add: sm_inv_def sm_exact_def sm_empty_def)
  show "sm_inv (snd (updateTopicSubscriber zmq info m))" if "sm_inv m"
    using that unfolding sm_inv_def update_snd by (intro for_topics_all connect_topic_inv)
  show "sm_inv (snd (removeTopicSubscriber zmq info m))" if "sm_inv m"
    using that unfolding sm_inv_def remove_snd by (intro for_topics_all disconnect_topic_inv)
  show "sm_exact (snd (updateTopicSubscriber zmq info m))" if "sm_exact m"
    using that unfolding sm_exact_def update_snd by (intro for_topics_all connect_topic_inv)
  show "sm_exact (snd (removeTopicSubscriber zmq info m))" if "sm_exact m"
    using that unfolding sm_exact_def remove_snd by (intro for_topics_all disconnect_topic_inv)
qed

text \<open>
  The subscriber manager between two calls, whatever ZeroMQ answers; and the runs in which no
  registration found the same endpoint twice.
\<close>

inductive sm_step :: "'u SubscriberManager \<Rightarrow> 'u SubscriberManager \<Rightarrow> bool" where
  register: "sm_step m (snd (register_subscriber zmq cx iter (nim :: 'u SubscriberManager NodeInfoManager) topic cb m))"
| update: "sm_step m (snd (updateTopicSubscriber zmq info m))"
| remove: "sm_step m (snd (removeTopicSubscriber zmq info m))"

inductive sm_step_once :: "'u SubscriberManager \<Rightarrow> 'u SubscriberManager \<Rightarrow> bool" where
  register: "distinct (findTopicURLs iter nim topic) \<Longrightarrow>
     sm_step_once m (snd (register_subscriber zmq cx iter (nim :: 'u SubscriberManager NodeInfoManager) topic cb m))"
| update: "sm_step_once m (snd (updateTopicSubscriber zmq info m))"
| remove: "sm_step_once m (snd (removeTopicSubscriber zmq info m))"

interpretation sm: safe_system "\<lambda>m. m = sm_empty" sm_step sm_inv
proof unfold_locales
  show "s = sm_empty \<Longrightarrow> sm_inv s" for s :: "'u SubscriberManager" by (simp add: sm_inv_ops(1))
  show "sm_inv s \<Longrightarrow> sm_step s t \<Longrightarrow> sm_inv t" for s t :: "'u SubscriberManager"
    by (erule sm_step.cases) (auto intro: inv_intros)
qed

interpretation sm_once: safe_system "\<lambda>m. m = sm_empty" sm_step_once sm_exact
proof unfold_locales
  show "s = sm_empty \<Longrightarrow> sm_exact s" for s :: "'u SubscriberManager" by (simp add: sm_inv_ops(4))
  show "sm_exact s \<Longrightarrow> sm_step_once s t \<Longrightarrow> sm_exact t" for s t :: "'u SubscriberManager"
    by (erule sm_step_once.cases) (auto intro: inv_intros)
qed

text \<open>Both handlers accept the default description, so the registry keeps its invariant.\<close>

lemma handlers_accept_default:
  "updateTopicSubscriber zmq NodeInfo_default m = (None, m)"
  "removeTopicSubscriber zmq NodeInfo_default m = (None, m)"
  by (simp_all add: updateTopicSubscriber_def removeTopicSubscriber_def NodeInfo_default_def)

lemma nim_inv_SubscriberManager_ctor [inv_intros]: "nim_inv nim \<Longrightarrow> nim_inv (SubscriberManager_ctor zmq nim)"
  unfolding SubscriberManager_ctor_def
  by (rule nim_inv_events(2) [OF nim_inv_events(1)])
    (auto intro: accepts_default_subscribe nim_inv_accepts simp: handlers_accept_default)

section \<open>The table of links\<close>

text \<open>
  The abstract view of the manager: for every subscriber its topic and its publishers. A node
  that appears adds its missing endpoints of that topic, a node that leaves takes them away.
\<close>

type_synonym link = "string \<times> string list"

definition links :: "'u SubscriberManager \<Rightarrow> link list" where
  "links m = map (\<lambda>sub. (topicName sub, publisherURLs sub)) (subscribers m)"

definition urls_for :: "string \<Rightarrow> NodeInfo \<Rightarrow> string list" where
  "urls_for topic info = map socket_url (filter (\<lambda>t. si_name t = topic) (topics info))"

definition add_url :: "string list \<Rightarrow> string \<Rightarrow> string list" where
  "add_url urls u = (if u \<in> set urls then urls else urls @ [u])"

definition link_update :: "NodeInfo \<Rightarrow> link \<Rightarrow> link" where
  "link_update info l = (fst l, foldl add_url (snd l) (urls_for (fst l) info))"

definition link_remove :: "NodeInfo \<Rightarrow> link \<Rightarrow> link" where
  "link_remove info l = (fst l, foldl (\<lambda>us u. remove1 u us) (snd l) (urls_for (fst l) info))"

lemma for_subs_success:
  "fst (for_subs f xs) = None \<Longrightarrow> snd (for_subs f xs) = map (\<lambda>x. snd (f x)) xs"
  by (induction xs) (auto split: prod.splits option.splits)

lemma for_topics_success:
  "fst (for_topics f ts xs) = None \<Longrightarrow>
   snd (for_topics f ts xs) = map (\<lambda>x. foldl (\<lambda>y t. snd (f t y)) x ts) xs"
proof (induction ts arbitrary: xs)
  case (Cons t ts)
  show ?case
  proof (cases "for_subs (f t) xs")
    case (Pair exc ys)
    with Cons.prems have "exc = None" by (cases exc) simp_all
    with Pair Cons for_subs_success [of "f t" xs] show ?thesis by (simp add: comp_def)
  qed
qed simp

text \<open>A fold that touches one projection of a subscriber only when a call succeeds needs that
  every call of it succeeded, which the success of the whole loop gives.\<close>

lemma for_subs_member:
  "fst (for_subs f xs) = None \<Longrightarrow> x \<in> set xs \<Longrightarrow> fst (f x) = None"
  by (induction xs) (auto split: prod.splits option.splits)

lemma for_topics_project:
  assumes step: "\<And>t x. fst (f t x) = None \<Longrightarrow> h (snd (f t x)) = g t (h x)"
    and ok: "fst (for_topics f ts xs) = None"
  shows "map h (snd (for_topics f ts xs)) = map (\<lambda>y. foldl (\<lambda>z t. g t z) y ts) (map h xs)"
  using ok
proof (induction ts arbitrary: xs)
  case (Cons t ts)
  show ?case
  proof (cases "for_subs (f t) xs")
    case (Pair exc ys)
    with Cons.prems have e: "exc = None" by (cases exc) simp_all
    have "\<forall>x \<in> set xs. fst (f t x) = None"
      using for_subs_member [of "f t" xs] Pair e by simp
    then have "map h ys = map (\<lambda>x. g t (h x)) xs"
      using for_subs_success [of "f t" xs] Pair e step by simp
    with Pair e Cons.IH [of ys] Cons.prems show ?thesis by (simp add: comp_def)
  qed
qed simp

lemma for_topics_never_throws:
  assumes "\<And>t x. fst (f t x) = None"
  shows "fst (for_topics f ts xs) = None"
proof -
  have subs: "fst (for_subs (f t) ys) = None" for t ys
    using assms by (induction ys) (auto split: prod.splits option.splits simp: prod_eq_iff)
  show ?thesis
  proof (induction ts arbitrary: xs)
    case (Cons t ts)
    then show ?case using subs [of t xs] by (cases "for_subs (f t) xs") simp
  qed simp
qed

lemma topic_calls_quiet [simp]:
  "fst (connect_topic (\<lambda>_ _. None) t sub) = None" "fst (disconnect_topic (\<lambda>_ _. None) t sub) = None"
  by (simp_all add: connect_topic_def disconnect_topic_def sock_do_def Let_def)

lemma foldl_urls_for:
  "foldl (\<lambda>l t. if fst l \<noteq> si_name t then l else (fst l, k (snd l) (socket_url t))) l ts =
   (fst l, foldl k (snd l) (map socket_url (filter (\<lambda>t. si_name t = fst l) ts)))"
  by (induction ts arbitrary: l) auto

text \<open>The refinement: a call that returns transforms the table as specified.\<close>

lemma links_update:
  assumes "fst (updateTopicSubscriber zmq info m) = None"
  shows "links (snd (updateTopicSubscriber zmq info m)) = map (link_update info) (links m)"
proof -
  let ?g = "\<lambda>t l. if fst l \<noteq> si_name t then l else (fst l, add_url (snd l) (socket_url t))"
  let ?h = "\<lambda>sub. (topicName sub, publisherURLs sub)"
  have "?h (snd (connect_topic zmq t sub)) = ?g t (?h sub)"
    if "fst (connect_topic zmq t sub) = None" for t sub
    using that by (auto simp: connect_topic_def sock_do_def add_url_def Let_def split: option.splits)
  from for_topics_project [of "connect_topic zmq" ?h ?g, OF this] assms show ?thesis
    by (simp add: links_def update_snd foldl_urls_for link_update_def urls_for_def comp_def)
qed

lemma links_remove:
  assumes "fst (removeTopicSubscriber zmq info m) = None"
  shows "links (snd (removeTopicSubscriber zmq info m)) = map (link_remove info) (links m)"
proof -
  let ?g = "\<lambda>t l. if fst l \<noteq> si_name t then l else (fst l, remove1 (socket_url t) (snd l))"
  let ?h = "\<lambda>sub. (topicName sub, publisherURLs sub)"
  have "?h (snd (disconnect_topic zmq t sub)) = ?g t (?h sub)"
    if "fst (disconnect_topic zmq t sub) = None" for t sub
    using that by (auto simp: disconnect_topic_def sock_do_def remove1_idem Let_def split: option.splits)
  from for_topics_project [of "disconnect_topic zmq" ?h ?g, OF this] assms show ?thesis
    by (simp add: links_def remove_snd foldl_urls_for [where k = "\<lambda>us u. remove1 u us"] link_remove_def urls_for_def comp_def)
qed

lemma set_foldl_add_url: "set (foldl add_url us vs) = set us \<union> set vs"
  by (induction vs arbitrary: us) (auto simp: add_url_def)

lemma distinct_foldl_add_url: "distinct us \<Longrightarrow> distinct (foldl add_url us vs)"
  by (induction vs arbitrary: us) (simp_all add: add_url_def)

lemma foldl_remove1_set:
  "distinct us \<Longrightarrow> distinct (foldl (\<lambda>us u. remove1 u us) us vs) \<and>
   set (foldl (\<lambda>us u. remove1 u us) us vs) = set us - set vs"
  by (induction vs arbitrary: us) auto

section \<open>The contract of a follower of the registry\<close>

text \<open>
  What the discovery relies on: the handlers of the two events transform the table as specified
  when they return, and keep the manager well formed. The lemmas of the locale speak about the
  endpoints a topic is linked to.
\<close>

locale topic_follower =
  fixes on_update on_remove :: "NodeInfo \<Rightarrow> 'w \<Rightarrow> exn option \<times> 'w"
    and table :: "'w \<Rightarrow> link list"
  assumes table_update: "fst (on_update info w) = None \<Longrightarrow>
      table (snd (on_update info w)) = map (link_update info) (table w)"
    and table_remove: "fst (on_remove info w) = None \<Longrightarrow>
      table (snd (on_remove info w)) = map (link_remove info) (table w)"
begin

lemma update_keeps_topics: "fst (on_update info w) = None \<Longrightarrow>
    map fst (table (snd (on_update info w))) = map fst (table w)"
  by (simp add: table_update link_update_def comp_def)

lemma remove_keeps_topics: "fst (on_remove info w) = None \<Longrightarrow>
    map fst (table (snd (on_remove info w))) = map fst (table w)"
  by (simp add: table_remove link_remove_def comp_def)

lemma update_links: "fst (on_update info w) = None \<Longrightarrow> (nm, us) \<in> set (table (snd (on_update info w))) \<Longrightarrow>
    t \<in> set (topics info) \<Longrightarrow> si_name t = nm \<Longrightarrow> socket_url t \<in> set us"
  by (auto simp: table_update link_update_def set_foldl_add_url urls_for_def)

end

interpretation follow: topic_follower "updateTopicSubscriber zmq" "removeTopicSubscriber zmq" links
  for zmq
  by unfold_locales (simp_all add: links_update links_remove)

lemma foldl_remove1_append:
  "set ws \<inter> set us = {} \<Longrightarrow> foldl (\<lambda>us u. remove1 u us) (us @ ws) vs =
     us @ foldl (\<lambda>us u. remove1 u us) ws vs" if "set vs \<inter> set us = {}"
  using that
proof (induction vs arbitrary: ws)
  case (Cons v vs)
  then show ?case
    using set_remove1_subset [of v ws] by (auto simp: remove1_append)
qed simp

lemma foldl_remove1_all: "distinct us \<Longrightarrow> set us \<subseteq> set vs \<Longrightarrow> foldl (\<lambda>us u. remove1 u us) us vs = []"
proof (induction vs arbitrary: us)
  case (Cons v vs)
  then have "distinct (remove1 v us)" "set (remove1 v us) \<subseteq> set vs" by auto
  with Cons.IH show ?case by simp
qed simp

lemma for_topics_fixed:
  assumes "\<And>t x. t \<in> set ts \<Longrightarrow> x \<in> set xs \<Longrightarrow> f t x = (None, x)"
  shows "for_topics f ts xs = (None, xs)"
  using assms
proof (induction ts)
  case (Cons t ts)
  have "\<forall>x \<in> set xs. f t x = (None, x)" using Cons.prems by simp
  then have "for_subs (f t) xs = (None, xs)" by (induction xs) auto
  with Cons show ?case by simp
qed simp

lemma update_linked:
  assumes "\<And>l. l \<in> set (links m) \<Longrightarrow> set (urls_for (fst l) info) \<subseteq> set (snd l)"
  shows "updateTopicSubscriber zmq info m = (None, m)"
proof -
  have "connect_topic zmq t sub = (None, sub)" if "t \<in> set (topics info)" "sub \<in> set (subscribers m)" for t sub
  proof (cases "topicName sub = si_name t")
    case True
    with that have "socket_url t \<in> set (urls_for (topicName sub) info)" by (auto simp: urls_for_def)
    moreover have "(topicName sub, publisherURLs sub) \<in> set (links m)" using that by (auto simp: links_def)
    ultimately have "socket_url t \<in> set (publisherURLs sub)"
      using assms [of "(topicName sub, publisherURLs sub)"] by auto
    then show ?thesis by (simp add: connect_topic_def)
  qed (simp add: connect_topic_def)
  then have "for_topics (connect_topic zmq) (topics info) (subscribers m) = (None, subscribers m)"
    by (rule for_topics_fixed)
  then show ?thesis by (simp add: updateTopicSubscriber_def)
qed

text \<open>What one added, the other takes away again.\<close>

lemma foldl_add_url_prefix: "\<exists>ws. foldl add_url us vs = us @ ws \<and> set ws = set vs - set us \<and> distinct ws"
proof (induction vs rule: rev_induct)
  case (snoc v vs)
  then obtain ws where "foldl add_url us vs = us @ ws" "set ws = set vs - set us" "distinct ws" by blast
  note ws = this
  show ?case
  proof (cases "v \<in> set us \<union> set vs")
    case True
    with ws have "foldl add_url us (vs @ [v]) = us @ ws \<and> set ws = set (vs @ [v]) - set us \<and> distinct ws"
      by (auto simp: add_url_def [of "us @ ws"])
    then show ?thesis by blast
  next
    case False
    with ws have "foldl add_url us (vs @ [v]) = us @ (ws @ [v]) \<and>
        set (ws @ [v]) = set (vs @ [v]) - set us \<and> distinct (ws @ [v])"
      by (auto simp: add_url_def [of "us @ ws"])
    then show ?thesis by blast
  qed
qed simp

lemma link_remove_update:
  assumes "set (urls_for (fst l) info) \<inter> set (snd l) = {}"
  shows "link_remove info (link_update info l) = l"
proof -
  let ?us = "urls_for (fst l) info"
  obtain ws where ws: "foldl add_url (snd l) ?us = snd l @ ws" "set ws = set ?us - set (snd l)" "distinct ws"
    using foldl_add_url_prefix by blast
  then have "foldl (\<lambda>us u. remove1 u us) (snd l @ ws) ?us = snd l @ foldl (\<lambda>us u. remove1 u us) ws ?us"
    using assms by (intro foldl_remove1_append) auto
  also have "\<dots> = snd l" using ws by (subst foldl_remove1_all) auto
  finally show ?thesis using ws(1) by (simp add: link_remove_def link_update_def)
qed

section \<open>Polling\<close>

text \<open>The messages of a pass that reach a callback, up to the first answer that ends it.\<close>

lemma dispatch_append:
  "dispatch (ps @ qs) u =
     (case dispatch ps u of (Some e, u') \<Rightarrow> (Some e, u') | (None, u') \<Rightarrow> dispatch qs u')"
proof (induction ps u rule: dispatch.induct)
  case (5 sub msg ps u)
  then show ?case by (cases "sub_callback sub (view_of msg) u") (auto split: option.splits)
qed simp_all

text \<open>The callbacks of the ready subscribers, one call each.\<close>

definition deliveries :: "('u Subscriber \<times> recv_result) list \<Rightarrow> ('u \<Rightarrow> exn option \<times> 'u) list" where
  "deliveries ps = concat (map (\<lambda>(sub, r). case r of Received msg \<Rightarrow> [sub_callback sub (view_of msg)] | _ \<Rightarrow> []) ps)"

lemma dispatch_deliveries:
  assumes "\<And>sub e. (sub, RecvThrew e) \<notin> set ps"
  shows "dispatch ps u = run_callbacks (map (\<lambda>f _. f) (deliveries ps)) () u"
  using assms
proof (induction ps u rule: dispatch.induct)
  case (4 sub e ps u)
  then show ?case by (meson list.set_intros(1))
next
  case (5 sub msg ps u)
  then show ?case
    by (cases "sub_callback sub (view_of msg) u") (auto simp: deliveries_def split: option.splits)
qed (auto simp: deliveries_def)

section \<open>Properties\<close>

text \<open>A subscriber without publishers, and a node that announces one of its topic.\<close>

definition sm_example :: "unit SubscriberManager" where
  "sm_example = \<lparr>subscribers = [\<lparr>topicName = ''t'', publisherURLs = [],
     sub_callback = (\<lambda>_ u. (None, u)), sub_socket = [SetSubscribe []]\<rparr>]\<rparr>"

definition node_example :: NodeInfo where
  "node_example = NodeInfo_default\<lparr>topics := [\<lparr>si_name = ''t'', si_ip = ''10.0.0.7'', si_port = 9\<rparr>]\<rparr>"

text \<open>
  A registry that still holds a node and already the one that took over its endpoint: the
  endpoint is found twice, and when the old node leaves, the subscriber is not connected any
  more and remembers the endpoint.
\<close>

definition restarted :: "'u SubscriberManager NodeInfoManager" where
  "restarted = updateNodeUnlocked 0 ''new'' node_example (updateNodeUnlocked 0 ''old'' node_example
     (NodeInfoManager_ctor (\<lambda>_. 0) ''n'' ''i''))"

lemma bookkeeping_off:
  "\<exists>(m :: 'u SubscriberManager) sub u. reachable (\<lambda>m. m = sm_empty) sm_step m \<and> sub \<in> set (subscribers m) \<and>
     legal (sub_socket sub) \<and> publisherURLs sub = [u] \<and> conns (sub_socket sub) = {}"
proof -
  let ?m1 = "snd (register_subscriber quiet None (\<lambda>m. m) (restarted :: 'u SubscriberManager NodeInfoManager)
      ''t'' (\<lambda>_ u. (None, u)) (sm_empty :: 'u SubscriberManager))"
  let ?m2 = "snd (removeTopicSubscriber quiet node_example ?m1)"
  let ?u = "socket_url \<lparr>si_name = ''t'', si_ip = ''10.0.0.7'', si_port = 9\<rparr>"
  have "reachable (\<lambda>m. m = sm_empty) sm_step (sm_empty :: 'u SubscriberManager)" by (rule reach_start) (rule refl)
  then have "reachable (\<lambda>m. m = sm_empty) sm_step ?m1" by (rule reach_step) (rule sm_step.register)
  then have r: "reachable (\<lambda>m. m = sm_empty) sm_step ?m2" by (rule reach_step) (rule sm_step.remove)
  have "findTopicURLs (\<lambda>m. m) (restarted :: 'u SubscriberManager NodeInfoManager) ''t'' = [?u, ?u]"
    by (simp add: findTopicURLs_def getPublisherInfo_def restarted_def updateNodeUnlocked_def NodeInfoManager_ctor_def node_example_def)
  then have "subscribers ?m2 = [\<lparr>topicName = ''t'', publisherURLs = [?u], sub_callback = (\<lambda>_ u. (None, u)),
      sub_socket = [SetSubscribe [], Connect ?u, Connect ?u, Disconnect ?u]\<rparr>]"
    by (simp add: register_subscriber_def sock_do_def sm_empty_def removeTopicSubscriber_def node_example_def
        disconnect_topic_def Let_def)
  with r show ?thesis by (intro exI [of _ ?m2] exI [of _ ?u]) (simp add: conns_def legal_def)
qed

text \<open>
  A publisher that restarts on its old endpoint before its old description is evicted: the
  update changes nothing, and the eviction takes the link of the living node away.
\<close>

lemma restart_loses_link:
  assumes "updateTopicSubscriber zmq old m = (None, m1)" and "updateTopicSubscriber zmq new m1 = (None, m2)"
    and "removeTopicSubscriber zmq old m2 = (None, m3)" and "topics new = topics old"
    and "\<forall>l \<in> set (links m). distinct (snd l)"
  shows "\<forall>(nm, us) \<in> set (links m3). \<forall>t \<in> set (topics new). si_name t = nm \<longrightarrow> socket_url t \<notin> set us"
proof -
  have l: "links m1 = map (link_update old) (links m)" "links m2 = map (link_update new) (links m1)"
    "links m3 = map (link_remove old) (links m2)"
    using links_update [of zmq old m] links_update [of zmq new m1] links_remove [of zmq old m2] assms(1-3) by simp_all
  show ?thesis
    using assms(4,5) unfolding l
    by (auto simp: link_update_def link_remove_def foldl_remove1_set distinct_foldl_add_url urls_for_def)
qed

text \<open>
  C14: However registrations, appearing and leaving nodes follow each other and whatever ZeroMQ
  answers, a subscriber never forgets a connection. When no registration found one endpoint
  twice, the publishers it remembers are exactly the connections of its socket, each once, and
  the code never disconnects an endpoint that is not connected. Without that the bookkeeping can
  be wrong: a registration while the registry holds an endpoint twice leaves, after one of the
  two nodes has gone, a subscriber that remembers the endpoint and is not connected to it.
\<close>

theorem subscriber_bookkeeping:
  "(\<forall>m sub. reachable (\<lambda>m. m = sm_empty) sm_step m \<and> sub \<in> set (subscribers m) \<longrightarrow>
      conns (sub_socket sub) \<subseteq> set (publisherURLs sub)) \<and>
   (\<forall>m sub. reachable (\<lambda>m. m = sm_empty) sm_step_once m \<and> sub \<in> set (subscribers m) \<longrightarrow>
      distinct (publisherURLs sub) \<and> set (publisherURLs sub) = conns (sub_socket sub) \<and> legal (sub_socket sub)) \<and>
   (\<exists>(m :: 'u SubscriberManager) sub u. reachable (\<lambda>m. m = sm_empty) sm_step m \<and> sub \<in> set (subscribers m) \<and>
      legal (sub_socket sub) \<and> publisherURLs sub = [u] \<and> conns (sub_socket sub) = {})"
proof (intro conjI)
  show "\<forall>m sub. reachable (\<lambda>m. m = sm_empty) sm_step m \<and> sub \<in> set (subscribers m) \<longrightarrow>
      conns (sub_socket sub) \<subseteq> set (publisherURLs sub)"
    using sm.reachable_inv by (metis sm_inv_def sub_inv_def)
  show "\<forall>m sub. reachable (\<lambda>m. m = sm_empty) sm_step_once m \<and> sub \<in> set (subscribers m) \<longrightarrow>
      distinct (publisherURLs sub) \<and> set (publisherURLs sub) = conns (sub_socket sub) \<and> legal (sub_socket sub)"
    using sm_once.reachable_inv by (metis sm_exact_def sub_exact_def)
qed (rule bookkeeping_off)

lemma sm_example_registered:
  "snd (register_subscriber (\<lambda>_ _. None) None (\<lambda>m. m) (NodeInfoManager_ctor (\<lambda>_. 0) ''n'' ''i'' :: unit SubscriberManager NodeInfoManager)
     ''t'' (\<lambda>_ u. (None, u)) sm_empty) = sm_example"
  by (simp add: register_subscriber_def sock_do_def findTopicURLs_def getPublisherInfo_def
      NodeInfoManager_ctor_def sm_empty_def sm_example_def)

theorem subscriber_bookkeeping_witness:
  "\<exists>u. {u} = conns [SetSubscribe [], Connect u] \<and> legal [SetSubscribe [], Connect u] \<and>
     map sub_socket (subscribers (snd (updateTopicSubscriber (\<lambda>_ _. None) node_example sm_example))) =
       [[SetSubscribe [], Connect u]]"
proof -
  let ?m = "snd (updateTopicSubscriber (\<lambda>_ _. None) node_example sm_example)"
  let ?u = "socket_url \<lparr>si_name = ''t'', si_ip = ''10.0.0.7'', si_port = 9\<rparr>"
  have m: "?m = \<lparr>subscribers = [\<lparr>topicName = ''t'', publisherURLs = [?u],
     sub_callback = (\<lambda>_ u. (None, u)), sub_socket = [SetSubscribe [], Connect ?u]\<rparr>]\<rparr>"
    by (simp add: updateTopicSubscriber_def node_example_def sm_example_def connect_topic_def sock_do_def Let_def)
  have "reachable (\<lambda>m. m = sm_empty) sm_step_once sm_example"
  proof (rule reach_step [of _ _ sm_empty])
    show "reachable (\<lambda>m. m = sm_empty) sm_step_once sm_empty" by (rule reach_start) (rule refl)
    show "sm_step_once sm_empty sm_example" unfolding sm_example_registered [symmetric]
      by (rule sm_step_once.register) (simp add: findTopicURLs_def getPublisherInfo_def NodeInfoManager_ctor_def)
  qed
  then have "reachable (\<lambda>m. m = sm_empty) sm_step_once ?m" by (rule reach_step) (rule sm_step_once.update)
  then have "\<forall>sub \<in> set (subscribers ?m). set (publisherURLs sub) = conns (sub_socket sub) \<and> legal (sub_socket sub)"
    using subscriber_bookkeeping by blast
  then show ?thesis unfolding m by (intro exI [of _ ?u]) simp
qed

text \<open>
  C15: When no socket call throws, a node that appears links every subscriber to all endpoints of its
  topic, adds no endpoint twice, and leaves the older links in place and in order; seeing the same
  node again changes nothing.
\<close>

theorem update_links_subscribers:
  assumes "updateTopicSubscriber zmq info m = (None, m')"
  shows "(\<forall>i < length (links m). \<exists>new.
            links m' ! i = (fst (links m ! i), snd (links m ! i) @ new) \<and> distinct new \<and>
            set new = socket_url ` {t \<in> set (topics info). si_name t = fst (links m ! i)}
                      - set (snd (links m ! i))) \<and>
         length (links m') = length (links m) \<and>
         updateTopicSubscriber zmq info m' = (None, m')"
proof -
  have m': "links m' = map (link_update info) (links m)"
    using follow.table_update [of zmq info m] assms by simp
  have "\<exists>new. link_update info l = (fst l, snd l @ new) \<and> distinct new \<and>
      set new = socket_url ` {t \<in> set (topics info). si_name t = fst l} - set (snd l)" for l
    using foldl_add_url_prefix [of "snd l" "urls_for (fst l) info"]
    by (simp add: link_update_def urls_for_def) blast
  moreover have "set (urls_for (fst l) info) \<subseteq> set (snd l)" if "l \<in> set (links m')" for l
    using that by (auto simp: m' link_update_def set_foldl_add_url)
  then have "updateTopicSubscriber zmq info m' = (None, m')" by (rule update_linked)
  ultimately show ?thesis by (simp add: m')
qed

theorem update_links_subscribers_witness:
  "links (snd (updateTopicSubscriber (\<lambda>_ _. None) node_example sm_example)) =
     [(''t'', [''tcp://10.0.0.7:9''])]"
proof -
  let ?r = "updateTopicSubscriber (\<lambda>_ _. None) node_example sm_example"
  have r: "?r = (None, snd ?r)" by (simp add: prod_eq_iff update_snd for_topics_never_throws)
  have "socket_url \<lparr>si_name = ''t'', si_ip = ''10.0.0.7'', si_port = 9\<rparr> = ''tcp://10.0.0.7:9''"
    by (simp add: socket_url_def tcp_url_def dec_eval)
  moreover have "links sm_example = [(''t'', [])]" by (simp add: links_def sm_example_def)
  moreover have "{t \<in> set (topics node_example). si_name t = ''t''} =
      {\<lparr>si_name = ''t'', si_ip = ''10.0.0.7'', si_port = 9\<rparr>}"
    by (auto simp: node_example_def)
  ultimately have "(\<exists>new. links (snd ?r) ! 0 = (''t'', new) \<and> distinct new \<and> set new = {''tcp://10.0.0.7:9''}) \<and>
    length (links (snd ?r)) = 1"
    using update_links_subscribers [OF r, THEN conjunct1]
      update_links_subscribers [OF r, THEN conjunct2, THEN conjunct1] by simp
  then show ?thesis by (metis distinct_singleton length_one_nth)
qed

text \<open>
  A node that leaves undoes what its appearance did: when none of its endpoints was linked
  before and no socket call throws, every subscriber has its old list of publishers back, and the
  connections its socket has open are those it had open before.
\<close>

lemma remove_undoes_update:
  assumes "\<forall>l \<in> set (links m). set (urls_for (fst l) info) \<inter> set (snd l) = {}" and "sm_exact m"
    and "updateTopicSubscriber zmq info m = (None, m1)" and "removeTopicSubscriber zmq info m1 = (None, m2)"
  shows "links m2 = links m \<and>
     map (\<lambda>sub. conns (sub_socket sub)) (subscribers m2) = map (\<lambda>sub. conns (sub_socket sub)) (subscribers m)"
proof -
  have "links m1 = map (link_update info) (links m)" "links m2 = map (link_remove info) (links m1)"
    using follow.table_update [of zmq info m] follow.table_remove [of zmq info m1] assms(3,4) by simp_all
  then have l: "links m2 = links m" using assms(1) by (simp add: map_idI link_remove_update)
  have "map (\<lambda>sub. conns (sub_socket sub)) (subscribers n) = map (\<lambda>x. set (snd x)) (links n)"
    if "sm_exact n" for n :: "'a SubscriberManager"
    using that by (simp add: links_def sm_exact_def sub_exact_def)
  moreover have "sm_exact m2"
    using sm_inv_ops(5) [OF assms(2), of zmq info] sm_inv_ops(6) [of m1 zmq info] assms(3,4) by simp
  ultimately show ?thesis using l assms(2) by simp
qed

lemma remove_undoes_update_witness:
  "links (snd (removeTopicSubscriber (\<lambda>_ _. None) node_example
     (snd (updateTopicSubscriber (\<lambda>_ _. None) node_example sm_example)))) = [(''t'', [])]"
proof -
  let ?r = "updateTopicSubscriber (\<lambda>_ _. None) node_example sm_example"
  let ?r2 = "removeTopicSubscriber (\<lambda>_ _. None) node_example (snd ?r)"
  have l: "links sm_example = [(''t'', [])]" by (simp add: links_def sm_example_def)
  have i: "sm_exact sm_example" by (simp add: sm_exact_def sub_exact_def sm_example_def conns_def legal_def)
  have r: "?r = (None, snd ?r)" "?r2 = (None, snd ?r2)"
    by (simp_all add: prod_eq_iff update_snd remove_snd for_topics_never_throws)
  show ?thesis
    using remove_undoes_update [OF _ i r] l by simp
qed

text \<open>
  A polling pass in which every socket operation succeeds hands exactly one message to the
  callback of each ready subscriber, in registration order; an exception of a callback is
  swallowed when it is a \<^verbatim>\<open>std::exception\<close>, but the later subscribers of that pass do not
  get their callback.
\<close>

lemma pollOnce_delivers:
  assumes "\<forall>e. RecvThrew e \<notin> set answers"
  shows "let calls = deliveries (zip (subscribers m) answers) in
     sm_pollOnce None answers m u =
       map_prod swallow_std (\<lambda>u. u) (run_callbacks (map (\<lambda>f _. f) calls) () u) \<and>
     length calls \<le> length (subscribers m) \<and>
     (\<forall>pre f post e u'. calls = pre @ f # post \<and>
        run_callbacks (map (\<lambda>f _. f) pre) () u = (None, u') \<and> fst (f u') = Some e \<and> is_std_exception e
        \<longrightarrow> sm_pollOnce None answers m u = (None, snd (f u')))"
proof -
  let ?ps = "zip (subscribers m) answers"
  have d: "dispatch ?ps u = run_callbacks (map (\<lambda>f _. f) (deliveries ?ps)) () u"
    using assms by (intro dispatch_deliveries) (metis set_zip_rightD)
  have "length (deliveries ps) \<le> length ps" for ps :: "('a Subscriber \<times> recv_result) list"
    by (induction ps) (auto simp: deliveries_def split: recv_result.splits)
  from this [of ?ps] have "length (deliveries ?ps) \<le> length (subscribers m)" by simp
  moreover have "sm_pollOnce None answers m u = (None, snd (f u'))"
    if "deliveries ?ps = pre @ f # post" "run_callbacks (map (\<lambda>f _. f) pre) () u = (None, u')"
      "fst (f u') = Some e" "is_std_exception e" for pre f post e u'
    using that by (cases "f u'") (simp add: sm_pollOnce_def d run_callbacks_append swallow_std_def)
  ultimately show ?thesis
    by (auto simp: Let_def sm_pollOnce_def d map_prod_def split: prod.splits)
qed

definition sm_logging :: "nat SubscriberManager" where
  "sm_logging = \<lparr>subscribers = map (\<lambda>e. \<lparr>topicName = ''t'', publisherURLs = [],
     sub_callback = (\<lambda>_ u. (e, Suc u)), sub_socket = []\<rparr>) [None, Some (DecodeException ''x''), None]\<rparr>"

lemma pollOnce_delivers_witness:
  "sm_pollOnce None [Received [1], Received [2], Received [3]] sm_logging 0 = (None, 2)"
  using pollOnce_delivers [of "[Received [1], Received [2], Received [3]]" sm_logging 0]
  by (simp add: Let_def sm_logging_def deliveries_def swallow_std_def)

end
