(* ===== verification/Multicast.thy ===== *)
theory Multicast
  imports Subscriber_Manager
begin

text \<open>
  \<^verbatim>\<open>nodes/multicast.hpp\<close> and \<^verbatim>\<open>.cpp\<close>: the periodic heartbeat sender and the
  receiver that filters datagrams and feeds the registry. The UDP socket is the platform's: a
  datagram that arrives is an argument, one that is sent is a result; the return values of the
  socket calls in the constructors and of \<^verbatim>\<open>sendto\<close> are not looked at by the code.
\<close>

section \<open>The sender\<close>

record MulticastSender =
  ms_group :: string
  ms_port :: int
  ms_groupName :: string

text \<open>The constructor also tells the registry the group name that goes into the heartbeats.\<close>

definition MulticastSender_ctor ::
  "string \<Rightarrow> int \<Rightarrow> string \<Rightarrow> 'w NodeInfoManager \<Rightarrow> MulticastSender \<times> 'w NodeInfoManager" where
  "MulticastSender_ctor grp port group_nm nim =
     (\<lparr>ms_group = grp, ms_port = port, ms_groupName = group_nm\<rparr>, setGroupName group_nm nim)"

definition sendHeartbeat :: "bytes \<Rightarrow> bytes list \<Rightarrow> bytes list" where
  "sendHeartbeat msg wire = wire @ [msg]"

text \<open>The task that runs every second: an exception of the encoder reaches the periodic task.\<close>

definition heartbeat_tick :: "endian \<Rightarrow> 'w NodeInfoManager \<Rightarrow> bytes list \<Rightarrow> exn option \<times> bytes list" where
  "heartbeat_tick e nim wire =
     (let msg = createHeartbeat nim
      in case hb_encode e msg of
           Inl ex \<Rightarrow> (Some ex, wire)
         | Inr b \<Rightarrow> (None, sendHeartbeat b wire))"

section \<open>The receiver\<close>

record MulticastReceiver =
  mr_localIP :: string
  mr_groupName :: string

definition MulticastReceiver_ctor :: "string \<Rightarrow> string \<Rightarrow> MulticastReceiver" where
  "MulticastReceiver_ctor localIP group_nm = \<lparr>mr_localIP = localIP, mr_groupName = group_nm\<rparr>"

definition recv_buf_size :: nat where
  "recv_buf_size = 1024"

text \<open>
  \<^verbatim>\<open>recvfrom\<close> copies what fits into the zeroed buffer and returns the number of bytes; the
  rest of a longer datagram is lost.
\<close>

definition recvfrom :: "bytes \<Rightarrow> bytes \<times> nat" where
  "recvfrom data =
     (take recv_buf_size data @ replicate (recv_buf_size - length data) 0, min recv_buf_size (length data))"

text \<open>
  The receive task. \<open>dgram\<close> is the datagram and the text of its source address, \<open>None\<close> when
  \<^verbatim>\<open>recvfrom\<close> fails; \<open>now1\<close>, \<open>now2\<close>, \<open>now3\<close> are the clock readings of the three
  critical sections of the registry.
\<close>

definition receive_once ::
  "endian \<Rightarrow> (string \<Rightarrow> u32 option) \<Rightarrow> (string \<Rightarrow> string \<Rightarrow> NodeInfo result) \<Rightarrow> (int hash_map \<Rightarrow> int hash_map)
     \<Rightarrow> int \<Rightarrow> int \<Rightarrow> int \<Rightarrow> MulticastReceiver \<Rightarrow> (bytes \<times> string) option
     \<Rightarrow> 'w NodeInfoManager \<Rightarrow> 'w \<Rightarrow> exn option \<times> 'w NodeInfoManager \<times> 'w" where
  "receive_once e inet_aton request iter now1 now2 now3 r dgram nim w =
     (case dgram of
        None \<Rightarrow> (None, nim, w)
      | Some (data, nodeIP) \<Rightarrow>
          (let (buf, n) = recvfrom data
           in if n = 0 then (None, nim, w)
              else if \<not> isInSameSubnet e inet_aton (mr_localIP r) nodeIP DEFAULT_SUBNET_MASK then (None, nim, w)
              else case hb_decode e buf n of
                     None \<Rightarrow> (Some MemoryError, nim, w)
                   | Some (Inl ex) \<Rightarrow> (swallow_std (Some ex), nim, w)
                   | Some (Inr heartbeat) \<Rightarrow>
                       if group_name heartbeat \<noteq> mr_groupName r then (None, nim, w)
                       else if node_id heartbeat = nim_nodeID nim then (None, nim, w)
                       else (case processHeartbeat request now1 now2 heartbeat nodeIP nim w of
                               (Some ex, nim1, w1) \<Rightarrow> (swallow_std (Some ex), nim1, w1)
                             | (None, nim1, w1) \<Rightarrow>
                                 (case checkHeartbeats iter now3 nim1 w1 of
                                    (exc, nim2, w2) \<Rightarrow> (swallow_std exc, nim2, w2)))))"

section \<open>What the receiver does with a datagram\<close>

lemma recvfrom_decode:
  "hb_decode e (fst (recvfrom data)) (snd (recvfrom data)) =
     (if length data < HEARTBEAT_FIXED_SIZE
      then Some (Inl (RuntimeError ''HeartbeatMessage: data too short, expected at least 56 bytes''))
      else Some (Inr (hb_parse (take recv_buf_size data))))"
proof (cases "length data < HEARTBEAT_FIXED_SIZE")
  case True
  then have "snd (recvfrom data) < HEARTBEAT_FIXED_SIZE" by (simp add: recvfrom_def)
  with True show ?thesis by (simp add: hb_decode_short)
next
  case False
  then have "HEARTBEAT_FIXED_SIZE \<le> snd (recvfrom data)" "snd (recvfrom data) \<le> length (fst (recvfrom data))"
    by (auto simp: recvfrom_def HEARTBEAT_FIXED_SIZE_def recv_buf_size_def)
  moreover have "take (snd (recvfrom data)) (fst (recvfrom data)) = take recv_buf_size data"
    by (auto simp: recvfrom_def min_def)
  ultimately show ?thesis using False by (simp add: hb_decode_long)
qed

text \<open>The heartbeat a datagram holds.\<close>

abbreviation told :: "bytes \<Rightarrow> HeartbeatMessage" where
  "told data \<equiv> hb_parse (take recv_buf_size data)"

definition admitted :: "endian \<Rightarrow> (string \<Rightarrow> u32 option) \<Rightarrow> MulticastReceiver \<Rightarrow> 'w NodeInfoManager
     \<Rightarrow> bytes \<Rightarrow> string \<Rightarrow> bool" where
  "admitted e inet_aton r nim data nodeIP \<longleftrightarrow>
     isInSameSubnet e inet_aton (mr_localIP r) nodeIP DEFAULT_SUBNET_MASK \<and>
     HEARTBEAT_FIXED_SIZE \<le> length data \<and>
     group_name (hb_parse (take recv_buf_size data)) = mr_groupName r \<and>
     node_id (hb_parse (take recv_buf_size data)) \<noteq> nim_nodeID nim"

lemma receive_once_eq:
  "receive_once e aton request iter now1 now2 now3 r (Some (data, ip)) nim w =
     (if admitted e aton r nim data ip
      then (case processHeartbeat request now1 now2 (hb_parse (take recv_buf_size data)) ip nim w of
              (Some ex, nim1, w1) \<Rightarrow> (swallow_std (Some ex), nim1, w1)
            | (None, nim1, w1) \<Rightarrow>
                (case checkHeartbeats iter now3 nim1 w1 of (exc, nim2, w2) \<Rightarrow> (swallow_std exc, nim2, w2)))
      else (None, nim, w))"
proof (cases "length data < HEARTBEAT_FIXED_SIZE")
  case True
  with recvfrom_decode [of e data] show ?thesis
    by (cases "recvfrom data") (simp add: receive_once_def admitted_def swallow_std_def)
next
  case False
  then have "snd (recvfrom data) \<noteq> 0" by (auto simp: recvfrom_def HEARTBEAT_FIXED_SIZE_def recv_buf_size_def)
  with False recvfrom_decode [of e data] show ?thesis
    by (cases "recvfrom data") (simp add: receive_once_def admitted_def)
qed

text \<open>A valid heartbeat in the buffer: cut off behind byte 1024, which only touches the group name.\<close>

lemma hb_parse_take_layout:
  assumes "hb_valid m"
  shows "hb_parse (take recv_buf_size (hb_layout m)) = m\<lparr>group_name := take 968 (group_name m)\<rparr>"
proof -
  have "take recv_buf_size (hb_layout m) = hb_layout (m\<lparr>group_name := take 968 (group_name m)\<rparr>)"
    using assms by (simp add: hb_layout_def hb_valid_def recv_buf_size_def bytes_of_string_def take_map
        split: prod.splits)
  moreover have "hb_valid (m\<lparr>group_name := take 968 (group_name m)\<rparr>)" using assms by (simp add: hb_valid_def)
  ultimately show ?thesis by (simp add: hb_parse_layout)
qed

lemma admitted_heartbeat:
  assumes "hb_encode e' m = Inr data"
  shows "admitted e aton r nim data ip \<longleftrightarrow>
     isInSameSubnet e aton (mr_localIP r) ip DEFAULT_SUBNET_MASK \<and>
     take 968 (group_name m) = mr_groupName r \<and> node_id m \<noteq> nim_nodeID nim"
proof -
  have v: "hb_valid m" "data = hb_layout m" using assms by (simp_all add: hb_encode_Inr_iff)
  then have "HEARTBEAT_FIXED_SIZE \<le> length data" by (simp add: length_hb_layout)
  with v show ?thesis by (simp add: admitted_def hb_parse_take_layout)
qed

lemma nim_inv_receive_once [inv_intros]:
  assumes "nim_inv nim"
  shows "nim_inv (fst (snd (receive_once e aton request iter now1 now2 now3 r dgram nim w)))"
proof (cases dgram)
  case None
  with assms show ?thesis by (simp add: receive_once_def)
next
  case (Some dg)
  obtain data ip where dg: "dg = (data, ip)" by fastforce
  let ?p = "processHeartbeat request now1 now2 (hb_parse (take recv_buf_size data)) ip nim w"
  have "nim_inv (fst (snd ?p))" using assms by (rule nim_inv_processHeartbeat)
  with assms Some dg show ?thesis
    using nim_inv_checkHeartbeats [of "fst (snd ?p)" iter now3 "snd (snd ?p)"]
    by (cases ?p) (auto simp: receive_once_eq split: option.splits prod.splits)
qed

section \<open>The registry behind its two tasks\<close>

text \<open>
  What the multicast tasks and the node's own calls do to the registry, with any datagrams and any
  answers of the other nodes.
\<close>

inductive member_step :: "'w NodeInfoManager \<Rightarrow> 'w NodeInfoManager \<Rightarrow> bool" where
  receive: "member_step s (fst (snd (receive_once e aton request iter now1 now2 now3 r dgram s w)))"
| topic: "member_step s (registerLocalTopic nm p16 s)"
| service: "member_step s (registerLocalService nm p16 s)"
| group: "member_step s (setGroupName nm s)"
| port: "member_step s (setServicePort p s)"

definition member_inv :: "'w NodeInfoManager \<Rightarrow> bool" where
  "member_inv s \<longleftrightarrow> nim_inv s \<and> (\<forall>k \<in> keys (nodes_heartbeat s). length k = 36)"

lemma keys_evict: "keys (nodes_heartbeat (fst (snd (evict nids s w)))) \<subseteq> keys (nodes_heartbeat s)"
proof (induction nids arbitrary: s w)
  case (Cons nid nids)
  have "keys (nodes_heartbeat (removeNode nid s)) \<subseteq> keys (nodes_heartbeat s)" by (auto simp: removeNode_def)
  then have "keys (nodes_heartbeat (fst (snd (evict nids (removeNode nid s) w')))) \<subseteq> keys (nodes_heartbeat s)" for w'
    using Cons [of "removeNode nid s" w'] by blast
  then show ?case by (auto simp: evict_Cons split: prod.splits option.splits)
qed simp

lemma keys_processHeartbeat:
  "keys (nodes_heartbeat (fst (snd (processHeartbeat request now1 now2 hb ip s w)))) \<subseteq> insert (node_id hb) (keys (nodes_heartbeat s))"
  using touchHeartbeat_state [of now1 hb s]
  by (auto simp: processHeartbeat_def updateNodeUnlocked_def Let_def split: prod.splits sum.splits option.splits if_splits)

lemma member_inv_receive:
  assumes "member_inv s"
  shows "member_inv (fst (snd (receive_once e aton request iter now1 now2 now3 r dgram s w)))"
proof (cases "\<exists>data ip. dgram = Some (data, ip) \<and> admitted e aton r s data ip")
  case True
  then obtain data ip where d: "dgram = Some (data, ip)" and adm: "admitted e aton r s data ip" by blast
  let ?hb = "hb_parse (take recv_buf_size data)"
  let ?p = "processHeartbeat request now1 now2 ?hb ip s w"
  have "length (node_id ?hb) = 36"
    using adm by (auto simp: admitted_def hb_parse_def HEARTBEAT_FIXED_SIZE_def recv_buf_size_def min_def)
  then have p: "length k = 36" if "k \<in> keys (nodes_heartbeat (fst (snd ?p)))" for k
    using keys_processHeartbeat [of request now1 now2 ?hb ip s w] that assms by (auto simp: member_inv_def)
  moreover have "length k = 36" if "k \<in> keys (nodes_heartbeat (fst (snd (checkHeartbeats iter now3 (fst (snd ?p)) w1))))" for k w1
    using keys_evict [of _ "fst (snd ?p)" w1] that p by (auto simp: checkHeartbeats_def)
  ultimately have "\<forall>k \<in> keys (nodes_heartbeat (fst (snd (receive_once e aton request iter now1 now2 now3 r dgram s w)))). length k = 36"
    using adm d by (cases ?p) (auto simp: receive_once_eq split: option.splits prod.splits, metis fst_conv snd_conv)
  moreover have "nim_inv (fst (snd (receive_once e aton request iter now1 now2 now3 r dgram s w)))"
    using assms by (intro nim_inv_receive_once) (simp add: member_inv_def)
  ultimately show ?thesis by (simp add: member_inv_def)
next
  case False
  then have "fst (snd (receive_once e aton request iter now1 now2 now3 r dgram s w)) = s"
    by (cases dgram) ((simp add: receive_once_def), (auto simp: receive_once_eq))
  with assms show ?thesis by simp
qed

interpretation member: safe_system nim_start member_step member_inv
proof unfold_locales
  show "member_inv s" if "nim_start s" for s :: "'w NodeInfoManager"
  proof -
    obtain draws nm addr where "s = NodeInfoManager_ctor draws nm addr" using \<open>nim_start s\<close> by (auto simp: nim_start_def)
    then show ?thesis by (simp add: member_inv_def nim_inv_ctor) (simp add: NodeInfoManager_ctor_def)
  qed
  show "member_inv s \<Longrightarrow> member_step s t \<Longrightarrow> member_inv t" for s t :: "'w NodeInfoManager"
    by (erule member_step.cases)
      (auto simp: member_inv_receive, auto simp: member_inv_def nim_inv_register nim_inv_setters,
        auto simp: registerLocalTopic_def registerLocalService_def setGroupName_def setServicePort_def Let_def)
qed

section \<open>Properties\<close>




definition receiver_example :: MulticastReceiver where
  "receiver_example = MulticastReceiver_ctor ''10.0.0.1'' ''grp''"


text \<open>
  A heartbeat of another node of the same group and subnet is processed and then silent nodes
  are looked for; no standard exception of either leaves the task. The group name must fit in
  the buffer with the rest of the message, 968 bytes.
\<close>

lemma receiver_accepts:
  assumes "hb_encode e' m = Inr data" and "node_id m \<noteq> nim_nodeID nim"
    and "group_name m = mr_groupName r" and "length (group_name m) \<le> 968"
    and "isInSameSubnet e aton (mr_localIP r) ip DEFAULT_SUBNET_MASK"
  shows "case processHeartbeat request now1 now2 m ip nim w of (exc1, nim1, w1) \<Rightarrow>
     receive_once e aton request iter now1 now2 now3 r (Some (data, ip)) nim w =
       (if exc1 = None then map_prod swallow_std (\<lambda>x. x) (checkHeartbeats iter now3 nim1 w1)
        else (swallow_std exc1, nim1, w1))"
proof -
  have v: "hb_valid m" "data = hb_layout m" using assms(1) by (simp_all add: hb_encode_Inr_iff)
  have m: "hb_parse (take recv_buf_size data) = m"
    using hb_parse_take_layout [OF v(1)] assms(4) v(2) by simp
  have "admitted e aton r nim data ip" using assms by (simp add: admitted_heartbeat [OF assms(1)])
  with m show ?thesis
    by (auto simp: receive_once_eq map_prod_def split: prod.splits option.splits)
qed

lemma receiver_accepts_witness:
  "fst (receive_once LittleEndian (\<lambda>_. Some 0) (\<lambda>_ _. Inl (ZmqError 11 ''x'')) rev 1 2 3
     receiver_example (Some (hb_layout hb_example, ''10.0.0.7'')) nim_example ()) = None"
proof -
  have "nim_nodeID nim_example = generateUUID (\<lambda>_. 0)"
    by (simp add: nim_nodeID_def nim_example_def NodeInfoManager_ctor_def)
  moreover have "CHR ''-'' \<in> set (generateUUID (\<lambda>_. 0))" by code_simp
  moreover have "CHR ''-'' \<notin> set (node_id hb_example)" by (simp add: hb_example_def)
  ultimately have ne: "node_id hb_example \<noteq> nim_nodeID nim_example" by metis
  have inv: "nim_inv nim_example" unfolding nim_example_def by (rule nim_inv_ctor)
  have "map_of (nodes_info nim_example) (node_id hb_example) = None"
    by (simp add: nim_example_def NodeInfoManager_ctor_def)
  then have p: "processHeartbeat (\<lambda>_ _. Inl (ZmqError 11 ''x'')) 1 2 hb_example ''10.0.0.7'' nim_example () =
      (None, touched 1 hb_example nim_example, ())"
    using processHeartbeat_stale [OF inv, of hb_example "\<lambda>_ _. Inl (ZmqError 11 ''x'')" 1 2 "''10.0.0.7''" "()"]
    by (simp add: fetchNodeInfo_def)
  have "to_remove rev 3 (touched 1 hb_example nim_example) = []"
    by (simp add: to_remove_def nim_example_def NodeInfoManager_ctor_def expired_def seconds_between_def)
  then have "checkHeartbeats rev 3 (touched 1 hb_example nim_example) () =
      (None, touched 1 hb_example nim_example, ())"
    by (simp add: checkHeartbeats_def)
  then show ?thesis
    using receiver_accepts [of BigEndian hb_example "hb_layout hb_example" nim_example receiver_example
        LittleEndian "\<lambda>_. Some 0" "''10.0.0.7''" "\<lambda>_ _. Inl (ZmqError 11 ''x'')" rev 1 2 3 "()"] ne p
    by (simp add: hb_encode_Inr_iff hb_valid_def hb_example_def receiver_example_def MulticastReceiver_ctor_def
        isInSameSubnet_def)
qed

end
