(* ===== verification/Service_Manager.thy ===== *)
theory Service_Manager
  imports Msgpack_Codec Node_Info_Manager
begin

text \<open>
  \<^verbatim>\<open>utils/request_result.hpp\<close>, \<^verbatim>\<open>sockets/service_manager.hpp\<close> and
  \<^verbatim>\<open>.cpp\<close>: the status codes, the table of handlers, the answer to one request and one
  pass of the polling loop on the REP socket. What the socket returns or throws is an argument;
  the frames the code sends are its result. A handler changes the world \<open>'s\<close> it captured.
\<close>

section \<open>Responses\<close>

definition SUCCESS :: string where "SUCCESS = ''SUCCESS''"
definition NOSERVICE :: string where "NOSERVICE = ''NOSERVICE''"
definition INVALID_RESPONSE :: string where "INVALID_RESPONSE = ''INVALID_RESPONSE''"
definition SERVICE_FAIL :: string where "SERVICE_FAIL = ''SERVICE_FAIL''"
definition SERVICE_TIMEOUT :: string where "SERVICE_TIMEOUT = ''SERVICE_TIMEOUT''"
definition INVALID_REQUEST :: string where "INVALID_REQUEST = ''INVALID_REQUEST''"
definition UNKNOWN_ERROR :: string where "UNKNOWN_ERROR = ''UNKNOWN_ERROR''"

lemmas status_defs = SUCCESS_def NOSERVICE_def INVALID_RESPONSE_def SERVICE_FAIL_def
  SERVICE_TIMEOUT_def INVALID_REQUEST_def UNKNOWN_ERROR_def

definition is_error :: "string \<Rightarrow> bool" where
  "is_error status \<longleftrightarrow> status \<noteq> SUCCESS"

record Response =
  code :: string
  payload :: bytes

definition Response_default :: Response where
  "Response_default = \<lparr>code = SUCCESS, payload = []\<rparr>"

section \<open>The manager\<close>

type_synonym 's handler = "ByteView \<Rightarrow> 's \<Rightarrow> bytes result \<times> 's"

record 's ServiceManager =
  handlers :: "'s handler hash_map"
  sm_service_port :: int

text \<open>
  The constructor: \<open>create\<close> is what \<^verbatim>\<open>createSocket\<close> or setting the receive timeout
  throws, \<open>zbind\<close> answers the endpoint the socket reports after binding.
\<close>

definition ServiceManager_ctor :: "exn option \<Rightarrow> (string \<Rightarrow> string result) \<Rightarrow> string \<Rightarrow> 's ServiceManager result" where
  "ServiceManager_ctor create zbind ip =
     (case create of
        Some e \<Rightarrow> Inl e
      | None \<Rightarrow>
          ebind (zbind (''tcp://'' @ ip @ '':0'')) (\<lambda>endpoint.
          ebind (getBoundPort endpoint) (\<lambda>port.
          Inr \<lparr>handlers = [], sm_service_port = port\<rparr>)))"

text \<open>
  The closure \<^verbatim>\<open>registerHandler\<close> stores: \<open>dec\<close> decodes into a fresh request object,
  \<open>enc\<close> encodes the response into a fresh buffer.
\<close>

definition typed_handler ::
  "(ByteView \<Rightarrow> 'q result) \<Rightarrow> ('r \<Rightarrow> bytes result) \<Rightarrow> ('q \<Rightarrow> 's \<Rightarrow> 'r result \<times> 's) \<Rightarrow> 's handler" where
  "typed_handler dec enc func view s =
     (case dec view of
        Inl e \<Rightarrow> (Inl e, s)
      | Inr req \<Rightarrow>
          (case func req s of
             (Inl e, s') \<Rightarrow> (Inl e, s')
           | (Inr resp, s') \<Rightarrow> (enc resp, s')))"

definition registerHandler ::
  "(ByteView \<Rightarrow> 'q result) \<Rightarrow> ('r \<Rightarrow> bytes result) \<Rightarrow> string \<Rightarrow> ('q \<Rightarrow> 's \<Rightarrow> 'r result \<times> 's)
     \<Rightarrow> 's ServiceManager \<Rightarrow> 's ServiceManager" where
  "registerHandler dec enc nm func m =
     m\<lparr>handlers := AList.update nm (typed_handler dec enc func) (handlers m)\<rparr>"

text \<open>The overload for a member function: the same closure over the object \<^verbatim>\<open>instance\<close>.\<close>

definition registerHandler_member ::
  "(ByteView \<Rightarrow> 'q result) \<Rightarrow> ('r \<Rightarrow> bytes result) \<Rightarrow> string \<Rightarrow> ('c \<Rightarrow> 'q \<Rightarrow> 's \<Rightarrow> 'r result \<times> 's) \<Rightarrow> 'c
     \<Rightarrow> 's ServiceManager \<Rightarrow> 's ServiceManager" where
  "registerHandler_member dec enc nm func inst m =
     m\<lparr>handlers := AList.update nm (typed_handler dec enc (func inst)) (handlers m)\<rparr>"

definition clearHandlers :: "'s ServiceManager \<Rightarrow> 's ServiceManager" where
  "clearHandlers m = m\<lparr>handlers := []\<rparr>"

definition removeHandler :: "string \<Rightarrow> 's ServiceManager \<Rightarrow> 's ServiceManager" where
  "removeHandler nm m = m\<lparr>handlers := AList.delete nm (handlers m)\<rparr>"

text \<open>The three \<^verbatim>\<open>catch\<close> clauses: the status they set, \<open>None\<close> when none applies.\<close>

fun status_of_exn :: "exn \<Rightarrow> string option" where
  "status_of_exn (DecodeException _) = Some INVALID_RESPONSE"
| "status_of_exn (EncodeException _) = Some INVALID_REQUEST"
| "status_of_exn e = (if is_std_exception e then Some SERVICE_FAIL else None)"

definition handleRequest ::
  "'s ServiceManager \<Rightarrow> string \<Rightarrow> ByteView \<Rightarrow> Response \<Rightarrow> 's \<Rightarrow> exn option \<times> Response \<times> 's" where
  "handleRequest m service_name view response s =
     (case map_of (handlers m) service_name of
        None \<Rightarrow> (None, response\<lparr>code := NOSERVICE\<rparr>, s)
      | Some h \<Rightarrow>
          (let response1 = response\<lparr>code := SUCCESS\<rparr>
           in case h view s of
                (Inr b, s') \<Rightarrow> (None, response1\<lparr>payload := b\<rparr>, s')
              | (Inl e, s') \<Rightarrow>
                  (case status_of_exn e of
                     Some st \<Rightarrow> (None, response1\<lparr>code := st\<rparr>, s')
                   | None \<Rightarrow> (Some e, response1, s'))))"

section \<open>One pass of the polling loop\<close>

text \<open>
  What \<^verbatim>\<open>recv\<close> answers: nothing within the timeout, a frame and whether more frames of
  the message follow, or an exception.
\<close>

datatype frame_result = NoFrame | Frame bytes bool | FrameThrew exn

text \<open>Frames as sent: the bytes and the \<^verbatim>\<open>sndmore\<close> flag.\<close>

type_synonym sent = "bytes \<times> bool"

text \<open>\<^verbatim>\<open>catch (const zmq::error_t &e)\<close>: every such exception ends the pass quietly.\<close>

fun catch_zmq :: "exn option \<Rightarrow> exn option" where
  "catch_zmq (Some (ZmqError n m)) = None"
| "catch_zmq exc = exc"

text \<open>
  The two \<^verbatim>\<open>send\<close> calls of a reply; \<open>send1\<close> and \<open>send2\<close> are what they throw.
\<close>

definition send_reply :: "exn option \<Rightarrow> exn option \<Rightarrow> Response \<Rightarrow> exn option \<times> sent list" where
  "send_reply send1 send2 response =
     (case send1 of
        Some e \<Rightarrow> (Some e, [])
      | None \<Rightarrow>
          (case send2 of
             Some e \<Rightarrow> (Some e, [(bytes_of_string (code response), True)])
           | None \<Rightarrow> (None, [(bytes_of_string (code response), True), (payload response, False)])))"

definition service_pollOnce ::
  "'s ServiceManager \<Rightarrow> frame_result \<Rightarrow> frame_result \<Rightarrow> exn option \<Rightarrow> exn option \<Rightarrow> 's
     \<Rightarrow> exn option \<times> sent list \<times> 's" where
  "service_pollOnce m recv1 recv2 send1 send2 s =
     (case recv1 of
        NoFrame \<Rightarrow> (None, [], s)
      | FrameThrew e \<Rightarrow> (catch_zmq (Some e), [], s)
      | Frame name_bytes has_more \<Rightarrow>
          (case decodeServiceHeader (view_of name_bytes) of
             None \<Rightarrow> (Some MemoryError, [], s)
           | Some service_name \<Rightarrow>
               if \<not> has_more then (None, [], s)
               else (case recv2 of
                       NoFrame \<Rightarrow> (None, [], s)
                     | FrameThrew e \<Rightarrow> (catch_zmq (Some e), [], s)
                     | Frame payload_bytes more2 \<Rightarrow>
                         (case handleRequest m service_name (view_of payload_bytes) Response_default s of
                            (Some e, response, s') \<Rightarrow> (catch_zmq (Some e), [], s')
                          | (None, response, s') \<Rightarrow>
                              (case send_reply send1 send2 response of
                                 (exc, out) \<Rightarrow> (catch_zmq exc, out, s'))))))"

section \<open>The table of handlers\<close>

text \<open>What a client of a handler table relies on.\<close>

locale handler_table =
  fixes look :: "'t \<Rightarrow> string \<Rightarrow> 's handler option"
    and put :: "string \<Rightarrow> 's handler \<Rightarrow> 't \<Rightarrow> 't"
    and del :: "string \<Rightarrow> 't \<Rightarrow> 't"
    and clr :: "'t \<Rightarrow> 't"
  assumes look_put: "look (put k h t) = (look t)(k \<mapsto> h)"
    and look_del: "look (del k t) = (look t)(k := None)"
    and look_clr: "look (clr t) = (\<lambda>_. None)"
begin

lemma put_last_wins: "look (put k h' (put k h t)) = look (put k h' t)"
  by (simp add: look_put)

lemma del_put: "look (del k (put k h t)) = look (del k t)"
  by (simp add: look_put look_del)

lemma put_commute: "k \<noteq> k' \<Longrightarrow> look (put k h (put k' h' t)) = look (put k' h' (put k h t))"
  by (auto simp: look_put)

end

interpretation tab: handler_table "\<lambda>m. map_of (handlers m)"
    "\<lambda>k h m. m\<lparr>handlers := AList.update k h (handlers m)\<rparr>" removeHandler clearHandlers
  by unfold_locales (auto simp: removeHandler_def clearHandlers_def fun_eq_iff)

lemma registerHandler_lookup:
  "map_of (handlers (registerHandler dec enc nm func m)) = (map_of (handlers m))(nm \<mapsto> typed_handler dec enc func)"
  unfolding registerHandler_def by (rule tab.look_put)

definition service_inv :: "'s ServiceManager \<Rightarrow> bool" where
  "service_inv m \<longleftrightarrow> hm_ok (handlers m)"

lemma service_inv_ops [inv_intros]:
  "service_inv m \<Longrightarrow> service_inv (registerHandler dec enc nm func m)"
  "service_inv m \<Longrightarrow> service_inv (registerHandler_member dec enc nm func' inst m)"
  "service_inv m \<Longrightarrow> service_inv (removeHandler nm m)"
  "service_inv (clearHandlers m)"
  by (simp_all add: service_inv_def registerHandler_def registerHandler_member_def removeHandler_def
      clearHandlers_def)

section \<open>Names and replies\<close>

lemma service_name_arrives:
  assumes "length nm \<le> 1024" and "CHR 0x00 \<notin> set nm"
  shows "decodeServiceHeader (view_of (bytes_of_string nm)) = Some nm"
proof -
  have "0 \<notin> set (bytes_of_string nm)"
    using assms(2) nul_in_string_of_bytes [of "bytes_of_string nm"] by simp
  then have "header_spec (bytes_of_string nm) = bytes_of_string nm"
    using assms(1) by (simp add: header_spec_id_iff)
  moreover have "bv_bytes (view_of (bytes_of_string nm)) = bytes_of_string nm"
    using assms(1) by (intro bv_bytes_view_of) simp
  ultimately show ?thesis
    using decodeServiceHeader_eq [of "view_of (bytes_of_string nm)"] by simp
qed

lemma service_pollOnce_request:
  assumes "decodeServiceHeader (view_of nb) = Some nm"
    and "handleRequest m nm (view_of pb) Response_default s = (None, r, s')"
  shows "service_pollOnce m (Frame nb True) (Frame pb has_more) None None s =
     (None, [(bytes_of_string (code r), True), (payload r, False)], s')"
  using assms by (simp add: service_pollOnce_def send_reply_def)

lemma handleRequest_typed:
  assumes "map_of (handlers m) nm = Some (typed_handler dec enc func)"
    and "dec view = Inr q" and "func q s = (Inr x, s')" and "enc x = Inr b"
  shows "handleRequest m nm view r s = (None, r\<lparr>code := SUCCESS, payload := b\<rparr>, s')"
  using assms by (simp add: handleRequest_def typed_handler_def)

lemma status_of_exn_None: "status_of_exn e = None \<longleftrightarrow> \<not> is_std_exception e"
  by (cases e) simp_all

section \<open>Properties\<close>

text \<open>
  C16: The answer to a request on every branch. An unknown name answers NOSERVICE. A handler's
  result is sent back with SUCCESS. An exception of the handler leaves the payload empty and
  never escapes if it is a standard one: a request that does not decode is reported as
  INVALID_RESPONSE, a response that does not encode as INVALID_REQUEST, everything else as
  SERVICE_FAIL; each of them is an error status.
\<close>

theorem handleRequest_branches:
  "case handleRequest m nm view Response_default s of (exc, r, s') \<Rightarrow>
     (case map_of (handlers m) nm of
        None \<Rightarrow> exc = None \<and> r = \<lparr>code = NOSERVICE, payload = []\<rparr> \<and> s' = s
      | Some h \<Rightarrow> s' = snd (h view s) \<and>
          (case fst (h view s) of
             Inr b \<Rightarrow> exc = None \<and> r = \<lparr>code = SUCCESS, payload = b\<rparr>
           | Inl e \<Rightarrow> payload r = [] \<and>
               (if is_std_exception e
                then exc = None \<and> is_error (code r) \<and>
                     code r = (case e of DecodeException _ \<Rightarrow> INVALID_RESPONSE
                                       | EncodeException _ \<Rightarrow> INVALID_REQUEST | _ \<Rightarrow> SERVICE_FAIL)
                else exc = Some e)))"
proof (cases "map_of (handlers m) nm")
  case None
  then show ?thesis by (simp add: handleRequest_def Response_default_def)
next
  case (Some h)
  obtain x s' where h: "h view s = (x, s')" by fastforce
  show ?thesis
  proof (cases x)
    case (Inl e)
    with Some h show ?thesis
      by (cases e) (simp_all add: handleRequest_def Response_default_def is_error_def status_defs)
  next
    case (Inr b)
    with Some h show ?thesis by (simp add: handleRequest_def Response_default_def)
  qed
qed

text \<open>
  A polling pass in which no socket call fails sends either nothing or one complete reply of two
  frames, a status and a payload. It sends nothing exactly when nothing arrived in time, when the
  request has no payload frame or its payload does not arrive, or when the handler throws
  something that is no standard exception; in particular a request of a single frame is
  consumed and never answered.
\<close>

lemma service_poll_replies:
  assumes "\<forall>e. recv1 \<noteq> FrameThrew e" and "\<forall>e. recv2 \<noteq> FrameThrew e"
  shows "case service_pollOnce m recv1 recv2 None None s of (exc, out, s') \<Rightarrow>
     ((\<exists>st b. out = [(bytes_of_string st, True), (b, False)] \<and> exc = None) \<or> out = []) \<and>
     (out \<noteq> [] \<longleftrightarrow> (\<exists>nb pb more2. recv1 = Frame nb True \<and> recv2 = Frame pb more2 \<and>
        fst (handleRequest m (string_of_bytes (header_spec (bv_bytes (view_of nb)))) (view_of pb)
               Response_default s) = None)) \<and>
     (\<forall>nb. recv1 = Frame nb False \<longrightarrow> exc = None \<and> out = [] \<and> s' = s)"
proof (cases recv1)
  case (Frame nb has_more)
  note f1 = this
  have nm: "decodeServiceHeader (view_of nb) = Some (string_of_bytes (header_spec (bv_bytes (view_of nb))))"
    by (simp add: decodeServiceHeader_eq)
  show ?thesis
  proof (cases recv2)
    case (Frame pb more2)
    with f1 nm show ?thesis
      by (auto simp: service_pollOnce_def send_reply_def split: prod.splits option.splits)
  qed (use f1 nm assms in \<open>auto simp: service_pollOnce_def\<close>)
qed (use assms in \<open>auto simp: service_pollOnce_def\<close>)

lemma service_poll_replies_witness:
  "service_pollOnce \<lparr>handlers = [], sm_service_port = 1\<rparr> (Frame [101] False) NoFrame None None () = (None, [], ())"
  using service_poll_replies [of "Frame [101] False" NoFrame "\<lparr>handlers = [], sm_service_port = 1\<rparr>" "()"]
  by (auto split: prod.splits)

text \<open>
  Over one pass of the loop a registered function is what its callers see: a request that
  decodes to \<open>q\<close> is answered with SUCCESS and the encoding of the function's value, registering
  again replaces the function, and after \<^verbatim>\<open>removeHandler\<close> the same request is answered
  with NOSERVICE and an empty payload. Names must have at most 1024 bytes and no NUL.
\<close>

lemma registered_service_answers:
  assumes "length nm \<le> 1024" and "CHR 0x00 \<notin> set nm"
    and "dec (view_of pb) = Inr q" and "func q s = (Inr x, s')" and "enc x = Inr b"
  shows "service_pollOnce (registerHandler dec enc nm func (registerHandler dec' enc' nm func' m))
           (Frame (bytes_of_string nm) True) (Frame pb has_more) None None s =
         (None, [(bytes_of_string SUCCESS, True), (b, False)], s') \<and>
       service_pollOnce (removeHandler nm (registerHandler dec enc nm func m))
           (Frame (bytes_of_string nm) True) (Frame pb has_more) None None s =
         (None, [(bytes_of_string NOSERVICE, True), ([], False)], s)"
proof -
  note nm = service_name_arrives [OF assms(1,2)]
  let ?m = "registerHandler dec enc nm func (registerHandler dec' enc' nm func' m)"
  let ?d = "removeHandler nm (registerHandler dec enc nm func m)"
  have "map_of (handlers ?m) nm = Some (typed_handler dec enc func)"
    by (simp add: registerHandler_lookup)
  then have h: "handleRequest ?m nm (view_of pb) Response_default s =
      (None, Response_default\<lparr>code := SUCCESS, payload := b\<rparr>, s')"
    using assms(3-5) by (rule handleRequest_typed)
  have "map_of (handlers ?d) nm = None" by (simp add: tab.look_del)
  then have n: "handleRequest ?d nm (view_of pb) Response_default s =
      (None, Response_default\<lparr>code := NOSERVICE\<rparr>, s)"
    by (simp add: handleRequest_def)
  show ?thesis using service_pollOnce_request [OF nm h] service_pollOnce_request [OF nm n]
    by (simp add: Response_default_def)
qed

lemma registered_service_answers_witness:
  "service_pollOnce (removeHandler ''e'' (registerHandler (\<lambda>v. Inr (bv_bytes v)) Inr ''e'' (\<lambda>q s. (Inr q, Suc s))
      \<lparr>handlers = [], sm_service_port = 1\<rparr>)) (Frame (bytes_of_string ''e'') True) (Frame [7] False) None None 0 =
     (None, [(bytes_of_string NOSERVICE, True), ([], False)], (0 :: nat))"
  using registered_service_answers [of "''e''" "\<lambda>v. Inr (bv_bytes v)" "[7]" "[7]" "\<lambda>q s. (Inr q, Suc s)" 0 "[7]" 1
      Inr "[7]" "\<lambda>v. Inr (bv_bytes v)" Inr "\<lambda>q s. (Inr q, s)" "\<lparr>handlers = [], sm_service_port = 1\<rparr>" False]
  by simp

end
