(* ===== verification/Client.thy ===== *)
theory Client
  imports Service_Manager
begin

text \<open>
  \<^verbatim>\<open>sockets/client.hpp\<close> and \<^verbatim>\<open>.cpp\<close>: a blocking service request over a
  fresh REQ socket. The socket is an argument, a record of what its calls answer: \<open>req_recv\<close>
  gives the two frames received for the request frames sent to a URL.
\<close>

section \<open>The socket and the request\<close>

record req_socket =
  req_create :: "exn option"
  req_connect :: "string \<Rightarrow> exn option"
  req_send1 :: "exn option"
  req_send2 :: "exn option"
  req_recv :: "string \<Rightarrow> bytes \<Rightarrow> bytes \<Rightarrow> frame_result \<times> frame_result"

definition sendRequest :: "exn option \<Rightarrow> exn option \<Rightarrow> string \<Rightarrow> ByteView \<Rightarrow> exn option \<times> sent list" where
  "sendRequest send1 send2 service_name view =
     (case send1 of
        Some e \<Rightarrow> (Some e, [])
      | None \<Rightarrow>
          (case send2 of
             Some e \<Rightarrow> (Some e, [(bytes_of_string service_name, True)])
           | None \<Rightarrow> (None, [(bytes_of_string service_name, True), (bv_bytes view, False)])))"

text \<open>
  The status frame is read and dropped; the result is the content of \<^verbatim>\<open>payloadMsg\<close>, which
  stays empty on every early return.
\<close>

definition receiveResponse :: "frame_result \<Rightarrow> frame_result \<Rightarrow> exn option \<times> bytes" where
  "receiveResponse recv1 recv2 =
     (case recv1 of
        NoFrame \<Rightarrow> (None, [])
      | FrameThrew e \<Rightarrow> (Some e, [])
      | Frame statusMsg has_more \<Rightarrow>
          if \<not> has_more then (None, [])
          else (case recv2 of
                  NoFrame \<Rightarrow> (None, [])
                | FrameThrew e \<Rightarrow> (Some e, [])
                | Frame payloadMsg has_more2 \<Rightarrow> (None, payloadMsg)))"

text \<open>\<open>Inr\<close> is the response object after the call, \<open>Inl\<close> the exception that leaves it.\<close>

definition zlcRequest_url ::
  "req_socket \<Rightarrow> ('q \<Rightarrow> bytes result) \<Rightarrow> (ByteView \<Rightarrow> 'r \<Rightarrow> 'r result) \<Rightarrow> string \<Rightarrow> string \<Rightarrow> 'q \<Rightarrow> 'r
     \<Rightarrow> 'r result" where
  "zlcRequest_url sock enc dec service_name service_url request response =
     (case req_create sock of
        Some e \<Rightarrow> Inl e
      | None \<Rightarrow>
          (case req_connect sock service_url of
             Some e \<Rightarrow> Inl e
           | None \<Rightarrow>
               ebind (enc request) (\<lambda>out.
                 case sendRequest (req_send1 sock) (req_send2 sock) service_name (view_of out) of
                   (Some e, frames) \<Rightarrow> Inl e
                 | (None, frames) \<Rightarrow>
                     (case req_recv sock service_url (fst (frames ! 0)) (fst (frames ! 1)) of
                        (recv1, recv2) \<Rightarrow>
                          (case receiveResponse recv1 recv2 of
                             (Some e, payloadMsg) \<Rightarrow> Inl e
                           | (None, payloadMsg) \<Rightarrow>
                               if bv_size (view_of payloadMsg) \<noteq> 0 then dec (view_of payloadMsg) response
                               else Inr response)))))"

text \<open>
  The request by name: the pointer the registry returns is read after its lock is released, in
  the state \<open>nim'\<close> the registry has by then.
\<close>

definition zlcRequest ::
  "(NodeInfo hash_map \<Rightarrow> NodeInfo hash_map) \<Rightarrow> 'w NodeInfoManager \<Rightarrow> 'w NodeInfoManager \<Rightarrow> req_socket
     \<Rightarrow> ('q \<Rightarrow> bytes result) \<Rightarrow> (ByteView \<Rightarrow> 'r \<Rightarrow> 'r result) \<Rightarrow> string \<Rightarrow> 'q \<Rightarrow> 'r \<Rightarrow> 'r result" where
  "zlcRequest iter nim nim' sock enc dec service_name request response =
     (case getServiceInfo iter service_name nim of
        None \<Rightarrow> Inr response
      | Some p \<Rightarrow>
          (case deref_socket nim' p of
             None \<Rightarrow> Inl MemoryError
           | Some serviceInfo \<Rightarrow>
               zlcRequest_url sock enc dec service_name
                 (''tcp://'' @ si_ip serviceInfo @ '':'' @ dec_of_nat (unat (si_port serviceInfo)))
                 request response))"

section \<open>A connected socket\<close>

text \<open>
  What REQ and REP sockets guarantee: no call of the socket throws, and when the server's pass
  over the two request frames sends a reply, the client receives its two frames.
\<close>

definition connected :: "req_socket \<Rightarrow> string \<Rightarrow> 's ServiceManager \<Rightarrow> 's \<Rightarrow> bool" where
  "connected sock url m s \<longleftrightarrow>
     req_create sock = None \<and> req_connect sock url = None \<and> req_send1 sock = None \<and> req_send2 sock = None \<and>
     (\<forall>nb pb st b. fst (snd (service_pollOnce m (Frame nb True) (Frame pb False) None None s)) =
          [(st, True), (b, False)] \<longrightarrow>
        req_recv sock url nb pb = (Frame st True, Frame b False))"

text \<open>The call when a reply arrives: only the payload decides.\<close>

lemma zlcRequest_url_reply:
  assumes "connected sock url m s" and "enc q = Inr out" and "length out < 2 ^ 64"
    and "service_pollOnce m (Frame (bytes_of_string nm) True) (Frame out False) None None s =
           (exc, [(st, True), (b, False)], s')"
  shows "zlcRequest_url sock enc dec nm url q r =
     (if bv_size (view_of b) \<noteq> 0 then dec (view_of b) r else Inr r)"
  using assms by (simp add: zlcRequest_url_def connected_def sendRequest_def receiveResponse_def)

lemma rpc_serializer:
  assumes "serializer encq decq okq" and "serializer encr decr okr"
    and "okq q" and "okr x" and "length nm \<le> 1024" and "CHR 0x00 \<notin> set nm"
    and "map_of (handlers m) nm = Some (typed_handler (\<lambda>v. decq v q0) encr func)"
    and "func q s = (Inr x, s')" and "connected sock url m s"
  shows "zlcRequest_url sock encq decr nm url q r = Inr x"
proof -
  obtain out where out: "encq q = Inr out" "length out < 2 ^ 64" "decq (view_of out) q0 = Inr q"
    using serializer.enc_dec [OF assms(1,3), of q0] by blast
  obtain b where b: "encr x = Inr b" "b \<noteq> []" "length b < 2 ^ 64" "decr (view_of b) r = Inr x"
    using serializer.enc_dec [OF assms(2,4), of r] by blast
  have "handleRequest m nm (view_of out) Response_default s =
      (None, Response_default\<lparr>code := SUCCESS, payload := b\<rparr>, s')"
    using assms(7) out(3) assms(8) b(1) by (rule handleRequest_typed)
  note reply = service_pollOnce_request [OF service_name_arrives [OF assms(5,6)] this, of False]
  show ?thesis
    using zlcRequest_url_reply [of sock url m s encq q, OF assms(9) out(1,2) reply, of decr r] b
    by (simp add: bv_size_view_of)
qed

lemmas rpc_result = rpc_serializer [OF msgpack_type.is_serializer msgpack_type.is_serializer]

lemma rpc_error_reply:
  assumes "connected sock url m s" and "enc q = Inr out" and "length out < 2 ^ 64"
    and "length nm \<le> 1024" and "CHR 0x00 \<notin> set nm"
    and "case map_of (handlers m) nm of
           None \<Rightarrow> True
         | Some h \<Rightarrow> (\<exists>e. fst (h (view_of out) s) = Inl e \<and> is_std_exception e)"
  shows "zlcRequest_url sock enc dec nm url q r = Inr r"
proof -
  have "\<exists>st s'. handleRequest m nm (view_of out) Response_default s = (None, \<lparr>code = st, payload = []\<rparr>, s')"
  proof (cases "map_of (handlers m) nm")
    case None
    then show ?thesis by (simp add: handleRequest_def Response_default_def)
  next
    case (Some h)
    with assms(6) obtain e s' where "h (view_of out) s = (Inl e, s')" "is_std_exception e"
      by (cases "h (view_of out) s") auto
    with Some status_of_exn_None [of e] show ?thesis
      by (auto simp: handleRequest_def Response_default_def)
  qed
  then obtain st s' where
    "handleRequest m nm (view_of out) Response_default s = (None, \<lparr>code = st, payload = []\<rparr>, s')" by blast
  note reply = service_pollOnce_request [OF service_name_arrives [OF assms(4,5)] this, of False]
  show ?thesis
    using zlcRequest_url_reply [of sock url m s enc q, OF assms(1-3) reply] by (simp add: bv_size_view_of)
qed

section \<open>Properties\<close>

text \<open>
  C3: An RPC over a connected socket returns what the registered function computes: for message
  types that msgpack round-trips and a service name of at most 1024 bytes without NUL, the
  response object of the caller is the value of the function on the caller's request, whatever
  the response object held before.
\<close>

theorem rpc_end_to_end:
  assumes "msgpack_type packq unpackq convertq okq" and "msgpack_type packr unpackr convertr okr"
    and "okq q" and "okr x" and "length nm \<le> 1024" and "CHR 0x00 \<notin> set nm"
    and "map_of (handlers m) nm =
           Some (typed_handler (\<lambda>v. decode unpackq convertq v q0) (encode_bytes (\<lambda>_. True) packr) func)"
    and "func q s = (Inr x, s')" and "connected sock url m s"
  shows "zlcRequest_url sock (encode_bytes (\<lambda>_. True) packq) (decode unpackr convertr) nm url q r = Inr x"
  using assms by (rule rpc_result)

text \<open>A server that offers the nil message, and a socket connected to it.\<close>

definition nil_server :: "nat ServiceManager" where
  "nil_server = registerHandler (\<lambda>v. decode unpack_nil_only (convert_Empty (\<lambda>_. True)) v Empty)
     (encode_bytes (\<lambda>_. True) (pack_Empty [[0xC0]])) ''ping'' (\<lambda>_ n. (Inr Empty, Suc n))
     \<lparr>handlers = [], sm_service_port = 4000\<rparr>"

definition socket_to :: "'s ServiceManager \<Rightarrow> 's \<Rightarrow> req_socket" where
  "socket_to m s = \<lparr>req_create = None, req_connect = (\<lambda>_. None), req_send1 = None, req_send2 = None,
     req_recv = (\<lambda>_ nb pb. case fst (snd (service_pollOnce m (Frame nb True) (Frame pb False) None None s)) of
       [(st, _), (b, _)] \<Rightarrow> (Frame st True, Frame b False) | _ \<Rightarrow> (NoFrame, NoFrame))\<rparr>"

lemma connected_socket_to: "connected (socket_to m s) url m s"
  by (simp add: connected_def socket_to_def)

theorem rpc_end_to_end_witness:
  "zlcRequest_url (socket_to nil_server 0) (encode_bytes (\<lambda>_. True) (pack_Empty [[0xC0]]))
     (decode unpack_nil_only (convert_Empty (\<lambda>_. True))) ''ping'' ''tcp://10.0.0.7:4000'' Empty Empty = Inr Empty"
  by (rule rpc_end_to_end [OF empty_msg.msgpack_type_axioms empty_msg.msgpack_type_axioms, where m = nil_server
        and func = "\<lambda>_ n. (Inr Empty, Suc n)" and s = 0 and s' = 1 and ?q0.0 = Empty])
    (simp_all add: nil_server_def registerHandler_lookup connected_socket_to)

text \<open>
  C32: The caller of a service cannot see that the server reported an error: the status is dropped
  and the empty payload of an error reply leaves the response object untouched without an
  exception. So a call of an unknown service, one whose handler throws a standard exception, and
  one for a name nobody announces all return normally with the response object as it was. An
  exception that is not a standard one is not reported either: no frame is sent, so there is
  nothing for the caller to return with.
\<close>

theorem rpc_errors_invisible:
  assumes "connected sock url m s" and "enc q = Inr out" and "length out < 2 ^ 64"
    and "length nm \<le> 1024" and "CHR 0x00 \<notin> set nm"
  shows "((case map_of (handlers m) nm of
            None \<Rightarrow> True
          | Some h \<Rightarrow> (\<exists>e. fst (h (view_of out) s) = Inl e \<and> is_std_exception e)) \<longrightarrow>
        zlcRequest_url sock enc dec nm url q r = Inr r) \<and>
     (getServiceInfo iter nm nim = None \<longrightarrow> zlcRequest iter nim nim' sock enc dec nm q r = Inr r) \<and>
     (\<forall>h e. map_of (handlers m) nm = Some h \<and> fst (h (view_of out) s) = Inl e \<and> \<not> is_std_exception e \<longrightarrow>
        fst (snd (service_pollOnce m (Frame (bytes_of_string nm) True) (Frame out False) None None s)) = [])"
proof (intro conjI impI allI)
  fix h e
  assume h: "map_of (handlers m) nm = Some h \<and> fst (h (view_of out) s) = Inl e \<and> \<not> is_std_exception e"
  then have "status_of_exn e = None" by (simp add: status_of_exn_None)
  with h obtain r' s' where "handleRequest m nm (view_of out) Response_default s = (Some e, r', s')"
    by (cases "h (view_of out) s") (auto simp: handleRequest_def)
  then show "fst (snd (service_pollOnce m (Frame (bytes_of_string nm) True) (Frame out False) None None s)) = []"
    by (simp add: service_pollOnce_def service_name_arrives [OF assms(4,5)])
qed (use rpc_error_reply [of sock url m s enc q, OF assms] in \<open>simp_all add: zlcRequest_def\<close>)

theorem rpc_errors_invisible_witness:
  "zlcRequest_url (socket_to nil_server 0) (\<lambda>_. Inr [0xC1]) (\<lambda>_ _. Inr 5) ''pong'' ''url'' () (0 :: nat) = Inr 0"
proof -
  have "map_of (handlers nil_server) ''pong'' = None"
    by (simp add: nil_server_def registerHandler_lookup)
  then show ?thesis
    using rpc_errors_invisible [of "socket_to nil_server 0" "''url''" nil_server 0 "\<lambda>_. Inr [0xC1]" "()" "[0xC1]"
        "''pong''" "\<lambda>_ _. Inr 5" "0 :: nat" rev nim_example nim_example] connected_socket_to [of nil_server 0 "''url''"] by simp
qed

text \<open>
  A request by name goes to the announced endpoint of a service of that name when the registry
  still holds its description at the time the pointer is read; if the node was removed in
  between, the read is outside live memory.
\<close>

lemma request_by_name:
  assumes "iter_order iter" and "nim_inv nim" and "getServiceInfo iter nm nim = Some p"
  shows "(\<exists>t. deref_socket nim p = Some t \<and> si_name t = nm \<and>
            zlcRequest iter nim nim sock enc dec nm q r = zlcRequest_url sock enc dec nm (socket_url t) q r) \<and>
     (\<forall>k i. p = RemoteSocket k i \<longrightarrow>
        zlcRequest iter nim (removeNode k nim) sock enc dec nm q r = Inl MemoryError)"
proof -
  have "hm_ok (nodes_info nim)" using assms(2) by (simp add: nim_inv_def)
  from getServiceInfo_deref [OF assms(1) this assms(3)] obtain t where
    "deref_socket nim p = Some t" "si_name t = nm" by blast
  with assms(3) show ?thesis
    by (auto simp: zlcRequest_def socket_url_def tcp_url_def dir.look_del [OF assms(2)])
qed

lemma request_by_name_witness:
  "zlcRequest rev nim_with_service (removeNode ''remote'' nim_with_service) (socket_to nil_server 0)
     (\<lambda>_. Inr [0xC1]) (\<lambda>_ _. Inr 5) ''Echo'' () (0 :: nat) = Inl MemoryError"
proof -
  have inv: "nim_inv nim_with_service"
    unfolding nim_with_service_def nim_example_def by (intro inv_intros)
  have "getServiceInfo rev ''Echo'' nim_with_service = Some (RemoteSocket ''remote'' 0)"
    by (simp add: getServiceInfo_def nim_with_service_def nim_example_def NodeInfoManager_ctor_def
        updateNodeUnlocked_def NodeInfo_default_def)
  from request_by_name [OF iter_order_rev inv this, of "socket_to nil_server 0" "\<lambda>_. Inr [0xC1]"
      "\<lambda>_ _. Inr 5" "()" "0 :: nat"] show ?thesis by simp
qed

end
