(* ===== verification/Discovery.thy ===== *)
theory Discovery
  imports Multicast Client
begin

text \<open>
  Two nodes on one network: the heartbeat of one, the \<^verbatim>\<open>get_node_info\<close> request of the other
  and the links its subscribers get. The request the registry makes is the client's, answered by
  the other node's service manager.
\<close>

section \<open>The get\_node\_info service and the request for it\<close>

text \<open>The world of this handler is the registry it reads.\<close>

definition registerGetNodeInfoService ::
  "(ByteView \<Rightarrow> Empty result) \<Rightarrow> (NodeInfo \<Rightarrow> bytes result) \<Rightarrow> 'w NodeInfoManager ServiceManager
     \<Rightarrow> 'w NodeInfoManager ServiceManager" where
  "registerGetNodeInfoService dec enc m =
     registerHandler dec enc ''get_node_info'' (\<lambda>_ nim. (Inr (getLocalNodeInfo nim), nim)) m"

text \<open>\<^verbatim>\<open>Client::zlcRequest<Empty, NodeInfo>\<close> with a local \<^verbatim>\<open>NodeInfo\<close> whose version is indeterminate.\<close>

definition node_info_request ::
  "u32 \<Rightarrow> req_socket \<Rightarrow> (Empty \<Rightarrow> bytes result) \<Rightarrow> (ByteView \<Rightarrow> NodeInfo \<Rightarrow> NodeInfo result) \<Rightarrow> string \<Rightarrow> string
     \<Rightarrow> NodeInfo result" where
  "node_info_request u sock enc dec nm url = zlcRequest_url sock enc dec nm url Empty (NodeInfo_uninit u)"

section \<open>The receiving side\<close>

lemma checkHeartbeats_quiet:
  assumes "iter_order iter" and "\<And>k t. map_of (nodes_heartbeat s) k = Some t \<Longrightarrow> \<not> expired now t"
    and "hm_ok (nodes_heartbeat s)"
  shows "checkHeartbeats iter now s w = (None, s, w)"
proof -
  have "set (to_remove iter now s) = {}" using assms by (auto simp: to_remove_set)
  then show ?thesis by (simp add: checkHeartbeats_def)
qed

text \<open>
  A heartbeat of an unknown version whose description is fetched, when no other node is silent.
\<close>

lemma receive_fetches:
  assumes inv: "nim_inv nim" and iter: "iter_order iter"
    and enc: "hb_encode e' m = Inr data"
    and "node_id m \<noteq> nim_nodeID nim" and "group_name m = mr_groupName r" and "length (group_name m) \<le> 968"
    and "isInSameSubnet e aton (mr_localIP r) ip DEFAULT_SUBNET_MASK"
    and new: "map_option infoID (map_of (nodes_info nim) (node_id m)) \<noteq> Some (info_id m)"
    and req: "request ''get_node_info'' (tcp_url_i32 ip (service_port m)) = Inr info"
    and upd: "trigger (node_update_event nim) info w = (None, w')"
    and quiet: "\<forall>k t. ((map_of (nodes_heartbeat nim))(node_id m \<mapsto> now2)) k = Some t \<longrightarrow> \<not> expired now3 t"
  shows "receive_once e aton request iter now1 now2 now3 r (Some (data, ip)) nim w =
     (None, updateNodeUnlocked now2 (node_id m) info (touched now1 m nim), w')"
proof -
  let ?s = "updateNodeUnlocked now2 (node_id m) info (touched now1 m nim)"
  have adm: "admitted e aton r nim data ip" using assms by (simp add: admitted_heartbeat [OF enc])
  have v: "hb_valid m" "data = hb_layout m" using enc by (simp_all add: hb_encode_Inr_iff)
  have m: "hb_parse (take recv_buf_size data) = m"
    using hb_parse_take_layout [OF v(1)] assms(6) v(2) by simp
  have "processHeartbeat request now1 now2 m ip nim w = (None, ?s, w')"
    using processHeartbeat_stale [OF inv new, of request now1 now2 ip w] req upd
    by (simp add: fetchNodeInfo_def)
  moreover have "nim_inv ?s" using inv by (intro nim_inv_updateNode nim_inv_touched)
  then have "hm_ok (nodes_heartbeat ?s)" by (simp add: nim_inv_def)
  then have "checkHeartbeats iter now3 ?s w' = (None, ?s, w')"
    using quiet iter by (intro checkHeartbeats_quiet) (auto simp: updateNodeUnlocked_def split: if_splits)
  ultimately show ?thesis using adm m by (simp add: receive_once_eq)
qed

section \<open>The sending side\<close>

lemma heartbeat_of_node:
  assumes "nim_inv nim"
  shows "\<exists>b. heartbeat_tick e nim [] = (None, [b]) \<and> hb_encode e (createHeartbeat nim) = Inr b"
  using hb_encode_valid [OF createHeartbeat_valid [OF assms]]
  by (simp add: heartbeat_tick_def sendHeartbeat_def)

lemma get_node_info_answer:
  assumes "msgpack_type packE unpackE convertE okE" and "msgpack_type packN unpackN convertN okN"
    and "okE Empty" and "okN (localNodeInfo nim)"
    and "connected sock url (registerGetNodeInfoService (\<lambda>v. decode unpackE convertE v Empty)
           (encode_bytes (\<lambda>_. True) packN) m) nim"
  shows "node_info_request u sock (encode_bytes (\<lambda>_. True) packE) (decode unpackN convertN) ''get_node_info'' url =
     Inr (localNodeInfo nim)"
proof -
  let ?func = "\<lambda>_ nim. (Inr (getLocalNodeInfo nim), nim)"
  let ?m = "registerGetNodeInfoService (\<lambda>v. decode unpackE convertE v Empty) (encode_bytes (\<lambda>_. True) packN) m"
  have "map_of (handlers ?m) ''get_node_info'' =
      Some (typed_handler (\<lambda>v. decode unpackE convertE v Empty) (encode_bytes (\<lambda>_. True) packN) ?func)"
    by (simp add: registerGetNodeInfoService_def registerHandler_lookup)
  from rpc_result [OF assms(1-4) _ _ this _ assms(5), of nim "NodeInfo_uninit u"] show ?thesis
    by (simp add: node_info_request_def getLocalNodeInfo_def)
qed

lemma get_node_info_missing:
  assumes "connected sock url m s" and "enc Empty = Inr out" and "length out < 2 ^ 64"
    and "map_of (handlers m) ''get_node_info'' = None"
  shows "node_info_request u sock enc dec ''get_node_info'' url = Inr (NodeInfo_uninit u)"
  using rpc_error_reply [of sock url m s enc Empty out "''get_node_info''" dec "NodeInfo_uninit u"] assms
  by (simp add: node_info_request_def)

section \<open>Properties\<close>

text \<open>
  C1: Discovery end to end: when a node with a new or changed description sends its heartbeat, a
  node of the same group and subnet that receives it fetches the description through the
  sender's get\_node\_info service, stores exactly that description under the sender's id, and
  every subscriber is linked to every endpoint the sender announces for its topic; nothing else
  in the registry changes when no other node is silent.
\<close>

theorem discovery_end_to_end:
  assumes nodes: "nim_inv nimA" "nim_inv nimB" "nim_nodeID nimB \<noteq> nim_nodeID nimA"
    and net: "groupName nimB = mr_groupName r" "length (groupName nimB) \<le> 968"
      "isInSameSubnet e aton (mr_localIP r) ip DEFAULT_SUBNET_MASK" "iter_order iter"
    and msg: "msgpack_type packE unpackE convertE okE" "msgpack_type packN unpackN convertN okN"
      "okE Empty" "okN (localNodeInfo nimB)"
    and link: "connected sock (tcp_url_i32 ip (servicePort nimB))
      (registerGetNodeInfoService (\<lambda>v. decode unpackE convertE v Empty) (encode_bytes (\<lambda>_. True) packN) mB) nimB"
    and new: "map_option infoID (map_of (nodes_info nimA) (nim_nodeID nimB)) \<noteq> Some (infoID (localNodeInfo nimB))"
    and quiet: "\<forall>k t. ((map_of (nodes_heartbeat nimA))(nim_nodeID nimB \<mapsto> now2)) k = Some t \<longrightarrow> \<not> expired now3 t"
    and sub: "node_update_event nimA = subscribe (updateTopicSubscriber zmq) event_empty"
      "updateTopicSubscriber zmq (localNodeInfo nimB) w = (None, w')"
  shows "\<exists>b nimA'. heartbeat_tick e' nimB [] = (None, [b]) \<and>
     receive_once e aton (node_info_request u sock (encode_bytes (\<lambda>_. True) packE) (decode unpackN convertN)) iter
       now1 now2 now3 r (Some (b, ip)) nimA w = (None, nimA', w') \<and>
     map_of (nodes_info nimA') = (map_of (nodes_info nimA))(nim_nodeID nimB \<mapsto> localNodeInfo nimB) \<and>
     (\<forall>(nm, us) \<in> set (links w'). \<forall>t \<in> set (topics (localNodeInfo nimB)).
        si_name t = nm \<longrightarrow> socket_url t \<in> set us)"
proof -
  let ?m = "createHeartbeat nimB"
  let ?request = "node_info_request u sock (encode_bytes (\<lambda>_. True) packE) (decode unpackN convertN)"
  obtain b where b: "heartbeat_tick e' nimB [] = (None, [b])" "hb_encode e' ?m = Inr b"
    using heartbeat_of_node [OF nodes(2)] by blast
  have f: "node_id ?m = nim_nodeID nimB" "group_name ?m = groupName nimB" "service_port ?m = servicePort nimB"
    "info_id ?m = infoID (localNodeInfo nimB)"
    by (simp_all add: createHeartbeat_def nim_nodeID_def)
  have req: "?request ''get_node_info'' (tcp_url_i32 ip (service_port ?m)) = Inr (localNodeInfo nimB)"
    using get_node_info_answer [OF msg link] f(3) by simp
  have upd: "trigger (node_update_event nimA) (localNodeInfo nimB) w = (None, w')"
    using sub by simp
  have rec: "receive_once e aton ?request iter now1 now2 now3 r (Some (b, ip)) nimA w =
      (None, updateNodeUnlocked now2 (nim_nodeID nimB) (localNodeInfo nimB) (touched now1 ?m nimA), w')"
    using receive_fetches [where request = ?request, OF nodes(1) net(4) b(2) _ _ _ net(3) _ req upd]
      nodes net new quiet f by simp
  have "\<forall>(nm, us) \<in> set (links w'). \<forall>t \<in> set (topics (localNodeInfo nimB)).
      si_name t = nm \<longrightarrow> socket_url t \<in> set us"
    using follow.update_links [of zmq "localNodeInfo nimB" w] sub(2) by auto
  moreover have "map_of (nodes_info (updateNodeUnlocked now2 (nim_nodeID nimB) (localNodeInfo nimB) (touched now1 ?m nimA))) =
      (map_of (nodes_info nimA))(nim_nodeID nimB \<mapsto> localNodeInfo nimB)"
    using dir.look_put [OF nim_inv_touched [OF nodes(1)]] by simp
  ultimately show ?thesis using b(1) rec by blast
qed

text \<open>Two nodes: the receiver follows one topic, the sender announces a publisher of it.\<close>

definition node_A :: "unit SubscriberManager NodeInfoManager" where
  "node_A = SubscriberManager_ctor (\<lambda>_ _. None) (NodeInfoManager_ctor (\<lambda>_. 0) ''a'' ''10.0.0.1'')"

definition node_B :: "unit NodeInfoManager" where
  "node_B = setGroupName ''grp'' (setServicePort 4000
     (registerLocalTopic ''t'' 9 (NodeInfoManager_ctor (\<lambda>_. 1) ''b'' ''10.0.0.7'')))"

text \<open>A message type with one value.\<close>

definition one_value :: "'a \<Rightarrow> 'a packer" where
  "one_value v x = ([[1]], None)"

lemma one_value_msgpack: "msgpack_type (one_value v) (\<lambda>_. Inr ()) (\<lambda>_ _. Inr v) (\<lambda>x. x = v)"
  by unfold_locales (simp add: one_value_def)

definition server_B :: "unit NodeInfoManager ServiceManager" where
  "server_B = registerGetNodeInfoService (\<lambda>v. decode unpack_nil_only (convert_Empty (\<lambda>_. True)) v Empty)
     (encode_bytes (\<lambda>_. True) (one_value (localNodeInfo node_B))) \<lparr>handlers = [], sm_service_port = 4000\<rparr>"

lemma nodes_AB:
  "nim_inv node_A" "nim_inv node_B" "nim_nodeID node_B \<noteq> nim_nodeID node_A"
  "node_update_event node_A = subscribe (updateTopicSubscriber (\<lambda>_ _. None)) event_empty"
  "nodes_info node_A = []" "nodes_heartbeat node_A = []" "groupName node_B = ''grp''"
  "topics (localNodeInfo node_B) = [\<lparr>si_name = ''t'', si_ip = ''10.0.0.7'', si_port = 9\<rparr>]"
proof -
  show "nim_inv node_A" unfolding node_A_def SubscriberManager_ctor_def
    by (intro nim_inv_SubscriberManager_ctor [unfolded SubscriberManager_ctor_def] nim_inv_ctor)
  show "nim_inv node_B" unfolding node_B_def by (intro inv_intros)
  have "generateUUID (\<lambda>_. 1) \<noteq> generateUUID (\<lambda>_. 0)" by code_simp
  then show "nim_nodeID node_B \<noteq> nim_nodeID node_A"
    by (simp add: node_A_def node_B_def nim_nodeID_def SubscriberManager_ctor_def NodeInfoManager_ctor_def
        setGroupName_def setServicePort_def registerLocalTopic_def)
qed (simp_all add: node_A_def node_B_def SubscriberManager_ctor_def NodeInfoManager_ctor_def
    setGroupName_def setServicePort_def registerLocalTopic_def)

theorem discovery_end_to_end_witness:
  "\<exists>b nimA' w'. heartbeat_tick BigEndian node_B [] = (None, [b]) \<and>
     receive_once LittleEndian (\<lambda>_. Some 0)
       (node_info_request 7 (socket_to server_B node_B) (encode_bytes (\<lambda>_. True) (pack_Empty [[0xC0]]))
          (decode (\<lambda>_. Inr ()) (\<lambda>_ _. Inr (localNodeInfo node_B)))) rev 1 2 3 receiver_example
       (Some (b, ''10.0.0.7'')) node_A sm_example = (None, nimA', w') \<and>
     map_of (nodes_info nimA') = [nim_nodeID node_B \<mapsto> localNodeInfo node_B] \<and>
     (\<forall>(nm, us) \<in> set (links w'). nm = ''t'' \<longrightarrow> ''tcp://10.0.0.7:9'' \<in> set us)"
proof -
  let ?r = "updateTopicSubscriber (\<lambda>_ _. None) (localNodeInfo node_B) sm_example"
  have r: "?r = (None, snd ?r)" by (simp add: prod_eq_iff update_snd for_topics_never_throws)
  have url: "socket_url \<lparr>si_name = ''t'', si_ip = ''10.0.0.7'', si_port = 9\<rparr> = ''tcp://10.0.0.7:9''"
    by (simp add: socket_url_def tcp_url_def dec_eval)
  have net: "isInSameSubnet LittleEndian (\<lambda>_. Some 0) (mr_localIP receiver_example) ''10.0.0.7'' DEFAULT_SUBNET_MASK"
    "groupName node_B = mr_groupName receiver_example" "length (groupName node_B) \<le> 968"
    by (simp_all add: isInSameSubnet_def nodes_AB receiver_example_def MulticastReceiver_ctor_def)
  have quiet: "\<forall>k t. ((map_of (nodes_heartbeat node_A))(nim_nodeID node_B \<mapsto> 2)) k = Some t \<longrightarrow> \<not> expired 3 t"
    by (simp add: nodes_AB expired_def seconds_between_def)
  have new: "map_option infoID (map_of (nodes_info node_A) (nim_nodeID node_B)) \<noteq> Some (infoID (localNodeInfo node_B))"
    by (simp add: nodes_AB)
  have link: "connected (socket_to server_B node_B) url server_B node_B" for url
    by (rule connected_socket_to)
  note th = discovery_end_to_end [OF nodes_AB(1-3) net(2,3,1) iter_order_rev empty_msg.msgpack_type_axioms
      one_value_msgpack [of "localNodeInfo node_B"] TrueI refl link [unfolded server_B_def] new quiet nodes_AB(4) r,
      folded server_B_def, of BigEndian 7 1]
  from th obtain b nimA' where b: "heartbeat_tick BigEndian node_B [] = (None, [b])"
    and rec: "receive_once LittleEndian (\<lambda>_. Some 0)
       (node_info_request 7 (socket_to server_B node_B) (encode_bytes (\<lambda>_. True) (pack_Empty [[0xC0]]))
          (decode (\<lambda>_. Inr ()) (\<lambda>_ _. Inr (localNodeInfo node_B)))) rev 1 2 3 receiver_example
       (Some (b, ''10.0.0.7'')) node_A sm_example = (None, nimA', snd ?r)"
    and m: "map_of (nodes_info nimA') = (map_of (nodes_info node_A))(nim_nodeID node_B \<mapsto> localNodeInfo node_B)"
    and l: "\<forall>(nm, us) \<in> set (links (snd ?r)). \<forall>t \<in> set (topics (localNodeInfo node_B)).
        si_name t = nm \<longrightarrow> socket_url t \<in> set us"
    by blast
  from l have "\<forall>(nm, us) \<in> set (links (snd ?r)). nm = ''t'' \<longrightarrow> ''tcp://10.0.0.7:9'' \<in> set us"
    unfolding nodes_AB(8) url [symmetric] by fastforce
  with b rec m show ?thesis unfolding nodes_AB(5) map_of.simps by blast
qed

text \<open>
  C38: The registry cannot tell a description from an error: when the node that sent the heartbeat
  has no get\_node\_info handler, its error reply reaches the registry as the description of a
  node without name, address, topics and services, which is stored under the sender's id. Its
  version is the indeterminate value \<open>u\<close> of a variable nobody initialised: the node is asked again
  at its next heartbeat unless that value happens to be its version.
\<close>

theorem error_reply_is_stored:
  assumes "nim_inv nim" and "connected sock (tcp_url_i32 ip (service_port hb)) m s"
    and "map_of (handlers m) ''get_node_info'' = None" and "enc Empty = Inr out" and "length out < 2 ^ 64"
    and "map_option infoID (map_of (nodes_info nim) (node_id hb)) \<noteq> Some (info_id hb)"
  shows "case processHeartbeat (node_info_request u sock enc dec) now1 now2 hb ip nim w of (exc, nim', w') \<Rightarrow>
     map_of (nodes_info nim') (node_id hb) =
       Some \<lparr>nodeID = [], infoID = u, ni_name = [], ni_ip = [], topics = [], services = []\<rparr> \<and>
     map_of (nodes_info_id nim') (node_id hb) = Some u \<and>
     (checkNodeInfoIDUnlocked (node_id hb) (info_id hb) nim' \<longleftrightarrow> u = info_id hb)"
proof -
  have "node_info_request u sock enc dec ''get_node_info'' (tcp_url_i32 ip (service_port hb)) = Inr (NodeInfo_uninit u)"
    using get_node_info_missing [where enc = enc, OF assms(2,4,5,3)] by simp
  then show ?thesis
    using processHeartbeat_stale [OF assms(1,6), of "node_info_request u sock enc dec" now1 now2 ip w]
    by (auto simp: fetchNodeInfo_def updateNodeUnlocked_def NodeInfo_uninit_def NodeInfo_default_def
        checkNodeInfoIDUnlocked_def split: prod.splits)
qed

theorem error_reply_is_stored_witness:
  "case processHeartbeat (node_info_request 7 (socket_to nil_server 0) (\<lambda>_. Inr [0xC0]) (\<lambda>_ _. Inl BadAlloc)) 1 2
     hb_example ''10.0.0.7'' nim_example () of (exc, nim', w') \<Rightarrow>
     map_of (nodes_info_id nim') (node_id hb_example) = Some 7"
proof -
  have inv: "nim_inv nim_example" unfolding nim_example_def by (rule nim_inv_ctor)
  have "map_of (nodes_info nim_example) (node_id hb_example) = None"
    by (simp add: nim_example_def NodeInfoManager_ctor_def)
  moreover have "map_of (handlers nil_server) ''get_node_info'' = None"
    by (simp add: nil_server_def registerHandler_lookup)
  ultimately show ?thesis
    using error_reply_is_stored [OF inv connected_socket_to, where m = nil_server and s = 0 and hb = hb_example
        and enc = "\<lambda>_. Inr [0xC0]" and out = "[0xC0]" and ip = "''10.0.0.7''" and dec = "\<lambda>_ _. Inl BadAlloc"
        and ?now1.0 = 1 and ?now2.0 = 2 and w = "()" and u = 7]
    by (auto split: prod.splits)
qed

end
