(* ===== verification/Thread_Pool.thy ===== *)
theory Thread_Pool
  imports Prelude
begin

text \<open>
  \<^verbatim>\<open>utils/thread_pool.hpp\<close>: workers that take tasks from a queue. Every critical section
  of the code is one step, and a worker, a caller of \<^verbatim>\<open>enqueue\<close> and a caller of
  \<^verbatim>\<open>stop\<close> may be interrupted between two of them. A wait on a condition variable is a step
  that is enabled when its predicate holds. A task that throws ends like one that returns: the
  worker catches everything.
\<close>

section \<open>State\<close>

text \<open>
  Where a worker is: before its critical section, running a task outside the lock, after the
  task and before the counter is decremented, or out of its loop.
\<close>

datatype 't worker = Idle | Running 't | Ran 't | Exited

text \<open>
  Besides the members of the class: \<open>enqueuing\<close>, the tasks of callers that have passed the
  test of \<^verbatim>\<open>enqueue\<close> and not yet pushed; \<open>joining\<close>, a caller of \<^verbatim>\<open>stop\<close> before its
  joins are done; and the history: tasks pushed, started and ended, in that order, and those
  pushed when the pool was already stopped.
\<close>

record 't ThreadPool =
  num_threads :: nat
  is_running :: bool
  workers :: "'t worker list"
  tasks :: "'t list"
  active_tasks :: nat
  enqueuing :: "'t list"
  joining :: bool
  pushed :: "'t list"
  started :: "'t list"
  ended :: "'t list"
  late :: "'t list"

definition ThreadPool_ctor :: "nat \<Rightarrow> nat \<Rightarrow> 't ThreadPool" where
  "ThreadPool_ctor hardware_concurrency n =
     (let k = (if n > 0 then n else hardware_concurrency)
      in \<lparr>num_threads = (if k = 0 then 1 else k), is_running = False, workers = [], tasks = [],
          active_tasks = 0, enqueuing = [], joining = False, pushed = [], started = [], ended = [], late = []\<rparr>)"

section \<open>The callers\<close>

text \<open>
  \<^verbatim>\<open>workers_.clear()\<close> ends the program when a worker was not joined: \<open>None\<close>.
\<close>

definition pool_start :: "'t ThreadPool \<Rightarrow> 't ThreadPool option" where
  "pool_start p =
     (if is_running p then Some p
      else if workers p \<noteq> [] then None
      else Some (p\<lparr>is_running := True, workers := replicate (num_threads p) Idle\<rparr>))"

text \<open>\<^verbatim>\<open>stop\<close> up to the notification, and its end, when every worker has been joined.\<close>

definition stop_begin :: "'t ThreadPool \<Rightarrow> 't ThreadPool" where
  "stop_begin p = (if \<not> is_running p then p else p\<lparr>is_running := False, joining := True\<rparr>)"

definition stop_join :: "'t ThreadPool \<Rightarrow> 't ThreadPool" where
  "stop_join p = p\<lparr>workers := [], joining := False\<rparr>"

definition all_exited :: "'t ThreadPool \<Rightarrow> bool" where
  "all_exited p \<longleftrightarrow> (\<forall>x \<in> set (workers p). x = Exited)"

text \<open>\<^verbatim>\<open>enqueue\<close>: the unlocked test, then the push under the lock.\<close>

definition enqueue_test :: "'t \<Rightarrow> 't ThreadPool \<Rightarrow> 't ThreadPool" where
  "enqueue_test t p = (if \<not> is_running p then p else p\<lparr>enqueuing := enqueuing p @ [t]\<rparr>)"

definition enqueue_push :: "'t \<Rightarrow> 't ThreadPool \<Rightarrow> 't ThreadPool" where
  "enqueue_push t p =
     p\<lparr>enqueuing := remove1 t (enqueuing p), tasks := tasks p @ [t], pushed := pushed p @ [t],
       late := (if is_running p then late p else late p @ [t])\<rparr>"

text \<open>The destructor stops the pool.\<close>

definition ThreadPool_dtor :: "'t ThreadPool \<Rightarrow> 't ThreadPool" where
  "ThreadPool_dtor p = stop_begin p"

text \<open>The predicate \<^verbatim>\<open>wait\<close> blocks on.\<close>

definition wait_done :: "'t ThreadPool \<Rightarrow> bool" where
  "wait_done p \<longleftrightarrow> tasks p = [] \<and> active_tasks p = 0"

definition pool_size :: "'t ThreadPool \<Rightarrow> nat" where
  "pool_size p = num_threads p"

definition pending_tasks :: "'t ThreadPool \<Rightarrow> nat" where
  "pending_tasks p = length (tasks p)"

section \<open>The worker loop\<close>

text \<open>The critical section at the top of \<^verbatim>\<open>workerLoop\<close>; \<open>None\<close> while the predicate is false.\<close>

definition worker_section :: "nat \<Rightarrow> 't ThreadPool \<Rightarrow> 't ThreadPool option" where
  "worker_section i p =
     (if tasks p = [] \<and> is_running p then None
      else if \<not> is_running p \<and> tasks p = [] then Some (p\<lparr>workers := (workers p)[i := Exited]\<rparr>)
      else Some (p\<lparr>workers := (workers p)[i := Running (hd (tasks p))], tasks := tl (tasks p),
                   active_tasks := active_tasks p + 1, started := started p @ [hd (tasks p)]\<rparr>))"

definition task_ends :: "nat \<Rightarrow> 't \<Rightarrow> 't ThreadPool \<Rightarrow> 't ThreadPool" where
  "task_ends i t p = p\<lparr>workers := (workers p)[i := Ran t], ended := ended p @ [t]\<rparr>"

definition count_down :: "nat \<Rightarrow> 't ThreadPool \<Rightarrow> 't ThreadPool" where
  "count_down i p = p\<lparr>workers := (workers p)[i := Idle], active_tasks := active_tasks p - 1\<rparr>"

inductive worker_step :: "'t ThreadPool \<Rightarrow> 't ThreadPool \<Rightarrow> bool" where
  top: "i < length (workers p) \<Longrightarrow> workers p ! i = Idle \<Longrightarrow> worker_section i p = Some p' \<Longrightarrow> worker_step p p'"
| end_task: "i < length (workers p) \<Longrightarrow> workers p ! i = Running t \<Longrightarrow> worker_step p (task_ends i t p)"
| count: "i < length (workers p) \<Longrightarrow> workers p ! i = Ran t \<Longrightarrow> worker_step p (count_down i p)"

inductive pool_step :: "'t ThreadPool \<Rightarrow> 't ThreadPool \<Rightarrow> bool" where
  work: "worker_step p p' \<Longrightarrow> pool_step p p'"
| start: "pool_start p = Some p' \<Longrightarrow> pool_step p p'"
| stop: "pool_step p (stop_begin p)"
| join: "joining p \<Longrightarrow> all_exited p \<Longrightarrow> pool_step p (stop_join p)"
| test: "pool_step p (enqueue_test t p)"
| push: "t \<in> set (enqueuing p) \<Longrightarrow> pool_step p (enqueue_push t p)"

inductive_cases worker_stepE: "worker_step p p'"

definition pool_init :: "'t ThreadPool \<Rightarrow> bool" where
  "pool_init p \<longleftrightarrow> (\<exists>hw n. p = ThreadPool_ctor hw n)"

section \<open>Accounting\<close>

fun busy :: "'t worker \<Rightarrow> nat" where
  "busy (Running t) = 1"
| "busy (Ran t) = 1"
| "busy _ = 0"

fun in_hand :: "'t worker \<Rightarrow> 't list" where
  "in_hand (Running t) = [t]"
| "in_hand _ = []"

definition pool_inv :: "'t ThreadPool \<Rightarrow> bool" where
  "pool_inv p \<longleftrightarrow>
     0 < num_threads p \<and>
     active_tasks p = sum_list (map busy (workers p)) \<and>
     pushed p = started p @ tasks p \<and>
     mset (started p) = mset (ended p) + mset (concat (map in_hand (workers p))) \<and>
     (is_running p \<longrightarrow> Exited \<notin> set (workers p) \<and> workers p \<noteq> []) \<and>
     (Exited \<in> set (workers p) \<longrightarrow> set (tasks p) \<subseteq> set (late p)) \<and>
     (joining p \<longrightarrow> \<not> is_running p \<and> workers p \<noteq> [])"

lemma sum_list_busy_update:
  "i < length ws \<Longrightarrow> sum_list (map busy (ws[i := x])) + busy (ws ! i) = sum_list (map busy ws) + busy x"
proof (induction ws arbitrary: i)
  case (Cons w ws)
  then show ?case by (cases i) (simp_all add: algebra_simps)
qed simp

lemma mset_in_hand_update:
  "i < length ws \<Longrightarrow> mset (concat (map in_hand (ws[i := x]))) + mset (in_hand (ws ! i)) =
     mset (concat (map in_hand ws)) + mset (in_hand x)"
proof (induction ws arbitrary: i)
  case (Cons w ws)
  then show ?case
  proof (cases i)
    case (Suc j)
    then have "mset (concat (map in_hand (ws[j := x]))) + mset (in_hand (ws ! j)) =
        mset (concat (map in_hand ws)) + mset (in_hand x)"
      using Cons by simp
    then show ?thesis using Suc by (simp add: add.assoc)
  qed (simp add: union_ac)
qed simp

lemma set_update_subset: "x \<in> set (ws[i := y]) \<Longrightarrow> x = y \<or> x \<in> set ws"
  using set_update_subset_insert [of ws i y] by blast

lemma pool_inv_take:
  assumes inv: "pool_inv p" and i: "i < length (workers p)" "workers p ! i = Idle"
    and sec: "worker_section i p = Some p'"
  shows "pool_inv p'"
proof (cases "tasks p")
  case Nil
  with sec have p': "\<not> is_running p" "p' = p\<lparr>workers := (workers p)[i := Exited]\<rparr>"
    by (auto simp: worker_section_def split: if_splits)
  then show ?thesis
    using inv Nil sum_list_busy_update [OF i(1), of Exited] mset_in_hand_update [OF i(1), of Exited] i
    by (auto simp: pool_inv_def)
next
  case (Cons t ts)
  with sec have p': "p' = p\<lparr>workers := (workers p)[i := Running t], tasks := ts,
      active_tasks := active_tasks p + 1, started := started p @ [t]\<rparr>"
    by (auto simp: worker_section_def split: if_splits)
  moreover have "Exited \<in> set (workers p)" if "Exited \<in> set ((workers p)[i := Running t])"
    using set_update_subset [OF that] by simp
  ultimately show ?thesis
    using inv Cons sum_list_busy_update [OF i(1), of "Running t"] mset_in_hand_update [OF i(1), of "Running t"] i
    by (auto simp: pool_inv_def)
qed

lemma pool_inv_end:
  assumes inv: "pool_inv p" and i: "i < length (workers p)" "workers p ! i = Running t"
  shows "pool_inv (task_ends i t p)"
proof -
  have "Exited \<in> set (workers p)" if "Exited \<in> set ((workers p)[i := Ran t])"
    using set_update_subset [OF that] by simp
  then show ?thesis
    using inv sum_list_busy_update [OF i(1), of "Ran t"] mset_in_hand_update [OF i(1), of "Ran t"] i
    by (auto simp: pool_inv_def task_ends_def)
qed

lemma pool_inv_count:
  assumes inv: "pool_inv p" and i: "i < length (workers p)" "workers p ! i = Ran t"
  shows "pool_inv (count_down i p)"
proof -
  have "Exited \<in> set (workers p)" if "Exited \<in> set ((workers p)[i := Idle])"
    using set_update_subset [OF that] by simp
  then show ?thesis
    using inv sum_list_busy_update [OF i(1), of Idle] mset_in_hand_update [OF i(1), of Idle] i
    by (auto simp: pool_inv_def count_down_def)
qed

lemma pool_inv_worker_step: "pool_inv p \<Longrightarrow> worker_step p p' \<Longrightarrow> pool_inv p'"
  by (erule worker_stepE) (auto intro: pool_inv_take pool_inv_end pool_inv_count)

lemma sum_list_busy_idle [simp]: "sum_list (map busy (replicate n Idle)) = 0"
  by (induction n) simp_all

lemma in_hand_idle [simp]: "concat (map in_hand (replicate n Idle)) = []"
  by (induction n) simp_all

lemma exited_free:
  assumes "\<forall>x \<in> set ws. x = Exited"
  shows "sum_list (map busy ws) = 0" and "concat (map in_hand ws) = []"
  using assms by (induction ws) auto

interpretation pool: safe_system pool_init pool_step pool_inv
proof unfold_locales
  show "pool_inv s" if "pool_init s" for s :: "'t ThreadPool"
    using that by (auto simp: pool_init_def pool_inv_def ThreadPool_ctor_def Let_def)
  show "pool_inv q" if "pool_inv p" and "pool_step p q" for p q :: "'t ThreadPool"
    using that(2,1)
  proof cases
    case work
    with that(1) show ?thesis by (rule pool_inv_worker_step)
  next
    case start
    with that(1) show ?thesis
      by (auto simp: pool_start_def pool_inv_def split: if_splits)
  next
    case join
    with that(1) exited_free [of "workers p"] show ?thesis
      by (auto simp: stop_join_def pool_inv_def all_exited_def)
  qed (auto simp: stop_begin_def enqueue_test_def enqueue_push_def pool_inv_def)
qed

section \<open>Draining\<close>

fun work_left :: "'t worker \<Rightarrow> nat" where
  "work_left Idle = 1"
| "work_left (Running t) = 3"
| "work_left (Ran t) = 2"
| "work_left Exited = 0"

text \<open>What a stopped pool still has to do.\<close>

definition remaining :: "'t ThreadPool \<Rightarrow> nat" where
  "remaining p = 3 * length (tasks p) + sum_list (map work_left (workers p))"

lemma sum_list_work_update:
  "i < length ws \<Longrightarrow> sum_list (map work_left (ws[i := x])) + work_left (ws ! i) =
     sum_list (map work_left ws) + work_left x"
proof (induction ws arbitrary: i)
  case (Cons w ws)
  then show ?case by (cases i) (simp_all add: algebra_simps)
qed simp

lemma worker_step_decreases:
  assumes "worker_step p p'"
  shows "remaining p' < remaining p"
  using assms
proof cases
  case (top i)
  then show ?thesis
    using sum_list_work_update [OF top(1), of Exited] sum_list_work_update [OF top(1), of "Running (hd (tasks p))"]
    by (cases "tasks p") (auto simp: worker_section_def remaining_def split: if_splits)
next
  case (end_task i t)
  then show ?thesis
    using sum_list_work_update [OF end_task(2), of "Ran t"] by (simp add: task_ends_def remaining_def)
next
  case (count i t)
  then show ?thesis
    using sum_list_work_update [OF count(2), of Idle] by (simp add: count_down_def remaining_def)
qed

lemma worker_step_running: "worker_step p p' \<Longrightarrow> is_running p' = is_running p"
  by (erule worker_stepE) (auto simp: worker_section_def task_ends_def count_down_def split: if_splits)

lemma worker_step_remaining: "worker_step p p' \<Longrightarrow> \<not> is_running p \<Longrightarrow> remaining p' < remaining p \<and> \<not> is_running p'"
  by (simp add: worker_step_decreases worker_step_running)

lemma worker_enabled:
  assumes "x \<in> set (workers p)" and "x \<noteq> Exited" and "\<not> is_running p"
  shows "\<exists>p'. worker_step p p'"
proof -
  obtain i where i: "i < length (workers p)" "workers p ! i = x" using assms(1) by (metis in_set_conv_nth)
  show ?thesis
  proof (cases x)
    case Idle
    with i assms(3) show ?thesis
      by (cases "tasks p") (auto intro!: exI worker_step.top [of i p] simp: worker_section_def)
  next
    case (Running t)
    with i show ?thesis by (auto intro: worker_step.end_task)
  next
    case (Ran t)
    with i show ?thesis by (auto intro: worker_step.count)
  qed (use assms in simp)
qed

lemma worker_steps_remaining:
  assumes "(worker_step ^^ n) p q" and "\<not> is_running p"
  shows "n + remaining q \<le> remaining p \<and> \<not> is_running q"
  using assms(1)
proof (induction n arbitrary: q)
  case (Suc n)
  then obtain r where r: "(worker_step ^^ n) p r" "worker_step r q" by auto
  with Suc.IH have "n + remaining r \<le> remaining p" "\<not> is_running r" by auto
  with worker_step_remaining [OF r(2)] show ?case by auto
qed (use assms(2) in simp)

section \<open>Properties\<close>

text \<open>
  C24: In every state the pool reaches, tasks are started in the order they were pushed and each one
  once, the active counter is the number of workers that hold a task (so it never underflows),
  and when the condition of \<^verbatim>\<open>wait\<close> holds every task pushed so far has ended.
\<close>

theorem pool_accounting:
  assumes "reachable pool_init pool_step p"
  shows "pushed p = started p @ tasks p \<and>
     active_tasks p = length (filter (\<lambda>x. busy x = 1) (workers p)) \<and>
     (\<forall>i t. i < length (workers p) \<and> workers p ! i = Ran t \<longrightarrow> 0 < active_tasks p) \<and>
     (wait_done p \<longrightarrow> mset (ended p) = mset (pushed p))"
proof -
  have inv: "pool_inv p" using assms by (rule pool.reachable_inv)
  have busy01: "busy x = 0 \<or> busy x = 1" for x :: "'a worker" by (cases x) simp_all
  have cnt: "sum_list (map busy ws) = length (filter (\<lambda>x. busy x = 1) ws)" for ws :: "'a worker list"
  proof (induction ws)
    case (Cons x ws)
    then show ?case using busy01 [of x] by auto
  qed simp
  have free: "concat (map in_hand ws) = []" if "sum_list (map busy ws) = 0" for ws :: "'a worker list"
    using that
  proof (induction ws)
    case (Cons x ws)
    then show ?case by (cases x) simp_all
  qed simp
  have pos: "0 < active_tasks p" if "i < length (workers p)" "workers p ! i = Ran t" for i t
    using inv sum_list_busy_update [OF that(1), of Exited] that(2) by (simp add: pool_inv_def)
  have "mset (ended p) = mset (pushed p)" if "wait_done p"
    using that inv free [of "workers p"] by (simp add: wait_done_def pool_inv_def)
  with inv pos show ?thesis by (auto simp: pool_inv_def cnt)
qed

text \<open>A pool of one worker that has run one task.\<close>

definition pool_ran :: "nat ThreadPool" where
  "pool_ran = \<lparr>num_threads = 1, is_running = True, workers = [Idle], tasks = [], active_tasks = 0, enqueuing = [],
     joining = False, pushed = [7], started = [7], ended = [7], late = []\<rparr>"

lemma pool_ran_reachable: "reachable pool_init pool_step pool_ran"
proof -
  let ?p0 = "ThreadPool_ctor 0 1 :: nat ThreadPool"
  let ?p1 = "?p0\<lparr>is_running := True, workers := [Idle]\<rparr>"
  let ?p2 = "enqueue_push 7 (enqueue_test 7 ?p1)"
  let ?p3 = "?p2\<lparr>workers := [Running 7], tasks := [], active_tasks := 1, started := [7]\<rparr>"
  note d = ThreadPool_ctor_def pool_start_def enqueue_test_def enqueue_push_def worker_section_def
  have "reachable pool_init pool_step ?p0" by (rule reach_start) (auto simp: pool_init_def)
  then have "reachable pool_init pool_step ?p1"
    by (rule reach_step) (rule pool_step.start, simp add: d)
  then have "reachable pool_init pool_step (enqueue_test 7 ?p1)"
    by (rule reach_step) (rule pool_step.test)
  then have "reachable pool_init pool_step ?p2"
    by (rule reach_step) (rule pool_step.push, simp add: d)
  then have "reachable pool_init pool_step ?p3"
    by (rule reach_step) (rule pool_step.work, rule worker_step.top [of 0], simp_all add: d)
  then have "reachable pool_init pool_step (task_ends 0 7 ?p3)"
    by (rule reach_step) (rule pool_step.work, rule worker_step.end_task, simp_all)
  then have "reachable pool_init pool_step (count_down 0 (task_ends 0 7 ?p3))"
    by (rule reach_step) (rule pool_step.work, rule worker_step.count [of _ _ 7], simp_all add: task_ends_def)
  moreover have "count_down 0 (task_ends 0 7 ?p3) = pool_ran"
    by (simp add: d pool_ran_def count_down_def task_ends_def)
  ultimately show ?thesis by simp
qed

theorem pool_accounting_witness:
  "wait_done pool_ran \<and> mset (ended pool_ran) = mset (pushed pool_ran)"
  using pool_accounting [OF pool_ran_reachable] by (simp add: wait_done_def pool_ran_def)

text \<open>
  C25: \<^verbatim>\<open>stop\<close> returns and drains the queue: once the flag is cleared the workers make only
  finitely many steps, as long as any of them is left some worker can go on, so every run ends
  with all of them out of their loops; and if no caller of \<^verbatim>\<open>enqueue\<close> pushed after the flag
  was cleared, every pushed task has then been run and none is left.
\<close>

theorem stop_drains:
  assumes "reachable pool_init pool_step p" and "\<not> is_running p" and "workers p \<noteq> []" and "late p = []"
  shows "(\<forall>n q. (worker_step ^^ n) p q \<longrightarrow> n \<le> remaining p \<and>
     ((\<nexists>q'. worker_step q q') \<longrightarrow> all_exited q \<and> tasks q = [] \<and> mset (ended q) = mset (pushed p)))"
proof (intro allI impI)
  fix n q
  assume run: "(worker_step ^^ n) p q"
  have "worker_step q r \<Longrightarrow> late r = late q \<and> pushed r = pushed q \<and> length (workers r) = length (workers q)" for q r :: "'a ThreadPool"
    by (erule worker_stepE)
      (auto simp: worker_section_def task_ends_def count_down_def split: if_splits)
  then have late: "late q = [] \<and> pushed q = pushed p \<and> workers q \<noteq> []"
    using run
  proof (induction n arbitrary: q)
    case (Suc n)
    then show ?case by (metis length_0_conv relpowp_Suc_E)
  qed (use assms(3,4) in simp)
  have "(worker_step ^^ n) p q \<Longrightarrow> reachable pool_init pool_step q" for n q
    using assms(1) by (induction n arbitrary: q) (auto intro: reach_step pool_step.work)
  then have inv: "pool_inv q" using run by (blast intro: pool.reachable_inv)
  have bound: "n \<le> remaining p" "\<not> is_running q"
    using worker_steps_remaining [OF run assms(2)] by auto
  have "all_exited q \<and> tasks q = [] \<and> mset (ended q) = mset (pushed p)" if "\<nexists>q'. worker_step q q'"
  proof -
    have ex: "all_exited q" using worker_enabled [of _ q] bound(2) that by (auto simp: all_exited_def)
    then have "Exited \<in> set (workers q)" using late by (cases "workers q") (auto simp: all_exited_def)
    then have "tasks q = []" using inv late by (simp add: pool_inv_def)
    with ex inv late exited_free [of "workers q"] show ?thesis by (simp add: pool_inv_def all_exited_def)
  qed
  with bound(1) show "n \<le> remaining p \<and>
     ((\<nexists>q'. worker_step q q') \<longrightarrow> all_exited q \<and> tasks q = [] \<and> mset (ended q) = mset (pushed p))" by blast
qed

theorem stop_drains_witness:
  "all_exited ((stop_begin pool_ran)\<lparr>workers := [Exited]\<rparr>) \<and>
   mset (ended ((stop_begin pool_ran)\<lparr>workers := [Exited]\<rparr>)) = {#7#}"
proof -
  let ?p = "stop_begin pool_ran" and ?q = "(stop_begin pool_ran)\<lparr>workers := [Exited]\<rparr>"
  have r: "reachable pool_init pool_step ?p" using pool_ran_reachable by (rule reach_step) (rule pool_step.stop)
  have "worker_step ?p ?q"
    by (rule worker_step.top [of 0]) (simp_all add: stop_begin_def pool_ran_def worker_section_def)
  then have run: "(worker_step ^^ 1) ?p ?q" by (simp add: eq_OO)
  have stuck: "\<nexists>q'. worker_step ?q q'" by (auto elim!: worker_stepE)
  have "\<not> is_running ?p" "workers ?p \<noteq> []" "late ?p = []" "mset (pushed ?p) = {#7#}"
    by (simp_all add: stop_begin_def pool_ran_def)
  then show ?thesis using stop_drains [OF r] run stuck by metis
qed

text \<open>
  The test in \<^verbatim>\<open>enqueue\<close> is outside the lock, so a task can be accepted by a running pool
  and pushed after the last worker has left: then nobody runs it, no worker can make a step, and
  a caller of \<^verbatim>\<open>wait\<close> is never released unless the pool is started again.
\<close>

lemma enqueue_race_strands_task:
  "\<exists>p :: nat ThreadPool. reachable pool_init pool_step p \<and> workers p \<noteq> [] \<and> all_exited p \<and> tasks p = [8] \<and>
     \<not> wait_done p \<and> (\<nexists>q. worker_step p q)"
proof -
  let ?p1 = "enqueue_test 8 pool_ran"
  let ?p2 = "(stop_begin ?p1)\<lparr>workers := [Exited]\<rparr>"
  let ?p = "enqueue_push 8 ?p2"
  note d = stop_begin_def enqueue_test_def enqueue_push_def worker_section_def pool_ran_def
  have "reachable pool_init pool_step ?p1" using pool_ran_reachable by (rule reach_step) (rule pool_step.test)
  then have "reachable pool_init pool_step (stop_begin ?p1)" by (rule reach_step) (rule pool_step.stop)
  then have "reachable pool_init pool_step ?p2"
    by (rule reach_step) (rule pool_step.work, rule worker_step.top [of 0], simp_all add: d)
  then have "reachable pool_init pool_step ?p"
    by (rule reach_step) (rule pool_step.push, simp add: d)
  moreover have "workers ?p = [Exited]" "tasks ?p = [8]" by (simp_all add: d)
  moreover from this have "\<nexists>q. worker_step ?p q" by (auto elim!: worker_stepE)
  ultimately show ?thesis by (intro exI [of _ ?p]) (auto simp: all_exited_def wait_done_def)
qed

end
