(* ===== verification/Periodic_Task.thy ===== *)
theory Periodic_Task
  imports Exceptions
begin

text \<open>
  \<^verbatim>\<open>utils/periodic_task.hpp\<close>: a callback repeated in a pool worker until a flag is cleared,
  and the promise through which \<^verbatim>\<open>stop\<close> waits for the loop. The loop is given twice: as the
  function it computes, for the sequence of values its flag has at the tests, and as steps that
  interleave with the callers of \<^verbatim>\<open>start\<close> and \<^verbatim>\<open>stop\<close>.
\<close>

section \<open>The loop\<close>

text \<open>
  \<open>flag k\<close> is the value of \<^verbatim>\<open>is_running_\<close> at the \<open>k\<close>-th test. Both
  \<^verbatim>\<open>catch\<close> clauses drop the exception of the callback. \<open>None\<close> is a loop that does not
  end.
\<close>

partial_function (option) runLoop :: "(nat \<Rightarrow> bool) \<Rightarrow> ('w \<Rightarrow> exn option \<times> 'w) \<Rightarrow> nat \<Rightarrow> 'w \<Rightarrow> 'w option" where
  "runLoop flag callback k w =
     (if flag k then runLoop flag callback (Suc k) (snd (callback w)) else Some w)"

lemma runLoop_returns:
  "(\<And>j. j < n \<Longrightarrow> flag (k + j)) \<Longrightarrow> \<not> flag (k + n) \<Longrightarrow>
   runLoop flag callback k w = Some (((\<lambda>w. snd (callback w)) ^^ n) w)"
proof (induction n arbitrary: k w)
  case 0
  then show ?case by (subst runLoop.simps) simp
next
  case (Suc n)
  have "flag k" using Suc.prems(1) [of 0] by simp
  moreover have "flag (Suc k + j)" if "j < n" for j using Suc.prems(1) [of "Suc j"] that by simp
  moreover have "\<not> flag (Suc k + n)" using Suc.prems(2) by simp
  ultimately show ?case
    using Suc.IH [of "Suc k" "snd (callback w)"] funpow_swap1 [of "\<lambda>w. snd (callback w)" n w]
    by (subst runLoop.simps) simp
qed

lemma runLoop_cleared: "runLoop flag callback k w = Some v \<Longrightarrow> \<exists>j. \<not> flag j"
  by (erule runLoop.raw_induct [rotated]) (auto split: if_splits)

lemma runLoop_forever: "(\<And>j. flag j) \<Longrightarrow> runLoop flag callback k w = None"
  using runLoop_cleared [of flag callback k w] by (cases "runLoop flag callback k w") auto

section \<open>State and steps\<close>

text \<open>
  \<open>loops\<close> are the calls of \<^verbatim>\<open>runLoop\<close> that are queued or running in the pool and where
  they are; \<open>starts\<close> and \<open>exits\<close> count those handed to the pool and those that ended.
\<close>

datatype loop_phase = AtTest | InBody

record PeriodicTask =
  pt_interval :: int
  pt_running :: bool
  promise_done :: bool
  loops :: "loop_phase list"
  starts :: nat
  exits :: nat

definition PeriodicTask_ctor :: "int \<Rightarrow> PeriodicTask" where
  "PeriodicTask_ctor interval_ms =
     \<lparr>pt_interval = interval_ms, pt_running = False, promise_done = False, loops = [], starts = 0, exits = 0\<rparr>"

text \<open>The pool drops the loop when it is stopped; the task is marked as running all the same.\<close>

definition pt_start :: "bool \<Rightarrow> PeriodicTask \<Rightarrow> PeriodicTask" where
  "pt_start pool_running p =
     (if pt_running p then p
      else if pool_running then p\<lparr>pt_running := True, loops := loops p @ [AtTest], starts := starts p + 1\<rparr>
      else p\<lparr>pt_running := True\<rparr>)"

text \<open>
  \<^verbatim>\<open>promise_done_.set_value()\<close> throws the second time; the exception leaves
  \<^verbatim>\<open>runLoop\<close> and ends in the pool's worker.
\<close>

definition set_done :: "PeriodicTask \<Rightarrow> exn option \<times> PeriodicTask" where
  "set_done p = (if promise_done p then (Some (FutureError ''Promise already satisfied''), p)
                 else (None, p\<lparr>promise_done := True\<rparr>))"

definition loop_test :: "nat \<Rightarrow> PeriodicTask \<Rightarrow> PeriodicTask" where
  "loop_test i p =
     (if pt_running p then p\<lparr>loops := (loops p)[i := InBody]\<rparr>
      else (snd (set_done p))\<lparr>loops := take i (loops p) @ drop (Suc i) (loops p), exits := exits p + 1\<rparr>)"

definition loop_body :: "nat \<Rightarrow> PeriodicTask \<Rightarrow> PeriodicTask" where
  "loop_body i p = p\<lparr>loops := (loops p)[i := AtTest]\<rparr>"

text \<open>
  The first part of \<^verbatim>\<open>stop\<close>: whether the call goes on to wait, which it does not when the flag
  is already cleared, and the new state. Then when the call returns.
\<close>

definition pt_stop :: "PeriodicTask \<Rightarrow> bool \<times> PeriodicTask" where
  "pt_stop p = (if \<not> pt_running p then (False, p) else (True, p\<lparr>pt_running := False\<rparr>))"

definition pt_stop_returns :: "bool \<Rightarrow> bool \<Rightarrow> PeriodicTask \<Rightarrow> bool" where
  "pt_stop_returns waits timed_out p \<longleftrightarrow> \<not> waits \<or> promise_done p \<or> timed_out"

inductive pt_step :: "PeriodicTask \<Rightarrow> PeriodicTask \<Rightarrow> bool" where
  start: "pt_step p (pt_start pool_running p)"
| test: "i < length (loops p) \<Longrightarrow> loops p ! i = AtTest \<Longrightarrow> pt_step p (loop_test i p)"
| body: "i < length (loops p) \<Longrightarrow> loops p ! i = InBody \<Longrightarrow> pt_step p (loop_body i p)"
| stop: "pt_step p (snd (pt_stop p))"

definition pt_init :: "PeriodicTask \<Rightarrow> bool" where
  "pt_init p \<longleftrightarrow> (\<exists>iv. p = PeriodicTask_ctor iv)"

definition pt_inv :: "PeriodicTask \<Rightarrow> bool" where
  "pt_inv p \<longleftrightarrow> starts p = exits p + length (loops p) \<and> (promise_done p \<longleftrightarrow> 0 < exits p)"

interpretation pt: safe_system pt_init pt_step pt_inv
proof unfold_locales
  show "pt_init s \<Longrightarrow> pt_inv s" for s by (auto simp: pt_init_def pt_inv_def PeriodicTask_ctor_def)
  show "pt_inv p \<Longrightarrow> pt_step p q \<Longrightarrow> pt_inv q" for p q
    by (erule pt_step.cases)
      (auto simp: pt_inv_def pt_start_def loop_test_def loop_body_def pt_stop_def set_done_def)
qed

section \<open>The tasks of the components\<close>

text \<open>
  The four components own a task through a \<^verbatim>\<open>unique_ptr\<close>. \<^verbatim>\<open>start\<close> makes a new one, so
  that an older one is destroyed, which stops it, and starts it; \<^verbatim>\<open>stop\<close> stops the one there
  is. The result of a start is the old task, stopped, and the new one.
\<close>

type_synonym owned_task = "PeriodicTask option"

definition new_task :: "int \<Rightarrow> bool \<Rightarrow> owned_task \<Rightarrow> owned_task \<times> owned_task" where
  "new_task interval_ms pool_running old =
     (map_option (snd \<circ> pt_stop) old, Some (pt_start pool_running (PeriodicTask_ctor interval_ms)))"

definition MulticastSender_start :: "bool \<Rightarrow> owned_task \<Rightarrow> owned_task \<times> owned_task" where
  "MulticastSender_start = new_task 1000"

definition MulticastSender_stop :: "owned_task \<Rightarrow> owned_task" where
  "MulticastSender_stop heartbeat_task = map_option (snd \<circ> pt_stop) heartbeat_task"

definition MulticastReceiver_start :: "bool \<Rightarrow> owned_task \<Rightarrow> owned_task \<times> owned_task" where
  "MulticastReceiver_start = new_task 100"

definition MulticastReceiver_stop :: "owned_task \<Rightarrow> owned_task" where
  "MulticastReceiver_stop receive_task = map_option (snd \<circ> pt_stop) receive_task"

definition ServiceManager_start :: "bool \<Rightarrow> owned_task \<Rightarrow> owned_task \<times> owned_task" where
  "ServiceManager_start = new_task 100"

definition ServiceManager_stop :: "owned_task \<Rightarrow> owned_task" where
  "ServiceManager_stop poll_task = map_option (snd \<circ> pt_stop) poll_task"

definition SubscriberManager_start :: "bool \<Rightarrow> owned_task \<Rightarrow> owned_task \<times> owned_task" where
  "SubscriberManager_start = new_task 100"

definition SubscriberManager_stop :: "owned_task \<Rightarrow> owned_task" where
  "SubscriberManager_stop poll_task = map_option (snd \<circ> pt_stop) poll_task"

text \<open>
  The destructors: the task is stopped first, and the multicast components then close their
  descriptor, if they have one. The second result lists the closed descriptors.
\<close>

definition PeriodicTask_dtor :: "PeriodicTask \<Rightarrow> PeriodicTask" where
  "PeriodicTask_dtor p = snd (pt_stop p)"

definition MulticastSender_dtor :: "int \<Rightarrow> owned_task \<Rightarrow> owned_task \<times> int list" where
  "MulticastSender_dtor sock heartbeat_task =
     (MulticastSender_stop heartbeat_task, if sock \<ge> 0 then [sock] else [])"

definition MulticastReceiver_dtor :: "int \<Rightarrow> owned_task \<Rightarrow> owned_task \<times> int list" where
  "MulticastReceiver_dtor sock receive_task =
     (MulticastReceiver_stop receive_task, if sock \<ge> 0 then [sock] else [])"

definition ServiceManager_dtor :: "owned_task \<Rightarrow> owned_task" where
  "ServiceManager_dtor poll_task = ServiceManager_stop poll_task"

definition SubscriberManager_dtor :: "owned_task \<Rightarrow> owned_task" where
  "SubscriberManager_dtor poll_task = SubscriberManager_stop poll_task"

text \<open>A destroyed component has no task that would start another round.\<close>

lemma dtor_stops:
  "fst (MulticastSender_dtor sock (Some p)) = Some q \<Longrightarrow> \<not> pt_running q"
  "fst (MulticastReceiver_dtor sock (Some p)) = Some q \<Longrightarrow> \<not> pt_running q"
  "ServiceManager_dtor (Some p) = Some q \<Longrightarrow> \<not> pt_running q"
  "SubscriberManager_dtor (Some p) = Some q \<Longrightarrow> \<not> pt_running q"
  by (auto simp: MulticastSender_dtor_def MulticastReceiver_dtor_def ServiceManager_dtor_def SubscriberManager_dtor_def
      MulticastSender_stop_def MulticastReceiver_stop_def ServiceManager_stop_def SubscriberManager_stop_def pt_stop_def split: if_splits)

text \<open>A component that is started once and stopped: its task is started once, so its stop synchronises.\<close>

lemma new_task_once:
  assumes "new_task iv True old = (old', Some p)"
  shows "reachable pt_init pt_step p" and "starts p = 1" and "pt_running p" and "loops p = [AtTest]"
proof -
  have p: "p = pt_start True (PeriodicTask_ctor iv)" using assms by (simp add: new_task_def)
  have "reachable pt_init pt_step (PeriodicTask_ctor iv)" by (rule reach_start) (auto simp: pt_init_def)
  then show "reachable pt_init pt_step p" unfolding p by (rule reach_step) (rule pt_step.start)
  show "starts p = 1" "pt_running p" "loops p = [AtTest]"
    by (simp_all add: p pt_start_def PeriodicTask_ctor_def)
qed

section \<open>Properties\<close>

text \<open>Without another start the loops of a task only get fewer.\<close>

lemma pt_step_loops: "pt_step p q \<Longrightarrow> starts p \<le> starts q \<and> (starts q = starts p \<and> loops p = [] \<longrightarrow> loops q = [])"
  by (erule pt_step.cases) (auto simp: pt_start_def pt_stop_def loop_test_def loop_body_def set_done_def)

lemma pt_steps_loops:
  "pt_step\<^sup>*\<^sup>* p q \<Longrightarrow> starts p \<le> starts q \<and> (starts q = starts p \<and> loops p = [] \<longrightarrow> loops q = [])"
proof (induction rule: rtranclp_induct)
  case (step q r)
  then show ?case using pt_step_loops [of q r] by auto
qed simp

lemma pt_reach_steps: "pt_step\<^sup>*\<^sup>* p q \<Longrightarrow> reachable pt_init pt_step p \<Longrightarrow> reachable pt_init pt_step q"
  by (induction rule: rtranclp_induct) (auto intro: reach_step)

text \<open>A task in whose callback the loop is, after one call of \<^verbatim>\<open>stop\<close> has cleared the flag.\<close>

definition pt_stopping :: PeriodicTask where
  "pt_stopping = \<lparr>pt_interval = 100, pt_running = False, promise_done = False, loops = [InBody], starts = 1, exits = 0\<rparr>"

lemma pt_stopping_reachable: "reachable pt_init pt_step pt_stopping"
proof -
  let ?p1 = "pt_start True (PeriodicTask_ctor 100)" and ?R = "reachable pt_init pt_step"
  note d = pt_stop_def pt_start_def PeriodicTask_ctor_def loop_test_def
  have "?R (PeriodicTask_ctor 100)" by (rule reach_start) (auto simp: pt_init_def)
  then have "?R ?p1" by (rule reach_step) (rule pt_step.start)
  then have "?R (loop_test 0 ?p1)" by (rule reach_step) (rule pt_step.test, simp_all add: d)
  then have "?R (snd (pt_stop (loop_test 0 ?p1)))" by (rule reach_step) (rule pt_step.stop)
  moreover have "snd (pt_stop (loop_test 0 ?p1)) = pt_stopping" by (simp add: d pt_stopping_def)
  ultimately show ?thesis by simp
qed

text \<open>
  C40: For a task that was started once, a call of \<^verbatim>\<open>stop\<close> that finds the flag set synchronises:
  when its wait ends without the timeout, no call of the loop is left in the pool, so the
  callback is not running and will not run again until the next start. A call that finds the flag
  cleared, like a destructor after a \<^verbatim>\<open>stop\<close> that timed out, does not: it returns at once, and
  the callback may be running.
\<close>

theorem periodic_stop_synchronises:
  assumes "reachable pt_init pt_step p"
  shows "(\<forall>p' q. pt_stop p = (True, p') \<and> pt_step\<^sup>*\<^sup>* p' q \<and> starts q \<le> 1 \<and> pt_stop_returns True False q \<longrightarrow>
        loops q = [] \<and> (\<forall>r. pt_step\<^sup>*\<^sup>* q r \<and> starts r = starts q \<longrightarrow> loops r = [])) \<and>
     (\<not> pt_running p \<longrightarrow> pt_stop p = (False, p) \<and> pt_stop_returns False timed_out p) \<and>
     (\<exists>p. reachable pt_init pt_step p \<and> starts p = 1 \<and> pt_stop p = (False, p) \<and> pt_stop_returns False False p \<and>
        InBody \<in> set (loops p))"
proof (intro conjI allI impI)
  fix p' q
  assume a: "pt_stop p = (True, p') \<and> pt_step\<^sup>*\<^sup>* p' q \<and> starts q \<le> 1 \<and> pt_stop_returns True False q"
  have "pt_step p p'" using a pt_step.stop [of p] by simp
  then have "reachable pt_init pt_step q" using a assms by (blast intro: pt_reach_steps reach_step)
  then have "pt_inv q" by (rule pt.reachable_inv)
  then show l: "loops q = []" using a by (cases "loops q") (auto simp: pt_inv_def pt_stop_returns_def)
  show "loops r = []" if "pt_step\<^sup>*\<^sup>* q r \<and> starts r = starts q" for r using that l pt_steps_loops [of q r] by simp
next
  show "\<exists>p. reachable pt_init pt_step p \<and> starts p = 1 \<and> pt_stop p = (False, p) \<and> pt_stop_returns False False p \<and>
      InBody \<in> set (loops p)"
    by (rule exI [of _ pt_stopping]) (simp add: pt_stopping_reachable, simp add: pt_stopping_def pt_stop_def pt_stop_returns_def)
qed (simp_all add: pt_stop_def pt_stop_returns_def)

definition pt_started :: PeriodicTask where
  "pt_started = pt_start True (PeriodicTask_ctor 100)"

definition pt_stopped :: PeriodicTask where
  "pt_stopped = \<lparr>pt_interval = 100, pt_running = False, promise_done = True, loops = [], starts = 1, exits = 1\<rparr>"

lemma pt_started_stops:
  "reachable pt_init pt_step pt_started" "\<exists>p'. pt_stop pt_started = (True, p') \<and> pt_step\<^sup>*\<^sup>* p' pt_stopped"
proof -
  have "reachable pt_init pt_step (PeriodicTask_ctor 100)" by (rule reach_start) (auto simp: pt_init_def)
  then show "reachable pt_init pt_step pt_started" unfolding pt_started_def by (rule reach_step) (rule pt_step.start)
  let ?p = "snd (pt_stop pt_started)"
  note d = pt_stop_def pt_started_def pt_start_def PeriodicTask_ctor_def loop_test_def set_done_def pt_stopped_def
  have "pt_step ?p (loop_test 0 ?p)" by (rule pt_step.test) (simp_all add: d)
  moreover have "loop_test 0 ?p = pt_stopped" by (simp add: d)
  moreover have "pt_stop pt_started = (True, ?p)" by (simp add: d)
  ultimately show "\<exists>p'. pt_stop pt_started = (True, p') \<and> pt_step\<^sup>*\<^sup>* p' pt_stopped" by (metis r_into_rtranclp)
qed

lemma pt_stopped_reachable: "reachable pt_init pt_step pt_stopped"
proof -
  obtain p' where "pt_stop pt_started = (True, p')" "pt_step\<^sup>*\<^sup>* p' pt_stopped" using pt_started_stops(2) by blast
  moreover from this have "pt_step pt_started p'" using pt_step.stop [of pt_started] by simp
  ultimately show ?thesis using pt_started_stops(1) by (blast intro: pt_reach_steps reach_step)
qed

theorem periodic_stop_synchronises_witness: "loops pt_stopped = []"
proof -
  have "starts pt_stopped \<le> 1" "pt_stop_returns True False pt_stopped" by (simp_all add: pt_stopped_def pt_stop_returns_def)
  then show ?thesis
    using periodic_stop_synchronises [OF pt_started_stops(1), THEN conjunct1] pt_started_stops(2) by blast
qed

text \<open>
  A task that is started again after a stop is not synchronised any more: the promise of the
  first run is still satisfied, so the next \<^verbatim>\<open>stop\<close> returns at once while the callback may be
  running, and the second loop ends with an exception when it sets the promise again.
\<close>

lemma periodic_restart_unsynchronised:
  "\<exists>p p'. reachable pt_init pt_step p \<and> pt_stop p = (True, p') \<and> pt_stop_returns True False p' \<and>
     InBody \<in> set (loops p') \<and> fst (set_done p') = Some (FutureError ''Promise already satisfied'')"
proof -
  let ?p1 = "pt_start True pt_stopped" and ?R = "reachable pt_init pt_step"
  note d = pt_stop_def pt_start_def loop_test_def pt_stopped_def
  from pt_stopped_reachable have "?R ?p1" by (rule reach_step) (rule pt_step.start)
  then have "?R (loop_test 0 ?p1)" by (rule reach_step) (rule pt_step.test, simp_all add: d)
  then show ?thesis
    by (intro exI [of _ "loop_test 0 ?p1"] exI [of _ "snd (pt_stop (loop_test 0 ?p1))"])
      (auto simp: d pt_stop_returns_def set_done_def)
qed

end
