(* ===== verification/Singleton.thy ===== *)
theory Singleton
  imports Exceptions
begin

text \<open>
  \<^verbatim>\<open>utils/singleton.hpp\<close>, the two static pointers of a singleton class and the calls that
  set and clear them, and the \<^verbatim>\<open>ZMQContext\<close> singleton of \<^verbatim>\<open>utils/zmq_utils.hpp\<close>
  with the sockets it owns.
\<close>

section \<open>Singleton\<close>

text \<open>\<open>sg_instance\<close> is \<^verbatim>\<open>instance_\<close>, \<open>sg_unique\<close> that \<^verbatim>\<open>unique_instance_\<close> owns it.\<close>

record 'a Singleton =
  sg_instance :: "'a option"
  sg_unique :: bool

definition sg_none :: "'a Singleton" where
  "sg_none = \<lparr>sg_instance = None, sg_unique = False\<rparr>"

definition destroy :: "'a Singleton \<Rightarrow> 'a Singleton" where
  "destroy s =
     (if sg_unique s then \<lparr>sg_instance = None, sg_unique = False\<rparr>
      else if sg_instance s \<noteq> None then s\<lparr>sg_instance := None\<rparr> else s)"

definition instancePtr :: "'a Singleton \<Rightarrow> 'a result" where
  "instancePtr s =
     (case sg_instance s of
        None \<Rightarrow> Inl (LogicError ''Singleton not initialized. Call init() first.'')
      | Some x \<Rightarrow> Inr x)"

definition isInitialized :: "'a Singleton \<Rightarrow> bool" where
  "isInitialized s \<longleftrightarrow> sg_instance s \<noteq> None"

text \<open>\<open>ctor\<close> is the outcome of the constructor; its exception leaves the pointers alone.\<close>

definition initManaged :: "'a result \<Rightarrow> 'a Singleton \<Rightarrow> exn option \<times> 'a Singleton" where
  "initManaged ctor s =
     (if sg_instance s \<noteq> None then (Some (LogicError ''Singleton already initialized.''), s)
      else case ctor of
             Inl e \<Rightarrow> (Some e, s)
           | Inr x \<Rightarrow> (None, \<lparr>sg_instance = Some x, sg_unique = True\<rparr>))"

definition initExternal :: "'a result \<Rightarrow> 'a Singleton \<Rightarrow> exn option \<times> 'a Singleton" where
  "initExternal ctor s =
     (if sg_instance s \<noteq> None then (Some (LogicError ''Singleton already initialized.''), s)
      else case ctor of
             Inl e \<Rightarrow> (Some e, s)
           | Inr x \<Rightarrow> (None, s\<lparr>sg_instance := Some x\<rparr>))"

text \<open>An owned instance is the current one.\<close>

definition sg_inv :: "'a Singleton \<Rightarrow> bool" where
  "sg_inv s \<longleftrightarrow> (sg_unique s \<longrightarrow> sg_instance s \<noteq> None)"

lemma sg_inv_ops [inv_intros]:
  "sg_inv sg_none" "sg_inv (destroy s)"
  "sg_inv s \<Longrightarrow> sg_inv (snd (initManaged ctor s))" "sg_inv s \<Longrightarrow> sg_inv (snd (initExternal ctor s))"
  by (auto simp: sg_inv_def sg_none_def destroy_def initManaged_def initExternal_def split: sum.splits)

lemma destroy_instance [simp]: "sg_instance (destroy s) = None"
  by (simp add: destroy_def)

text \<open>
  The contract of the lifecycle calls: a second initialisation is refused and changes nothing,
  and after \<^verbatim>\<open>destroy\<close> the class can be initialised again.
\<close>

locale single_instance =
  fixes start :: "'a result \<Rightarrow> 's \<Rightarrow> exn option \<times> 's"
    and get :: "'s \<Rightarrow> 'a result"
    and drop_it :: "'s \<Rightarrow> 's"
  assumes get_after_start: "get s = Inl e \<Longrightarrow> start (Inr x) s = (exc, s') \<Longrightarrow> exc = None \<and> get s' = Inr x"
    and start_twice: "get s = Inr x \<Longrightarrow> \<exists>e. start c s = (Some e, s)"
    and get_after_drop: "\<exists>e. get (drop_it s) = Inl e"
    and start_fails: "start (Inl e) s = (exc, s') \<Longrightarrow> exc \<noteq> None \<and> s' = s"
begin

lemma start_total: "get s = Inl e \<Longrightarrow> \<exists>s'. start (Inr x) s = (None, s') \<and> get s' = Inr x"
  using get_after_start by (cases "start (Inr x) s") blast

lemma restart: "\<exists>s'. start (Inr x) (drop_it s) = (None, s') \<and> get s' = Inr x"
  using get_after_drop [of s] start_total by blast

end

interpretation managed: single_instance initManaged instancePtr destroy
  by unfold_locales
    (auto simp: initManaged_def instancePtr_def split: option.splits if_splits)

interpretation extern: single_instance initExternal instancePtr destroy
  by unfold_locales
    (auto simp: initExternal_def instancePtr_def split: option.splits if_splits)

section \<open>ZMQContext\<close>

text \<open>
  A socket pointer is an index into \<^verbatim>\<open>sockets_\<close>, whose entries stay in place; \<open>None\<close> is a
  failed assertion.
\<close>

record ZMQContext =
  ctx_open :: bool
  ctx_sockets :: "bool list"

definition ZMQContext_ctor :: ZMQContext where
  "ZMQContext_ctor = \<lparr>ctx_open = True, ctx_sockets = []\<rparr>"

definition createSocket :: "exn option \<Rightarrow> ZMQContext Singleton \<Rightarrow> (nat result \<times> ZMQContext Singleton) option" where
  "createSocket zmq_exc s =
     (case sg_instance s of
        None \<Rightarrow> None
      | Some ctx \<Rightarrow>
          (case zmq_exc of
             Some e \<Rightarrow> Some (Inl e, s)
           | None \<Rightarrow> Some (Inr (length (ctx_sockets ctx)),
                           s\<lparr>sg_instance := Some (ctx\<lparr>ctx_sockets := ctx_sockets ctx @ [True]\<rparr>)\<rparr>)))"

text \<open>The destructor closes every socket, then the context.\<close>

definition ZMQContext_dtor :: "ZMQContext \<Rightarrow> ZMQContext" where
  "ZMQContext_dtor ctx = ctx\<lparr>ctx_sockets := map (\<lambda>_. False) (ctx_sockets ctx), ctx_open := False\<rparr>"

lemma createSocket_pointer:
  assumes "createSocket exc s = Some (Inr i, s')"
  shows "\<exists>ctx. sg_instance s' = Some ctx \<and> nth_opt (ctx_sockets ctx) i = Some True \<and>
     nth_opt (ctx_sockets (ZMQContext_dtor ctx)) i = Some False"
  using assms by (auto simp: createSocket_def nth_opt_def ZMQContext_dtor_def split: option.splits)

end
