(* ===== verification/Logger.thy ===== *)
theory Logger
  imports Exceptions
begin

text \<open>
  \<^verbatim>\<open>utils/logger.hpp\<close> and \<^verbatim>\<open>.cpp\<close>: the one-time set-up of spdlog and the guarded
  logging functions. spdlog is the list of calls the code makes on it.
\<close>

datatype LogLevel = TRACE | INFO | WARN | ERROR | FATAL

datatype spd_level = spd_trace | spd_info | spd_warn | spd_err | spd_critical

fun toSpdLevel :: "LogLevel \<Rightarrow> spd_level" where
  "toSpdLevel TRACE = spd_trace"
| "toSpdLevel INFO = spd_info"
| "toSpdLevel WARN = spd_warn"
| "toSpdLevel ERROR = spd_err"
| "toSpdLevel FATAL = spd_critical"

text \<open>Both enumerations are ordered by severity, and the translation respects the order.\<close>

fun log_severity :: "LogLevel \<Rightarrow> nat" where
  "log_severity TRACE = 0"
| "log_severity INFO = 1"
| "log_severity WARN = 2"
| "log_severity ERROR = 3"
| "log_severity FATAL = 4"

fun spd_severity :: "spd_level \<Rightarrow> nat" where
  "spd_severity spd_trace = 0"
| "spd_severity spd_info = 2"
| "spd_severity spd_warn = 3"
| "spd_severity spd_err = 4"
| "spd_severity spd_critical = 5"

lemma log_severity_inj: "log_severity a = log_severity b \<Longrightarrow> a = b"
  by (cases a; cases b) simp_all

lemma spd_severity_inj: "spd_severity a = spd_severity b \<Longrightarrow> a = b"
  by (cases a; cases b) simp_all

instantiation LogLevel :: linorder
begin

definition less_eq_LogLevel :: "LogLevel \<Rightarrow> LogLevel \<Rightarrow> bool" where
  "less_eq_LogLevel a b \<longleftrightarrow> log_severity a \<le> log_severity b"

definition less_LogLevel :: "LogLevel \<Rightarrow> LogLevel \<Rightarrow> bool" where
  "less_LogLevel a b \<longleftrightarrow> log_severity a < log_severity b"

instance
  by standard (auto simp: less_eq_LogLevel_def less_LogLevel_def intro: log_severity_inj)

end

instantiation spd_level :: linorder
begin

definition less_eq_spd_level :: "spd_level \<Rightarrow> spd_level \<Rightarrow> bool" where
  "less_eq_spd_level a b \<longleftrightarrow> spd_severity a \<le> spd_severity b"

definition less_spd_level :: "spd_level \<Rightarrow> spd_level \<Rightarrow> bool" where
  "less_spd_level a b \<longleftrightarrow> spd_severity a < spd_severity b"

instance
  by standard (auto simp: less_eq_spd_level_def less_spd_level_def intro: spd_severity_inj)

end

lemma toSpdLevel_strict_mono: "strict_mono toSpdLevel"
proof (rule strict_monoI)
  show "a < b \<Longrightarrow> toSpdLevel a < toSpdLevel b" for a b
    by (cases a; cases b) (simp_all add: less_LogLevel_def less_spd_level_def)
qed

datatype sink = ConsoleSink | FileSink string

datatype spd_call =
    InitThreadPool nat nat
  | CreateDirectories string
  | SetDefaultLogger "sink list"
  | SetPattern string
  | SetLevel spd_level
  | Log spd_level string
  | Shutdown

record Logger =
  initialized :: bool
  spdlog :: "spd_call list"

definition call :: "spd_call \<Rightarrow> Logger \<Rightarrow> Logger" where
  "call c l = l\<lparr>spdlog := spdlog l @ [c]\<rparr>"

text \<open>\<open>ts\<close> is the formatted local time.\<close>

definition logger_init :: "string \<Rightarrow> bool \<Rightarrow> string \<Rightarrow> Logger \<Rightarrow> Logger" where
  "logger_init ts enable_file_logging log_dir l =
     (if initialized l then l
      else let l1 = call (InitThreadPool 8192 1) l;
               l2 = (if enable_file_logging then call (CreateDirectories log_dir) l1 else l1);
               sinks = [ConsoleSink] @
                 (if enable_file_logging then [FileSink (log_dir @ ''/output_'' @ ts @ ''.txt'')] else []);
               l3 = call (SetPattern ''[%Y-%m-%d %H:%M:%S.%e] [%^%l%$] %v'') (call (SetDefaultLogger sinks) l2)
           in l3\<lparr>initialized := True\<rparr>)"

definition logger_shutdown :: "Logger \<Rightarrow> Logger" where
  "logger_shutdown l = (if \<not> initialized l then l else call Shutdown (l\<lparr>initialized := False\<rparr>))"

definition setLevel :: "LogLevel \<Rightarrow> Logger \<Rightarrow> Logger" where
  "setLevel lvl l = call (SetLevel (toSpdLevel lvl)) l"

definition log_trace :: "string \<Rightarrow> Logger \<Rightarrow> Logger" where
  "log_trace msg l = (if initialized l then call (Log spd_trace msg) l else l)"

definition log_info :: "string \<Rightarrow> Logger \<Rightarrow> Logger" where
  "log_info msg l = (if initialized l then call (Log spd_info msg) l else l)"

definition log_warn :: "string \<Rightarrow> Logger \<Rightarrow> Logger" where
  "log_warn msg l = (if initialized l then call (Log spd_warn msg) l else l)"

definition log_error :: "string \<Rightarrow> Logger \<Rightarrow> Logger" where
  "log_error msg l = (if initialized l then call (Log spd_err msg) l else l)"

definition log_fatal :: "string \<Rightarrow> Logger \<Rightarrow> Logger" where
  "log_fatal msg l = call (Log spd_critical msg) l"

text \<open>
  The overloads for a format string and its arguments, defined in the header. The text is made by
  the fmt library: \<open>render\<close>.
\<close>

type_synonym 'a renderer = "string \<Rightarrow> 'a list \<Rightarrow> string"

definition log_trace_fmt :: "'a renderer \<Rightarrow> string \<Rightarrow> 'a list \<Rightarrow> Logger \<Rightarrow> Logger" where
  "log_trace_fmt render fmt args l = (if initialized l then call (Log spd_trace (render fmt args)) l else l)"

definition log_info_fmt :: "'a renderer \<Rightarrow> string \<Rightarrow> 'a list \<Rightarrow> Logger \<Rightarrow> Logger" where
  "log_info_fmt render fmt args l = (if initialized l then call (Log spd_info (render fmt args)) l else l)"

definition log_warn_fmt :: "'a renderer \<Rightarrow> string \<Rightarrow> 'a list \<Rightarrow> Logger \<Rightarrow> Logger" where
  "log_warn_fmt render fmt args l = (if initialized l then call (Log spd_warn (render fmt args)) l else l)"

definition log_error_fmt :: "'a renderer \<Rightarrow> string \<Rightarrow> 'a list \<Rightarrow> Logger \<Rightarrow> Logger" where
  "log_error_fmt render fmt args l = (if initialized l then call (Log spd_err (render fmt args)) l else l)"

definition log_fatal_fmt :: "'a renderer \<Rightarrow> string \<Rightarrow> 'a list \<Rightarrow> Logger \<Rightarrow> Logger" where
  "log_fatal_fmt render fmt args l = (if initialized l then call (Log spd_critical (render fmt args)) l else l)"

lemmas log_defs = log_trace_def log_info_def log_warn_def log_error_def log_fatal_def call_def
lemmas log_fmt_defs = log_trace_fmt_def log_info_fmt_def log_warn_fmt_def log_error_fmt_def log_fatal_fmt_def

section \<open>Properties\<close>

text \<open>
  spdlog is set up once, however often \<^verbatim>\<open>init\<close> is called, and a shut down logger can be
  set up again. While it is not set up no logging function reaches spdlog, with one exception:
  \<^verbatim>\<open>fatal(const std::string &)\<close> always calls it. Once it is set up, the overload for a format
  string hands spdlog what the overload for a plain string does for the rendered text, at every
  level.
\<close>

lemma logger_guards:
  "logger_init ts' f' d' (logger_init ts f d l) = logger_init ts f d l \<and>
   initialized (logger_init ts f d l) \<and>
   (\<not> initialized l \<longrightarrow>
      (\<forall>log \<in> {log_trace m, log_info m, log_warn m, log_error m, log_trace_fmt render fmt args,
          log_info_fmt render fmt args, log_warn_fmt render fmt args, log_error_fmt render fmt args,
          log_fatal_fmt render fmt args, logger_shutdown}. log l = l) \<and> log_fatal m l \<noteq> l \<and>
      initialized (logger_init ts f d (logger_shutdown (logger_init ts f d l)))) \<and>
   (initialized l \<longrightarrow>
      log_trace_fmt render fmt args l = log_trace (render fmt args) l \<and>
      log_info_fmt render fmt args l = log_info (render fmt args) l \<and>
      log_warn_fmt render fmt args l = log_warn (render fmt args) l \<and>
      log_error_fmt render fmt args l = log_error (render fmt args) l \<and>
      log_fatal_fmt render fmt args l = log_fatal (render fmt args) l)"
proof -
  have i: "initialized (logger_init ts f d k)" for k by (simp add: logger_init_def Let_def)
  have "l\<lparr>spdlog := spdlog l @ [c]\<rparr> \<noteq> l" for c :: spd_call
    by (cases l) simp
  then show ?thesis
    using i by (auto simp: log_defs log_fmt_defs logger_shutdown_def) (simp_all add: logger_init_def)
qed

lemma logger_guards_witness:
  "log_info ''x'' \<lparr>initialized = False, spdlog = []\<rparr> = \<lparr>initialized = False, spdlog = []\<rparr> \<and>
   log_fatal ''x'' \<lparr>initialized = False, spdlog = []\<rparr> \<noteq> \<lparr>initialized = False, spdlog = []\<rparr>"
  using logger_guards [of "[]" False "[]" "[]" False "[]" "\<lparr>initialized = False, spdlog = []\<rparr>" "''x''"
      "\<lambda>fmt args. fmt" "''x''" "[] :: nat list"]
  by simp

end
