(* ===== verification/Lifecycle.thy ===== *)
theory Lifecycle
  imports Singleton Logger
begin

text \<open>
  \<^verbatim>\<open>nodes/zerolancom_node.hpp\<close> and \<^verbatim>\<open>.cpp\<close>, and the calls \<^verbatim>\<open>init\<close>,
  \<^verbatim>\<open>shutdown\<close>, \<^verbatim>\<open>spin\<close> of \<^verbatim>\<open>zerolancom.cpp\<close>: the order in which a node brings its
  seven singletons up and takes them down. The state holds the static pointers of the classes
  and the order of events; what a constructor throws is an argument.
\<close>

section \<open>State\<close>

datatype component =
    ThreadPoolC | ZMQContextC | NodeInfoManagerC | ServiceManagerC
  | MulticastReceiverC | MulticastSenderC | SubscriberManagerC

datatype node_event =
    Constructed component | SetServicePort | RegisteredGetNodeInfo
  | Started component | Stopped component | Destroyed component

record world =
  slot :: "component \<Rightarrow> unit Singleton"
  node :: "unit Singleton"
  running :: bool
  logger :: Logger
  events :: "node_event list"

type_synonym act = "world \<Rightarrow> exn option \<times> world"

definition emit :: "node_event \<Rightarrow> world \<Rightarrow> world" where
  "emit ev w = w\<lparr>events := events w @ [ev]\<rparr>"

text \<open>Statements in a row: an exception skips the rest.\<close>

fun run_acts :: "act list \<Rightarrow> act" where
  "run_acts [] w = (None, w)"
| "run_acts (a # as) w = (case a w of (Some e, w') \<Rightarrow> (Some e, w') | (None, w') \<Rightarrow> run_acts as w')"

section \<open>The statements\<close>

text \<open>The constructors of these components ask for the registry themselves.\<close>

fun needs_registry :: "component \<Rightarrow> bool" where
  "needs_registry MulticastReceiverC = True"
| "needs_registry MulticastSenderC = True"
| "needs_registry SubscriberManagerC = True"
| "needs_registry _ = False"

definition construct :: "(component \<Rightarrow> exn option) \<Rightarrow> component \<Rightarrow> world \<Rightarrow> unit result" where
  "construct ctor_exc c w =
     (case ctor_exc c of
        Some e \<Rightarrow> Inl e
      | None \<Rightarrow> if needs_registry c then instancePtr (slot w NodeInfoManagerC) else Inr ())"

definition init_component :: "(component \<Rightarrow> exn option) \<Rightarrow> component \<Rightarrow> act" where
  "init_component ctor_exc c w =
     (case initExternal (construct ctor_exc c w) (slot w c) of
        (Some e, _) \<Rightarrow> (Some e, w)
      | (None, s) \<Rightarrow> (None, emit (Constructed c) (w\<lparr>slot := (slot w)(c := s)\<rparr>)))"

text \<open>\<^verbatim>\<open>X::instance().f()\<close>, possibly with further instances used inside \<^verbatim>\<open>f\<close>.\<close>

fun use_instances :: "component list \<Rightarrow> node_event \<Rightarrow> act" where
  "use_instances [] ev w = (None, emit ev w)"
| "use_instances (c # cs) ev w =
     (case instancePtr (slot w c) of Inl e \<Rightarrow> (Some e, w) | Inr _ \<Rightarrow> use_instances cs ev w)"

definition destroy_component :: "component \<Rightarrow> act" where
  "destroy_component c w =
     (None, (if isInitialized (slot w c) then emit (Destroyed c) else (\<lambda>w. w))
              (w\<lparr>slot := (slot w)(c := destroy (slot w c))\<rparr>))"

section \<open>ZeroLanComNode\<close>

definition init_order :: "component list" where
  "init_order = [ThreadPoolC, ZMQContextC, NodeInfoManagerC, ServiceManagerC]"

definition init_order2 :: "component list" where
  "init_order2 = [MulticastReceiverC, MulticastSenderC, SubscriberManagerC]"

definition ZeroLanComNode_ctor :: "(component \<Rightarrow> exn option) \<Rightarrow> act" where
  "ZeroLanComNode_ctor ctor_exc = run_acts (
     map (init_component ctor_exc) init_order @
     [use_instances [NodeInfoManagerC, ServiceManagerC] SetServicePort] @
     map (init_component ctor_exc) init_order2 @
     [use_instances [ServiceManagerC] RegisteredGetNodeInfo,
      use_instances [ThreadPoolC] (Started ThreadPoolC),
      use_instances [MulticastSenderC, ThreadPoolC] (Started MulticastSenderC),
      use_instances [MulticastReceiverC, ThreadPoolC] (Started MulticastReceiverC),
      use_instances [ServiceManagerC, ThreadPoolC] (Started ServiceManagerC),
      use_instances [SubscriberManagerC, ThreadPoolC] (Started SubscriberManagerC),
      (\<lambda>w. (None, w\<lparr>running := True\<rparr>))])"

definition destroy_order :: "component list" where
  "destroy_order = [SubscriberManagerC, ServiceManagerC, MulticastReceiverC, MulticastSenderC,
     NodeInfoManagerC, ZMQContextC, ThreadPoolC]"

definition node_stop :: act where
  "node_stop = run_acts (
     [(\<lambda>w. (None, w\<lparr>running := False\<rparr>)),
      use_instances [MulticastSenderC] (Stopped MulticastSenderC),
      use_instances [MulticastReceiverC] (Stopped MulticastReceiverC),
      use_instances [ServiceManagerC] (Stopped ServiceManagerC),
      use_instances [SubscriberManagerC] (Stopped SubscriberManagerC),
      use_instances [ThreadPoolC] (Stopped ThreadPoolC)] @
     map destroy_component destroy_order @
     [(\<lambda>w. (None, w\<lparr>logger := logger_shutdown (logger w)\<rparr>))])"

definition ZeroLanComNode_dtor :: act where
  [simp]: "ZeroLanComNode_dtor = node_stop"

definition isRunning :: "world \<Rightarrow> bool" where
  "isRunning w = running w"

section \<open>init, shutdown and spin\<close>

text \<open>The outcome of the constructor is what \<^verbatim>\<open>initManaged\<close> is given.\<close>

definition zlc_init :: "(component \<Rightarrow> exn option) \<Rightarrow> act" where
  "zlc_init ctor_exc w =
     (let w1 = w\<lparr>logger := setLevel INFO (logger_init [] False ''logs'' (logger w))\<rparr>
      in if isInitialized (node w1) then (fst (initManaged (Inr ()) (node w1)), w1)
         else case ZeroLanComNode_ctor ctor_exc w1 of
                (Some e, w2) \<Rightarrow> (Some e, w2)
              | (None, w2) \<Rightarrow> (None, w2\<lparr>node := snd (initManaged (Inr ()) (node w2))\<rparr>))"

text \<open>
  \<^verbatim>\<open>shutdown\<close> destroys the node, whose destructor calls \<^verbatim>\<open>stop\<close>. An exception there ends
  the program: \<open>None\<close>.
\<close>

definition zlc_shutdown :: "world \<Rightarrow> world option" where
  "zlc_shutdown w =
     (if isInitialized (node w)
      then (case ZeroLanComNode_dtor w of
              (Some e, w') \<Rightarrow> None
            | (None, w') \<Rightarrow> Some (w'\<lparr>node := destroy (node w')\<rparr>))
      else Some w)"

text \<open>
  \<^verbatim>\<open>spin\<close>: \<open>ws k\<close> is the state at the \<open>k\<close>-th test of the loop. \<open>None\<close> is a call that
  does not return.
\<close>

partial_function (option) spin_loop :: "(nat \<Rightarrow> world) \<Rightarrow> nat \<Rightarrow> (exn option \<times> world) option" where
  "spin_loop ws k = (if isRunning (ws k) then spin_loop ws (Suc k) else Some (node_stop (ws k)))"

definition spin :: "(nat \<Rightarrow> world) \<Rightarrow> (exn option \<times> world) option" where
  "spin ws =
     (case instancePtr (node (ws 0)) of
        Inl e \<Rightarrow> Some (Some e, ws 0)
      | Inr _ \<Rightarrow> spin_loop ws 0)"

section \<open>What the statements do\<close>

definition up :: "unit Singleton" where
  "up = \<lparr>sg_instance = Some (), sg_unique = False\<rparr>"

lemma up_simps [simp]:
  "sg_instance up = Some ()" "sg_instance sg_none = None" "isInitialized up" "\<not> isInitialized sg_none"
  "instancePtr up = Inr ()" "destroy up = sg_none" "destroy sg_none = sg_none"
  "instancePtr sg_none = Inl (LogicError ''Singleton not initialized. Call init() first.'')"
  "initExternal (Inr ()) sg_none = (None, up)"
  "initExternal c up = (Some (LogicError ''Singleton already initialized.''), up)"
  "initExternal (Inl e) sg_none = (Some e, sg_none)"
  by (simp_all add: up_def sg_none_def isInitialized_def instancePtr_def destroy_def initExternal_def)

definition fresh :: "world \<Rightarrow> bool" where
  "fresh w \<longleftrightarrow> (\<forall>c. slot w c = sg_none)"

lemma init_component_ok:
  "slot w c = sg_none \<Longrightarrow> ctor_exc c = None \<Longrightarrow> (needs_registry c \<Longrightarrow> slot w NodeInfoManagerC = up) \<Longrightarrow>
   init_component ctor_exc c w = (None, w\<lparr>slot := (slot w)(c := up), events := events w @ [Constructed c]\<rparr>)"
  by (cases "needs_registry c") (simp_all add: init_component_def construct_def emit_def)

lemma init_component_throws:
  "slot w c = sg_none \<Longrightarrow> ctor_exc c = Some e \<Longrightarrow> init_component ctor_exc c w = (Some e, w)"
  by (simp add: init_component_def construct_def)

lemma init_component_again:
  "slot w c = up \<Longrightarrow> init_component ctor_exc c w = (Some (LogicError ''Singleton already initialized.''), w)"
  by (simp add: init_component_def)

text \<open>A destroyed component can be initialised again, by the contract of the singletons.\<close>

lemma init_component_after_destroy:
  assumes "ctor_exc c = None" and "\<not> needs_registry c" and "slot w c = destroy s"
  shows "fst (init_component ctor_exc c w) = None"
  using extern.restart [of "()" s] assms by (auto simp: init_component_def construct_def)

lemma use_instances_ok:
  "(\<And>c. c \<in> set cs \<Longrightarrow> slot w c = up) \<Longrightarrow> use_instances cs ev w = (None, w\<lparr>events := events w @ [ev]\<rparr>)"
  by (induction cs) (simp_all add: emit_def)

lemma run_acts_append:
  "run_acts (as @ bs) w = (case run_acts as w of (Some e, w') \<Rightarrow> (Some e, w') | (None, w') \<Rightarrow> run_acts bs w')"
  by (induction as arbitrary: w) (auto split: prod.splits option.splits)

lemma destroy_component_up:
  "slot w c = up \<Longrightarrow>
   destroy_component c w = (None, w\<lparr>slot := (slot w)(c := sg_none), events := events w @ [Destroyed c]\<rparr>)"
  by (simp add: destroy_component_def emit_def)

definition start_events :: "node_event list" where
  "start_events =
     map Constructed init_order @ [SetServicePort] @ map Constructed init_order2 @ [RegisteredGetNodeInfo] @
     map Started [ThreadPoolC, MulticastSenderC, MulticastReceiverC, ServiceManagerC, SubscriberManagerC]"

definition stop_events :: "node_event list" where
  "stop_events =
     map Stopped [MulticastSenderC, MulticastReceiverC, ServiceManagerC, SubscriberManagerC, ThreadPoolC] @
     map Destroyed destroy_order"

lemma all_components: "(\<forall>c. P c) \<longleftrightarrow> P ThreadPoolC \<and> P ZMQContextC \<and> P NodeInfoManagerC \<and> P ServiceManagerC \<and>
    P MulticastReceiverC \<and> P MulticastSenderC \<and> P SubscriberManagerC"
  by (metis component.exhaust)

lemma init_all_ok:
  assumes "distinct cs" and "\<forall>c \<in> set cs. slot w c = sg_none \<and> ctor_exc c = None"
    and "\<forall>c \<in> set cs. needs_registry c \<longrightarrow> slot w NodeInfoManagerC = up"
  shows "run_acts (map (init_component ctor_exc) cs) w =
     (None, w\<lparr>slot := (\<lambda>c. if c \<in> set cs then up else slot w c), events := events w @ map Constructed cs\<rparr>)"
  using assms
proof (induction cs arbitrary: w)
  case (Cons c cs)
  let ?w = "w\<lparr>slot := (slot w)(c := up), events := events w @ [Constructed c]\<rparr>"
  have "init_component ctor_exc c w = (None, ?w)" using Cons.prems by (intro init_component_ok) auto
  moreover have "run_acts (map (init_component ctor_exc) cs) ?w =
      (None, ?w\<lparr>slot := (\<lambda>c. if c \<in> set cs then up else slot ?w c), events := events ?w @ map Constructed cs\<rparr>)"
    using Cons.prems by (intro Cons.IH) auto
  moreover have "(\<lambda>d. if d \<in> set cs then up else slot ?w d) = (\<lambda>d. if d \<in> set (c # cs) then up else slot w d)"
    by auto
  ultimately show ?case by simp
qed simp

lemma use_all_ok:
  assumes "\<forall>c. slot w c = up"
  shows "run_acts (map (\<lambda>(cs, ev). use_instances cs ev) us) w = (None, w\<lparr>events := events w @ map snd us\<rparr>)"
  using assms
proof (induction us arbitrary: w)
  case (Cons u us)
  let ?w = "w\<lparr>events := events w @ [snd u]\<rparr>"
  have "use_instances (fst u) (snd u) w = (None, ?w)" using Cons.prems by (intro use_instances_ok) simp
  moreover have "run_acts (map (\<lambda>(cs, ev). use_instances cs ev) us) ?w =
      (None, ?w\<lparr>events := events ?w @ map snd us\<rparr>)"
    using Cons.prems by (intro Cons.IH) simp
  ultimately show ?case by (cases u) simp
qed simp

lemma destroy_all_up:
  assumes "distinct cs" and "\<forall>c \<in> set cs. slot w c = up"
  shows "run_acts (map destroy_component cs) w =
     (None, w\<lparr>slot := (\<lambda>c. if c \<in> set cs then sg_none else slot w c), events := events w @ map Destroyed cs\<rparr>)"
  using assms
proof (induction cs arbitrary: w)
  case (Cons c cs)
  let ?w = "w\<lparr>slot := (slot w)(c := sg_none), events := events w @ [Destroyed c]\<rparr>"
  have "destroy_component c w = (None, ?w)" using Cons.prems by (intro destroy_component_up) simp
  moreover have "run_acts (map destroy_component cs) ?w =
      (None, ?w\<lparr>slot := (\<lambda>c. if c \<in> set cs then sg_none else slot ?w c), events := events ?w @ map Destroyed cs\<rparr>)"
    using Cons.prems by (intro Cons.IH) auto
  moreover have "(\<lambda>d. if d \<in> set cs then sg_none else slot ?w d) = (\<lambda>d. if d \<in> set (c # cs) then sg_none else slot w d)"
    by auto
  ultimately show ?case by simp
qed simp

lemma ctor_ok:
  assumes "fresh w"
  shows "ZeroLanComNode_ctor (\<lambda>_. None) w =
     (None, w\<lparr>slot := (\<lambda>_. up), running := True, events := events w @ start_events\<rparr>)"
proof -
  let ?w1 = "w\<lparr>slot := (\<lambda>c. if c \<in> set init_order then up else slot w c), events := events w @ map Constructed init_order\<rparr>"
  let ?w2 = "?w1\<lparr>events := events ?w1 @ [SetServicePort]\<rparr>"
  let ?w3 = "?w2\<lparr>slot := (\<lambda>c. if c \<in> set init_order2 then up else slot ?w2 c),
    events := events ?w2 @ map Constructed init_order2\<rparr>"
  let ?us = "[([ServiceManagerC], RegisteredGetNodeInfo), ([ThreadPoolC], Started ThreadPoolC),
    ([MulticastSenderC, ThreadPoolC], Started MulticastSenderC),
    ([MulticastReceiverC, ThreadPoolC], Started MulticastReceiverC),
    ([ServiceManagerC, ThreadPoolC], Started ServiceManagerC),
    ([SubscriberManagerC, ThreadPoolC], Started SubscriberManagerC)]"
  have 1: "run_acts (map (init_component (\<lambda>_. None)) init_order) w = (None, ?w1)"
    using assms by (intro init_all_ok) (auto simp: init_order_def fresh_def)
  have 2: "use_instances [NodeInfoManagerC, ServiceManagerC] SetServicePort ?w1 = (None, ?w2)"
    by (intro use_instances_ok) (auto simp: init_order_def)
  have 3: "run_acts (map (init_component (\<lambda>_. None)) init_order2) ?w2 = (None, ?w3)"
    using assms by (intro init_all_ok) (auto simp: init_order_def init_order2_def fresh_def)
  have slots: "slot ?w3 = (\<lambda>_. up)"
    by (simp add: fun_eq_iff all_components init_order_def init_order2_def)
  have 4: "run_acts (map (\<lambda>(cs, ev). use_instances cs ev) ?us) ?w3 = (None, ?w3\<lparr>events := events ?w3 @ map snd ?us\<rparr>)"
    using slots by (intro use_all_ok) simp
  have "ZeroLanComNode_ctor (\<lambda>_. None) w = run_acts (map (init_component (\<lambda>_. None)) init_order @
      use_instances [NodeInfoManagerC, ServiceManagerC] SetServicePort #
      map (init_component (\<lambda>_. None)) init_order2 @ map (\<lambda>(cs, ev). use_instances cs ev) ?us @
      [(\<lambda>w. (None, w\<lparr>running := True\<rparr>))]) w"
    by (simp add: ZeroLanComNode_ctor_def)
  also have "\<dots> = (None, ?w3\<lparr>events := events ?w3 @ map snd ?us, running := True\<rparr>)"
    unfolding run_acts_append 1 run_acts.simps(2) prod.case option.case 2 3 4 by simp
  also have "\<dots> = (None, w\<lparr>slot := (\<lambda>_. up), running := True, events := events w @ start_events\<rparr>)"
    using slots by (simp add: start_events_def)
  finally show ?thesis .
qed

lemma node_stop_ok:
  assumes "\<forall>c. slot w c = up"
  shows "node_stop w = (None, w\<lparr>slot := (\<lambda>_. sg_none), running := False, logger := logger_shutdown (logger w),
     events := events w @ stop_events\<rparr>)"
proof -
  let ?us = "[([MulticastSenderC], Stopped MulticastSenderC), ([MulticastReceiverC], Stopped MulticastReceiverC),
    ([ServiceManagerC], Stopped ServiceManagerC), ([SubscriberManagerC], Stopped SubscriberManagerC),
    ([ThreadPoolC], Stopped ThreadPoolC)]"
  let ?w1 = "w\<lparr>running := False\<rparr>"
  let ?w2 = "?w1\<lparr>events := events ?w1 @ map snd ?us\<rparr>"
  have 1: "run_acts (map (\<lambda>(cs, ev). use_instances cs ev) ?us) ?w1 = (None, ?w2)"
    using assms by (intro use_all_ok) simp
  have 2: "run_acts (map destroy_component destroy_order) ?w2 =
      (None, ?w2\<lparr>slot := (\<lambda>c. if c \<in> set destroy_order then sg_none else slot ?w2 c),
         events := events ?w2 @ map Destroyed destroy_order\<rparr>)"
    using assms by (intro destroy_all_up) (simp_all add: destroy_order_def)
  have 3: "(\<lambda>c. if c \<in> set destroy_order then sg_none else slot ?w2 c) = (\<lambda>_. sg_none)"
    by (simp add: fun_eq_iff all_components destroy_order_def)
  have "node_stop w = run_acts ((\<lambda>w. (None, w\<lparr>running := False\<rparr>)) # map (\<lambda>(cs, ev). use_instances cs ev) ?us @
      map destroy_component destroy_order @ [(\<lambda>w. (None, w\<lparr>logger := logger_shutdown (logger w)\<rparr>))]) w"
    by (simp add: node_stop_def)
  also have "\<dots> = (None, w\<lparr>slot := (\<lambda>_. sg_none), running := False, logger := logger_shutdown (logger w),
     events := events w @ stop_events\<rparr>)"
    unfolding run_acts.simps(2) prod.case option.case run_acts_append 1 2 3 by (simp add: stop_events_def)
  finally show ?thesis .
qed

lemma node_stop_down:
  assumes "slot w MulticastSenderC = sg_none"
  shows "node_stop w =
     (Some (LogicError ''Singleton not initialized. Call init() first.''), w\<lparr>running := False\<rparr>)"
  using assms by (simp add: node_stop_def)

lemma not_initialized_shutdown [simp]: "\<not> initialized (logger_shutdown l)"
  by (simp add: logger_shutdown_def call_def)

section \<open>Failed construction\<close>

lemma run_acts_stops:
  "run_acts as w = (Some e, w') \<Longrightarrow> run_acts (as @ bs) w = (Some e, w')"
  by (simp add: run_acts_append)

lemma init_all_throws:
  assumes "run_acts (map (init_component ctor_exc) cs) w = (None, w1)" and "slot w1 c = sg_none" and "ctor_exc c = Some e"
  shows "run_acts (map (init_component ctor_exc) (cs @ c # ds)) w = (Some e, w1)"
  using assms by (simp add: run_acts_append init_component_throws)

lemma ctor_already_up:
  assumes "slot w ThreadPoolC = up"
  shows "ZeroLanComNode_ctor ctor_exc w = (Some (LogicError ''Singleton already initialized.''), w)"
  using assms by (simp add: ZeroLanComNode_ctor_def init_order_def init_component_again)

lemma ctor_service_throws:
  assumes "fresh w" and "ctor_exc ServiceManagerC = Some e"
    and "\<forall>c \<in> {ThreadPoolC, ZMQContextC, NodeInfoManagerC}. ctor_exc c = None"
  shows "\<exists>w1. ZeroLanComNode_ctor ctor_exc w = (Some e, w1) \<and> slot w1 ThreadPoolC = up \<and> node w1 = node w"
proof -
  let ?cs = "[ThreadPoolC, ZMQContextC, NodeInfoManagerC]"
  let ?w1 = "w\<lparr>slot := (\<lambda>c. if c \<in> set ?cs then up else slot w c), events := events w @ map Constructed ?cs\<rparr>"
  have "run_acts (map (init_component ctor_exc) ?cs) w = (None, ?w1)"
    using assms by (intro init_all_ok) (auto simp: fresh_def)
  moreover have "slot ?w1 ServiceManagerC = sg_none" using assms(1) by (simp add: fresh_def)
  ultimately have "run_acts (map (init_component ctor_exc) (?cs @ ServiceManagerC # [])) w = (Some e, ?w1)"
    using assms(2) by (rule init_all_throws)
  then have "run_acts (map (init_component ctor_exc) init_order) w = (Some e, ?w1)"
    by (simp add: init_order_def del: run_acts.simps)
  then have "ZeroLanComNode_ctor ctor_exc w = (Some e, ?w1)"
    unfolding ZeroLanComNode_ctor_def by (rule run_acts_stops)
  then show ?thesis by simp
qed

section \<open>Leaving the loop of spin\<close>

lemma spin_loop_returns:
  "(\<And>j. j < n \<Longrightarrow> isRunning (ws (k + j))) \<Longrightarrow> \<not> isRunning (ws (k + n)) \<Longrightarrow>
   spin_loop ws k = Some (node_stop (ws (k + n)))"
proof (induction n arbitrary: k)
  case 0
  then show ?case by (subst spin_loop.simps) simp
next
  case (Suc n)
  have "isRunning (ws k)" using Suc.prems(1) [of 0] by simp
  moreover have "isRunning (ws (Suc k + j))" if "j < n" for j using Suc.prems(1) [of "Suc j"] that by simp
  moreover have "\<not> isRunning (ws (Suc k + n))" using Suc.prems(2) by simp
  ultimately show ?case using Suc.IH [of "Suc k"] by (subst spin_loop.simps) simp
qed

section \<open>Properties\<close>

text \<open>One event after another.\<close>

definition before :: "node_event \<Rightarrow> node_event \<Rightarrow> node_event list \<Rightarrow> bool" where
  "before x y evs \<longleftrightarrow> y \<in> set (tl (dropWhile (\<lambda>z. z \<noteq> x) evs))"

definition uses :: "(component \<times> component) list" where
  "uses = [(ServiceManagerC, ZMQContextC), (SubscriberManagerC, ZMQContextC), (SubscriberManagerC, NodeInfoManagerC),
     (MulticastReceiverC, NodeInfoManagerC), (MulticastSenderC, NodeInfoManagerC), (ServiceManagerC, ThreadPoolC),
     (SubscriberManagerC, ThreadPoolC), (MulticastReceiverC, ThreadPoolC), (MulticastSenderC, ThreadPoolC)]"

text \<open>
  C29: The life of a node: when no constructor throws, starting from a process without singletons,
  all seven are constructed and started and the node runs; \<^verbatim>\<open>stop\<close> then leaves no
  singleton and no logger, and a new node can be constructed. A component is constructed after
  the ones it uses and destroyed before them, and the pool's workers are joined before anything
  is destroyed. A second \<^verbatim>\<open>stop\<close> throws.
\<close>

theorem node_lifecycle:
  assumes "fresh w"
  shows "\<exists>w1 w2. ZeroLanComNode_ctor (\<lambda>_. None) w = (None, w1) \<and> isRunning w1 \<and> (\<forall>c. isInitialized (slot w1 c)) \<and>
     node_stop w1 = (None, w2) \<and> \<not> isRunning w2 \<and> fresh w2 \<and> \<not> initialized (logger w2) \<and>
     (\<exists>up_evs down_evs. events w2 = events w @ up_evs @ down_evs \<and>
        (\<forall>(c, d) \<in> set uses. before (Constructed d) (Constructed c) up_evs \<and> before (Destroyed c) (Destroyed d) down_evs) \<and>
        (\<forall>c. before (Stopped ThreadPoolC) (Destroyed c) down_evs)) \<and>
     node_stop w2 = (Some (LogicError ''Singleton not initialized. Call init() first.''), w2) \<and>
     fst (ZeroLanComNode_ctor (\<lambda>_. None) w2) = None"
proof -
  define w1 where "w1 = w\<lparr>slot := (\<lambda>_. up), running := True, events := events w @ start_events\<rparr>"
  define w2 where "w2 = w1\<lparr>slot := (\<lambda>_. sg_none), running := False, logger := logger_shutdown (logger w1),
     events := events w1 @ stop_events\<rparr>"
  have c: "ZeroLanComNode_ctor (\<lambda>_. None) w = (None, w1)" using ctor_ok [OF assms] by (simp add: w1_def)
  have st: "node_stop w1 = (None, w2)" using node_stop_ok [of w1] by (simp add: w1_def w2_def)
  have fresh2: "fresh w2" by (simp add: fresh_def w2_def)
  have "node_stop w2 = (Some (LogicError ''Singleton not initialized. Call init() first.''), w2\<lparr>running := False\<rparr>)"
    using fresh2 by (intro node_stop_down) (simp add: fresh_def)
  moreover have "w2\<lparr>running := False\<rparr> = w2" by (simp add: w2_def)
  moreover have "\<forall>(c, d) \<in> set uses. before (Constructed d) (Constructed c) start_events \<and>
      before (Destroyed c) (Destroyed d) stop_events"
    by (simp add: uses_def before_def start_events_def stop_events_def init_order_def init_order2_def destroy_order_def)
  moreover have "\<forall>c. before (Stopped ThreadPoolC) (Destroyed c) stop_events"
    by (simp add: all_components before_def stop_events_def destroy_order_def)
  moreover have "events w2 = events w @ start_events @ stop_events" by (simp add: w1_def w2_def)
  moreover have "isRunning w1" "\<forall>c. isInitialized (slot w1 c)" "\<not> isRunning w2" "\<not> initialized (logger w2)"
    by (simp_all add: isRunning_def w1_def w2_def)
  ultimately show ?thesis using c st fresh2 ctor_ok [OF fresh2] by (intro exI [of _ w1] exI [of _ w2]) auto
qed

definition process_start :: world where
  "process_start = \<lparr>slot = (\<lambda>_. sg_none), node = sg_none, running = False,
     logger = \<lparr>initialized = False, spdlog = []\<rparr>, events = []\<rparr>"

theorem node_lifecycle_witness:
  "\<exists>w1 w2. ZeroLanComNode_ctor (\<lambda>_. None) process_start = (None, w1) \<and> node_stop w1 = (None, w2) \<and> fresh w2"
  using node_lifecycle [of process_start] by (auto simp: fresh_def process_start_def)

text \<open>
  A failed \<^verbatim>\<open>init\<close> cannot be repaired: when a later constructor throws, for example because
  the service socket cannot be bound, the singletons constructed before it stay, \<^verbatim>\<open>shutdown\<close>
  does nothing because the node itself was never stored, and every further \<^verbatim>\<open>init\<close> is refused.
\<close>

lemma failed_init_is_final:
  assumes "fresh w" and "node w = sg_none" and "ctor_exc ServiceManagerC = Some e"
    and "\<forall>c \<in> {ThreadPoolC, ZMQContextC, NodeInfoManagerC}. ctor_exc c = None"
  shows "\<exists>w1. zlc_init ctor_exc w = (Some e, w1) \<and> zlc_shutdown w1 = Some w1 \<and>
     fst (zlc_init (\<lambda>_. None) w1) = Some (LogicError ''Singleton already initialized.'')"
proof -
  let ?w = "w\<lparr>logger := setLevel INFO (logger_init [] False ''logs'' (logger w))\<rparr>"
  have "fresh ?w" using assms(1) by (simp add: fresh_def)
  from ctor_service_throws [OF this assms(3,4)] obtain w1 where
    w1: "ZeroLanComNode_ctor ctor_exc ?w = (Some e, w1)" "slot w1 ThreadPoolC = up" "node w1 = node ?w" by blast
  then have "zlc_init ctor_exc w = (Some e, w1)" using assms(2) by (simp add: zlc_init_def Let_def)
  moreover have "zlc_shutdown w1 = Some w1" using w1(3) assms(2) by (simp add: zlc_shutdown_def)
  moreover have "fst (zlc_init (\<lambda>_. None) w1) = Some (LogicError ''Singleton already initialized.'')"
    using w1(2,3) assms(2) by (simp add: zlc_init_def Let_def ctor_already_up)
  ultimately show ?thesis by blast
qed

lemma failed_init_is_final_witness:
  "\<exists>w1. zlc_init (\<lambda>c. if c = ServiceManagerC then Some (ZmqError 98 ''in use'') else None) process_start =
     (Some (ZmqError 98 ''in use''), w1) \<and> zlc_shutdown w1 = Some w1"
  using failed_init_is_final [of process_start "\<lambda>c. if c = ServiceManagerC then Some (ZmqError 98 ''in use'') else None"]
  by (auto simp: fresh_def process_start_def)

text \<open>
  \<^verbatim>\<open>spin\<close> stops a node that is already stopped: its loop is left only when the node is no
  longer running, and if that is because a \<^verbatim>\<open>stop\<close> has completed, the final
  \<^verbatim>\<open>stop\<close> of \<^verbatim>\<open>spin\<close> throws; the node is still stored, so a \<^verbatim>\<open>shutdown\<close>
  after it throws in a destructor and ends the program.
\<close>

lemma spin_stops_twice:
  assumes "\<forall>j < n. isRunning (ws j)" and "\<forall>c. slot w c = up" and "isInitialized (node (ws 0))"
    and "isInitialized (node w)" and "ws n = snd (node_stop w)"
  shows "\<exists>w'. spin ws = Some (Some (LogicError ''Singleton not initialized. Call init() first.''), w') \<and>
     zlc_shutdown w' = None"
proof -
  let ?e = "LogicError ''Singleton not initialized. Call init() first.''"
  have wn: "slot (ws n) = (\<lambda>_. sg_none)" "running (ws n) = False" "node (ws n) = node w"
    using assms(5) node_stop_ok [OF assms(2)] by simp_all
  then have "spin_loop ws 0 = Some (node_stop (ws n))"
    using spin_loop_returns [of n ws 0] assms(1) by (simp add: isRunning_def)
  moreover have "node_stop (ws n) = (Some ?e, (ws n)\<lparr>running := False\<rparr>)"
    using wn by (intro node_stop_down) simp
  ultimately have "spin ws = Some (Some ?e, (ws n)\<lparr>running := False\<rparr>)"
    using assms(3) by (auto simp: spin_def instancePtr_def isInitialized_def)
  moreover have "zlc_shutdown ((ws n)\<lparr>running := False\<rparr>) = None"
    using wn assms(4) node_stop_down [of "(ws n)\<lparr>running := False\<rparr>"] by (simp add: zlc_shutdown_def)
  ultimately show ?thesis by blast
qed

definition node_up :: world where
  "node_up = process_start\<lparr>slot := (\<lambda>_. up), node := \<lparr>sg_instance = Some (), sg_unique = True\<rparr>, running := True\<rparr>"

lemma spin_stops_twice_witness:
  "\<exists>w'. spin (\<lambda>k. if k = 0 then node_up else snd (node_stop node_up)) =
     Some (Some (LogicError ''Singleton not initialized. Call init() first.''), w')"
proof -
  have up: "\<forall>c. slot node_up c = up" by (simp add: node_up_def)
  have "isInitialized (node node_up)" "isRunning node_up"
    by (simp_all add: node_up_def isInitialized_def isRunning_def)
  then show ?thesis
    using spin_stops_twice [OF _ up, of 1 "\<lambda>k. if k = 0 then node_up else snd (node_stop node_up)"] by auto
qed

end
