(* ===== verification/Api.thy ===== *)
theory Api
  imports Client Subscriber_Manager
begin

text \<open>
  The user's calls of \<^verbatim>\<open>zerolancom.hpp\<close> and \<^verbatim>\<open>zerolancom.cpp\<close> that are not about
  the life of the node: registering services and subscribers, waiting for a service and
  requesting it.
\<close>

section \<open>waitForService\<close>

text \<open>
  \<open>avail k\<close> says whether the \<open>k\<close>-th lookup finds the service. The waited time is a
  32-bit \<^verbatim>\<open>int\<close>; an overflow of it is undefined. \<open>None\<close> is a call that does not return.
\<close>

datatype wait_outcome = Available nat | TimedOut nat | IntOverflow

partial_function (option) wait_loop ::
  "(nat \<Rightarrow> bool) \<Rightarrow> int \<Rightarrow> int \<Rightarrow> nat \<Rightarrow> int \<Rightarrow> wait_outcome option" where
  "wait_loop avail max_wait_ms check_interval_ms k waited_ms =
     (if waited_ms < max_wait_ms
      then if avail k then Some (Available k)
           else if \<not> int_range (waited_ms + check_interval_ms) then Some IntOverflow
           else wait_loop avail max_wait_ms check_interval_ms (Suc k) (waited_ms + check_interval_ms)
      else Some (TimedOut k))"

text \<open>\<open>nims k\<close> is the registry at the \<open>k\<close>-th lookup.\<close>

definition waitForService ::
  "(NodeInfo hash_map \<Rightarrow> NodeInfo hash_map) \<Rightarrow> (nat \<Rightarrow> 'w NodeInfoManager) \<Rightarrow> string \<Rightarrow> int \<Rightarrow> int
     \<Rightarrow> wait_outcome option" where
  "waitForService iter nims service_name max_wait_ms check_interval_ms =
     wait_loop (\<lambda>k. getServiceInfo iter service_name (nims k) \<noteq> None) max_wait_ms check_interval_ms 0 0"

text \<open>
  \<^verbatim>\<open>request\<close>: the wait with its default times, then the request whatever the wait found;
  \<open>nim\<close> and \<open>nim'\<close> are the registry at the lookup and at the use of its result.
\<close>

definition request ::
  "(NodeInfo hash_map \<Rightarrow> NodeInfo hash_map) \<Rightarrow> (nat \<Rightarrow> 'w NodeInfoManager) \<Rightarrow> 'w NodeInfoManager
     \<Rightarrow> 'w NodeInfoManager \<Rightarrow> req_socket \<Rightarrow> ('q \<Rightarrow> bytes result) \<Rightarrow> (ByteView \<Rightarrow> 'r \<Rightarrow> 'r result) \<Rightarrow> string
     \<Rightarrow> 'q \<Rightarrow> 'r \<Rightarrow> 'r result option" where
  "request iter nims nim nim' sock enc dec service_name req res =
     (case waitForService iter nims service_name 1000 10 of
        None \<Rightarrow> None
      | Some _ \<Rightarrow> Some (zlcRequest iter nim nim' sock enc dec service_name req res))"

text \<open>The overload without a result.\<close>

definition request_Empty ::
  "(NodeInfo hash_map \<Rightarrow> NodeInfo hash_map) \<Rightarrow> (nat \<Rightarrow> 'w NodeInfoManager) \<Rightarrow> 'w NodeInfoManager
     \<Rightarrow> 'w NodeInfoManager \<Rightarrow> req_socket \<Rightarrow> ('q \<Rightarrow> bytes result) \<Rightarrow> (ByteView \<Rightarrow> Empty \<Rightarrow> Empty result) \<Rightarrow> string
     \<Rightarrow> 'q \<Rightarrow> Empty result option" where
  "request_Empty iter nims nim nim' sock enc dec service_name req =
     request iter nims nim nim' sock enc dec service_name req Empty"

section \<open>Registration\<close>

definition registerServiceHandler ::
  "(ByteView \<Rightarrow> 'q result) \<Rightarrow> ('r \<Rightarrow> bytes result) \<Rightarrow> string \<Rightarrow> ('q \<Rightarrow> 's \<Rightarrow> 'r result \<times> 's)
     \<Rightarrow> 's ServiceManager \<Rightarrow> 'w NodeInfoManager \<Rightarrow> 's ServiceManager \<times> 'w NodeInfoManager" where
  "registerServiceHandler dec enc service_name func m nim =
     (registerHandler dec enc service_name func m,
      registerLocalService service_name (word_of_int (sm_service_port m)) nim)"

definition registerServiceHandler_member ::
  "(ByteView \<Rightarrow> 'q result) \<Rightarrow> ('r \<Rightarrow> bytes result) \<Rightarrow> string \<Rightarrow> ('c \<Rightarrow> 'q \<Rightarrow> 's \<Rightarrow> 'r result \<times> 's) \<Rightarrow> 'c
     \<Rightarrow> 's ServiceManager \<Rightarrow> 'w NodeInfoManager \<Rightarrow> 's ServiceManager \<times> 'w NodeInfoManager" where
  "registerServiceHandler_member dec enc service_name func inst m nim =
     (registerHandler_member dec enc service_name func inst m,
      registerLocalService service_name (word_of_int (sm_service_port m)) nim)"

definition registerSubscriberHandler ::
  "zmq_answer \<Rightarrow> exn option \<Rightarrow> (NodeInfo hash_map \<Rightarrow> NodeInfo hash_map) \<Rightarrow> 'w NodeInfoManager
     \<Rightarrow> (ByteView \<Rightarrow> 'm result) \<Rightarrow> string \<Rightarrow> ('m \<Rightarrow> 'u \<Rightarrow> exn option \<times> 'u) \<Rightarrow> 'u SubscriberManager
     \<Rightarrow> exn option \<times> 'u SubscriberManager" where
  "registerSubscriberHandler zmq create_exc iter nim dec topic callback m =
     register_subscriber zmq create_exc iter nim topic (typed_callback dec callback) m"

section \<open>The wait\<close>

lemma wait_loop_skip:
  assumes "\<And>j. j < n \<Longrightarrow> int (k + j) * iv < mx \<and> \<not> avail (k + j)"
    and "0 \<le> iv" and "mx + iv < 2 ^ 31"
  shows "wait_loop avail mx iv k (int k * iv) = wait_loop avail mx iv (k + n) (int (k + n) * iv)"
  using assms(1)
proof (induction n)
  case (Suc n)
  let ?w = "int (k + n) * iv"
  have w: "?w < mx" "\<not> avail (k + n)" using Suc.prems [of n] by simp_all
  have "0 \<le> ?w" using assms(2) by simp
  then have "int_range (?w + iv)" using w(1) assms(2,3) unfolding int_range_def by linarith
  with w have "wait_loop avail mx iv (k + n) ?w = wait_loop avail mx iv (Suc (k + n)) (?w + iv)"
    by (subst wait_loop.simps) simp
  also have "?w + iv = int (k + Suc n) * iv" by (simp add: algebra_simps)
  finally show ?case using Suc by simp
qed simp

lemma wait_loop_zero: "wait_loop avail mx 0 k 0 = Some y \<Longrightarrow> 0 < mx \<Longrightarrow> \<exists>j. avail j"
proof -
  have "wait_loop avail mx iv k w = Some y \<Longrightarrow> w = 0 \<and> iv = 0 \<and> 0 < mx \<longrightarrow> (\<exists>j. avail j)" for iv w
    by (erule wait_loop.raw_induct [rotated]) (auto simp: int_range_def split: if_splits)
  then show "wait_loop avail mx 0 k 0 = Some y \<Longrightarrow> 0 < mx \<Longrightarrow> \<exists>j. avail j" by blast
qed

lemma wait_loop_found:
  assumes "avail n" and "\<And>j. j < n \<Longrightarrow> \<not> avail j" and "int n * iv < mx" and "0 \<le> iv" and "mx + iv < 2 ^ 31"
  shows "wait_loop avail mx iv 0 0 = Some (Available n)"
proof -
  have "int j * iv < mx" if "j < n" for j
    using mult_right_mono [of "int j" "int n" iv] that assms(3,4) by simp
  then have "wait_loop avail mx iv 0 0 = wait_loop avail mx iv n (int n * iv)"
    using wait_loop_skip [of n 0 iv mx avail] assms by simp
  also have "\<dots> = Some (Available n)" using assms(1,3) by (subst wait_loop.simps) simp
  finally show ?thesis .
qed

text \<open>The number of tests that fit into the time.\<close>

lemma tests_bound:
  assumes "0 < iv"
  obtains n where "mx \<le> int n * iv" and "\<And>j. j < n \<Longrightarrow> int j * iv < mx"
proof -
  let ?P = "\<lambda>n. mx \<le> int n * iv"
  have "mx \<le> int (nat mx) * iv" using assms
  proof (cases "0 \<le> mx")
    case True
    then show ?thesis using mult_left_mono [of 1 iv mx] assms by simp
  next
    case False
    then show ?thesis using assms by simp
  qed
  then have "?P (LEAST n. ?P n)" by (rule LeastI)
  moreover have "int j * iv < mx" if "j < (LEAST n. ?P n)" for j
    using not_less_Least [OF that] by simp
  ultimately show thesis by (rule that)
qed

section \<open>Properties\<close>

text \<open>
  C39: \<^verbatim>\<open>waitForService\<close> with a positive interval always returns: at the first lookup that finds
  the service if that comes before the time is up, otherwise after all lookups that fit into
  the time. With an interval of 0 it never returns while the service is missing.
\<close>

theorem waitForService_returns:
  assumes "0 < iv" and "mx + iv < 2 ^ 31"
  shows "(\<forall>n. getServiceInfo iter nm (nims n) \<noteq> None \<and> (\<forall>j < n. getServiceInfo iter nm (nims j) = None) \<and>
            int n * iv < mx \<longrightarrow> waitForService iter nims nm mx iv = Some (Available n)) \<and>
     ((\<forall>n. int n * iv < mx \<longrightarrow> getServiceInfo iter nm (nims n) = None) \<longrightarrow>
        (\<exists>n. waitForService iter nims nm mx iv = Some (TimedOut n) \<and> mx \<le> int n * iv \<and>
             (\<forall>j < n. int j * iv < mx))) \<and>
     (0 < mx \<and> (\<forall>n. getServiceInfo iter nm (nims n) = None) \<longrightarrow> waitForService iter nims nm mx 0 = None)"
proof (intro conjI allI impI)
  fix n
  assume "getServiceInfo iter nm (nims n) \<noteq> None \<and> (\<forall>j < n. getServiceInfo iter nm (nims j) = None) \<and> int n * iv < mx"
  then show "waitForService iter nims nm mx iv = Some (Available n)"
    unfolding waitForService_def using assms by (intro wait_loop_found) auto
next
  assume none: "\<forall>n. int n * iv < mx \<longrightarrow> getServiceInfo iter nm (nims n) = None"
  obtain n where n: "mx \<le> int n * iv" "\<And>j. j < n \<Longrightarrow> int j * iv < mx" using tests_bound [OF assms(1)] by blast
  have "waitForService iter nims nm mx iv =
      wait_loop (\<lambda>k. getServiceInfo iter nm (nims k) \<noteq> None) mx iv n (int n * iv)"
    unfolding waitForService_def
    using wait_loop_skip [of n 0 iv mx "\<lambda>k. getServiceInfo iter nm (nims k) \<noteq> None"] n none assms by simp
  also have "\<dots> = Some (TimedOut n)" using n(1) by (subst wait_loop.simps) simp
  finally show "\<exists>n. waitForService iter nims nm mx iv = Some (TimedOut n) \<and> mx \<le> int n * iv \<and>
      (\<forall>j < n. int j * iv < mx)" using n by blast
next
  assume "0 < mx \<and> (\<forall>n. getServiceInfo iter nm (nims n) = None)"
  then show "waitForService iter nims nm mx 0 = None"
    using wait_loop_zero [of "\<lambda>k. getServiceInfo iter nm (nims k) \<noteq> None" mx 0]
    by (cases "waitForService iter nims nm mx 0") (auto simp: waitForService_def)
qed

theorem waitForService_returns_witness:
  "waitForService rev (\<lambda>k. if k < 3 then nim_example else nim_with_service) ''Echo'' 1000 10 = Some (Available 3)"
proof -
  have "getServiceInfo rev ''Echo'' nim_example = None"
    by (simp add: getServiceInfo_def nim_example_def NodeInfoManager_ctor_def)
  moreover have "getServiceInfo rev ''Echo'' nim_with_service = Some (RemoteSocket ''remote'' 0)"
    by (simp add: getServiceInfo_def nim_with_service_def nim_example_def NodeInfoManager_ctor_def
        updateNodeUnlocked_def NodeInfo_default_def)
  ultimately show ?thesis
    using waitForService_returns [of 10 1000 rev "''Echo''" "\<lambda>k. if k < 3 then nim_example else nim_with_service"]
    by simp
qed

end
