(* ===== verification/Concurrency.thy ===== *)
theory Concurrency
  imports Main
begin

text \<open>
  The mutexes of the library and the order in which its threads take them. A thread is the list
  of lock and unlock operations its call performs, in program order; everything between them is
  left out. A \<^verbatim>\<open>std::shared_mutex\<close> may be held by several readers.
\<close>

section \<open>Threads and locks\<close>

datatype lock = DataMutex | LocalMutex | SubscriberMutex | UpdateEventMutex | RemoveEventMutex | ContextMutex
  | PoolMutex

datatype mode = Exclusive | Shared

datatype instr = Lock mode lock | Unlock lock

record thread =
  held :: "(lock \<times> mode) list"
  prog :: "instr list"

type_synonym threads = "thread list"

text \<open>A lock is granted when nobody else holds it, readers among themselves excepted.\<close>

definition can_lock :: "threads \<Rightarrow> nat \<Rightarrow> mode \<Rightarrow> lock \<Rightarrow> bool" where
  "can_lock ts i m l \<longleftrightarrow>
     l \<notin> fst ` set (held (ts ! i)) \<and>
     (\<forall>j < length ts. j \<noteq> i \<longrightarrow>
        (\<forall>(l', m') \<in> set (held (ts ! j)). l' = l \<longrightarrow> m = Shared \<and> m' = Shared))"

definition unlock :: "lock \<Rightarrow> (lock \<times> mode) list \<Rightarrow> (lock \<times> mode) list" where
  "unlock l h = filter (\<lambda>x. fst x \<noteq> l) h"

inductive lock_step :: "threads \<Rightarrow> threads \<Rightarrow> bool" where
  acquire: "i < length ts \<Longrightarrow> prog (ts ! i) = Lock m l # is \<Longrightarrow> can_lock ts i m l \<Longrightarrow>
     lock_step ts (ts[i := \<lparr>held = (l, m) # held (ts ! i), prog = is\<rparr>])"
| release: "i < length ts \<Longrightarrow> prog (ts ! i) = Unlock l # is \<Longrightarrow>
     lock_step ts (ts[i := \<lparr>held = unlock l (held (ts ! i)), prog = is\<rparr>])"

inductive_cases lock_stepE: "lock_step ts ts'"

definition launch :: "instr list list \<Rightarrow> threads" where
  "launch ps = map (\<lambda>p. \<lparr>held = [], prog = p\<rparr>) ps"

definition finished :: "threads \<Rightarrow> bool" where
  "finished ts \<longleftrightarrow> (\<forall>t \<in> set ts. prog t = [])"

definition deadlocked :: "threads \<Rightarrow> bool" where
  "deadlocked ts \<longleftrightarrow> \<not> finished ts \<and> (\<nexists>ts'. lock_step ts ts')"

section \<open>The calls of the library\<close>

definition prog_getPublisherInfo :: "instr list" where
  "prog_getPublisherInfo = [Lock Shared DataMutex, Unlock DataMutex]"

definition prog_getServiceInfo :: "instr list" where
  "prog_getServiceInfo = [Lock Shared DataMutex, Unlock DataMutex]"

definition prog_createSocket :: "instr list" where
  "prog_createSocket = [Lock Exclusive ContextMutex, Unlock ContextMutex]"

definition prog_register_subscriber :: "instr list" where
  "prog_register_subscriber =
     [Lock Exclusive SubscriberMutex] @ prog_createSocket @ prog_getPublisherInfo @ [Unlock SubscriberMutex]"

definition prog_updateTopicSubscriber :: "instr list" where
  "prog_updateTopicSubscriber = [Lock Exclusive SubscriberMutex, Unlock SubscriberMutex]"

definition prog_removeTopicSubscriber :: "instr list" where
  "prog_removeTopicSubscriber = [Lock Exclusive SubscriberMutex, Unlock SubscriberMutex]"

text \<open>The callback list is copied under the event's lock and run outside it.\<close>

definition prog_trigger :: "lock \<Rightarrow> instr list \<Rightarrow> instr list" where
  "prog_trigger ev callback = [Lock Exclusive ev, Unlock ev] @ callback"

definition prog_processHeartbeat :: "bool \<Rightarrow> instr list" where
  "prog_processHeartbeat fetched =
     [Lock Exclusive DataMutex, Unlock DataMutex] @
     (if fetched then [Lock Exclusive DataMutex, Unlock DataMutex]
                      @ prog_trigger UpdateEventMutex prog_updateTopicSubscriber
      else [])"

text \<open>\<^verbatim>\<open>checkHeartbeats\<close> triggers the remove event of \<open>n\<close> silent nodes while it holds the lock.\<close>

definition prog_checkHeartbeats :: "nat \<Rightarrow> instr list" where
  "prog_checkHeartbeats n =
     [Lock Exclusive DataMutex] @
     concat (replicate n (prog_trigger RemoveEventMutex prog_removeTopicSubscriber)) @ [Unlock DataMutex]"

definition prog_receive :: "bool \<Rightarrow> nat \<Rightarrow> instr list" where
  "prog_receive fetched n = prog_processHeartbeat fetched @ prog_checkHeartbeats n"

definition prog_pollOnce :: "instr list" where
  "prog_pollOnce = [Lock Exclusive SubscriberMutex, Unlock SubscriberMutex]"

text \<open>Every operation on the local description.\<close>

definition prog_local :: "instr list" where
  "prog_local = [Lock Exclusive LocalMutex, Unlock LocalMutex]"

text \<open>
  The other calls with a lock of their own: the lookups of a node or a version, the removal of a
  node, the calls on an event, and the locked sections of the thread pool, one for each time a
  thread holds the mutex (a wait on a condition variable gives it back and takes it again).
\<close>

definition prog_checkNode :: "instr list" where
  "prog_checkNode = [Lock Shared DataMutex, Unlock DataMutex]"

definition prog_removeNode :: "instr list" where
  "prog_removeNode = [Lock Exclusive DataMutex, Unlock DataMutex]"

definition prog_event :: "lock \<Rightarrow> instr list" where
  "prog_event ev = [Lock Exclusive ev, Unlock ev]"

definition prog_pool_section :: "instr list" where
  "prog_pool_section = [Lock Exclusive PoolMutex, Unlock PoolMutex]"

definition calls_without_eviction :: "instr list set" where
  "calls_without_eviction =
     {prog_register_subscriber, prog_receive True 0, prog_receive False 0, prog_processHeartbeat True,
      prog_processHeartbeat False, prog_checkHeartbeats 0, prog_updateTopicSubscriber, prog_removeTopicSubscriber,
      prog_pollOnce, prog_getPublisherInfo, prog_getServiceInfo, prog_local, prog_createSocket, prog_checkNode,
      prog_removeNode, prog_event UpdateEventMutex, prog_event RemoveEventMutex,
      prog_trigger UpdateEventMutex prog_updateTopicSubscriber, prog_trigger RemoveEventMutex prog_removeTopicSubscriber,
      prog_pool_section}"

lemmas prog_defs = prog_getPublisherInfo_def prog_getServiceInfo_def prog_createSocket_def
  prog_register_subscriber_def prog_updateTopicSubscriber_def prog_removeTopicSubscriber_def prog_trigger_def
  prog_processHeartbeat_def prog_checkHeartbeats_def prog_receive_def prog_pollOnce_def prog_local_def
  prog_checkNode_def prog_removeNode_def prog_event_def prog_pool_section_def

section \<open>Lock order\<close>

text \<open>The order the calls follow, with the subscriber manager's lock outermost.\<close>

fun rank :: "lock \<Rightarrow> nat" where
  "rank SubscriberMutex = 0"
| "rank DataMutex = 1"
| "rank LocalMutex = 2"
| "rank UpdateEventMutex = 2"
| "rank RemoveEventMutex = 2"
| "rank ContextMutex = 2"
| "rank PoolMutex = 2"

text \<open>A program that takes locks in increasing order and gives all of them back.\<close>

fun in_order :: "lock list \<Rightarrow> instr list \<Rightarrow> bool" where
  "in_order h [] = (h = [])"
| "in_order h (Lock m l # is) = ((\<forall>l' \<in> set h. rank l' < rank l) \<and> in_order (l # h) is)"
| "in_order h (Unlock l # is) = in_order (filter (\<lambda>x. x \<noteq> l) h) is"

lemma in_order_append: "in_order h p \<Longrightarrow> in_order [] q \<Longrightarrow> in_order h (p @ q)"
  by (induction h p rule: in_order.induct) simp_all

lemma in_order_concat: "\<forall>p \<in> set ps. in_order [] p \<Longrightarrow> in_order [] (concat ps)"
  by (induction ps) (simp_all add: in_order_append)

lemma in_order_calls: "p \<in> calls_without_eviction \<Longrightarrow> in_order [] p"
  unfolding calls_without_eviction_def by (auto simp: prog_defs)

definition orderly :: "threads \<Rightarrow> bool" where
  "orderly ts \<longleftrightarrow> (\<forall>t \<in> set ts. in_order (map fst (held t)) (prog t))"

lemma map_fst_unlock: "map fst (unlock l h) = filter (\<lambda>x. x \<noteq> l) (map fst h)"
  by (induction h) (auto simp: unlock_def)

lemma orderly_step:
  assumes "orderly ts" and "lock_step ts ts'"
  shows "orderly ts'"
  using assms(2)
proof cases
  case (acquire i m l "is")
  then have "in_order (map fst (held (ts ! i))) (Lock m l # is)"
    using assms(1) by (metis nth_mem orderly_def)
  with acquire assms(1) show ?thesis
    by (auto simp: orderly_def dest!: subsetD [OF set_update_subset_insert])
next
  case (release i l "is")
  then have "in_order (map fst (held (ts ! i))) (Unlock l # is)"
    using assms(1) by (metis nth_mem orderly_def)
  with release assms(1) show ?thesis
    by (auto simp: orderly_def map_fst_unlock dest!: subsetD [OF set_update_subset_insert])
qed

lemma orderly_steps: "lock_step\<^sup>*\<^sup>* ts ts' \<Longrightarrow> orderly ts \<Longrightarrow> orderly ts'"
  by (induction rule: rtranclp_induct) (auto intro: orderly_step)

lemma orderly_progress:
  assumes "orderly ts" and "\<not> finished ts"
  shows "\<exists>ts'. lock_step ts ts'"
proof (rule ccontr)
  assume stuck: "\<nexists>ts'. lock_step ts ts'"
  have wants: "\<exists>m l is. prog (ts ! i) = Lock m l # is \<and> \<not> can_lock ts i m l"
    if "i < length ts" "prog (ts ! i) \<noteq> []" for i
  proof (cases "prog (ts ! i)")
    case (Cons x xs)
    then show ?thesis
    proof (cases x)
      case (Lock m l)
      with Cons that stuck show ?thesis using lock_step.acquire by blast
    next
      case (Unlock l)
      with Cons that stuck show ?thesis using lock_step.release by blast
    qed
  qed (use that in simp)
  have order: "in_order (map fst (held (ts ! i))) (prog (ts ! i))" if "i < length ts" for i
    using assms(1) that by (simp add: orderly_def)
  have chain: "\<exists>j < length ts. \<exists>m' l' is'. prog (ts ! j) = Lock m' l' # is' \<and> rank l < rank l'"
    if i: "i < length ts" "prog (ts ! i) = Lock m l # is" for i m l "is"
  proof -
    have "\<not> can_lock ts i m l" using wants [OF i(1)] i(2) by auto
    moreover have "l \<notin> fst ` set (held (ts ! i))"
      using order [OF i(1)] i(2) by auto
    ultimately obtain j where j: "j < length ts" "l \<in> set (map fst (held (ts ! j)))"
      by (fastforce simp: can_lock_def image_iff)
    have "prog (ts ! j) \<noteq> []" using order [OF j(1)] j(2) by (cases "prog (ts ! j)") auto
    then obtain m' l' is' where "prog (ts ! j) = Lock m' l' # is'" using wants [OF j(1)] by blast
    with order [OF j(1)] j show ?thesis by auto
  qed
  have "\<exists>i < length ts. \<exists>m l is. prog (ts ! i) = Lock m l # is \<and> n \<le> rank l" for n
  proof (induction n)
    case 0
    obtain i where "i < length ts" "prog (ts ! i) \<noteq> []"
      using assms(2) by (auto simp: finished_def in_set_conv_nth)
    then show ?case using wants by blast
  next
    case (Suc n)
    then show ?case using chain by (meson Suc_leI le_trans not_less_eq_eq order_less_le_trans)
  qed
  from this [of 3] obtain l where "3 \<le> rank l" by blast
  then show False by (cases l) simp_all
qed

section \<open>Properties\<close>

text \<open>
  C21: As long as no node is evicted, the mutexes of the library cannot deadlock: however many
  threads run however long sequences of calls that take them (registering subscribers, processing
  heartbeats, looking for silent nodes without finding any, the event handlers, lookups, removals,
  polling, local registrations, the sections of the thread pool), some thread can always take
  its next lock or give one back, until all are done. Waiting for anything else than a mutex, such
  as a condition variable or a peer, is not part of this.
\<close>

theorem mutexes_without_eviction_never_deadlock:
  assumes "\<forall>p \<in> set ps. \<exists>calls. set calls \<subseteq> calls_without_eviction \<and> p = concat calls"
    and "lock_step\<^sup>*\<^sup>* (launch ps) ts"
  shows "\<not> deadlocked ts"
proof -
  have "in_order [] p" if p: "p \<in> set ps" for p
  proof -
    obtain calls where "set calls \<subseteq> calls_without_eviction" "p = concat calls" using assms(1) p by blast
    then show ?thesis using in_order_calls by (blast intro: in_order_concat)
  qed
  then have "orderly (launch ps)" by (auto simp: orderly_def launch_def)
  then have "orderly ts" using assms(2) by (rule orderly_steps [rotated])
  then show ?thesis using orderly_progress by (auto simp: deadlocked_def)
qed

theorem mutexes_without_eviction_never_deadlock_witness:
  "\<not> deadlocked (launch [prog_register_subscriber @ prog_pollOnce, prog_receive True 0])"
proof (rule mutexes_without_eviction_never_deadlock)
  have "\<exists>calls. set calls \<subseteq> calls_without_eviction \<and> prog_register_subscriber @ prog_pollOnce = concat calls"
    by (rule exI [of _ "[prog_register_subscriber, prog_pollOnce]"]) (simp add: calls_without_eviction_def)
  moreover have "\<exists>calls. set calls \<subseteq> calls_without_eviction \<and> prog_receive True 0 = concat calls"
    by (rule exI [of _ "[prog_receive True 0]"]) (simp add: calls_without_eviction_def)
  ultimately show "\<forall>p \<in> set [prog_register_subscriber @ prog_pollOnce, prog_receive True 0].
      \<exists>calls. set calls \<subseteq> calls_without_eviction \<and> p = concat calls" by auto
qed simp

text \<open>
  C20: The eviction of a node takes the locks in the opposite order: \<^verbatim>\<open>checkHeartbeats\<close> calls the
  subscriber manager while it holds the registry's lock, and the registration of a subscriber
  asks the registry while it holds the subscriber manager's lock. Both can wait for each other
  for ever.
\<close>

theorem eviction_deadlocks_with_registration:
  "\<exists>ts. lock_step\<^sup>*\<^sup>* (launch [prog_register_subscriber, prog_checkHeartbeats 1]) ts \<and> deadlocked ts"
proof -
  let ?reg = "\<lambda>h p. \<lparr>held = h, prog = p\<rparr>"
  let ?a1 = "?reg [(SubscriberMutex, Exclusive)]
    [Lock Exclusive ContextMutex, Unlock ContextMutex, Lock Shared DataMutex, Unlock DataMutex, Unlock SubscriberMutex]"
  let ?a2 = "?reg [(ContextMutex, Exclusive), (SubscriberMutex, Exclusive)]
    [Unlock ContextMutex, Lock Shared DataMutex, Unlock DataMutex, Unlock SubscriberMutex]"
  let ?a3 = "?reg [(SubscriberMutex, Exclusive)] [Lock Shared DataMutex, Unlock DataMutex, Unlock SubscriberMutex]"
  let ?b0 = "?reg [] (prog_checkHeartbeats 1)"
  let ?b1 = "?reg [(DataMutex, Exclusive)] [Lock Exclusive RemoveEventMutex, Unlock RemoveEventMutex,
    Lock Exclusive SubscriberMutex, Unlock SubscriberMutex, Unlock DataMutex]"
  let ?b2 = "?reg [(RemoveEventMutex, Exclusive), (DataMutex, Exclusive)] [Unlock RemoveEventMutex,
    Lock Exclusive SubscriberMutex, Unlock SubscriberMutex, Unlock DataMutex]"
  let ?b3 = "?reg [(DataMutex, Exclusive)] [Lock Exclusive SubscriberMutex, Unlock SubscriberMutex, Unlock DataMutex]"
  have acq: "lock_step ts ts'" if "i < length ts" "prog (ts ! i) = Lock m l # is" "can_lock ts i m l"
    "ts' = ts[i := \<lparr>held = (l, m) # held (ts ! i), prog = is\<rparr>]" for ts ts' i m l "is"
    using lock_step.acquire [OF that(1-3)] that(4) by simp
  have rel: "lock_step ts ts'" if "i < length ts" "prog (ts ! i) = Unlock l # is"
    "ts' = ts[i := \<lparr>held = unlock l (held (ts ! i)), prog = is\<rparr>]" for ts ts' i l "is"
    using lock_step.release [OF that(1,2)] that(3) by simp
  note c = can_lock_def unlock_def prog_defs launch_def less_Suc_eq
  have "lock_step (launch [prog_register_subscriber, prog_checkHeartbeats 1]) [?a1, ?b0]"
    by (rule acq [of 0]) (simp_all add: c)
  moreover have "lock_step [?a1, ?b0] [?a2, ?b0]" by (rule acq [of 0]) (simp_all add: c)
  moreover have "lock_step [?a2, ?b0] [?a3, ?b0]" by (rule rel [where i = 0 and l = ContextMutex]) (simp_all add: c)
  moreover have "lock_step [?a3, ?b0] [?a3, ?b1]" by (rule acq [of 1]) (simp_all add: c)
  moreover have "lock_step [?a3, ?b1] [?a3, ?b2]" by (rule acq [of 1]) (simp_all add: c)
  moreover have "lock_step [?a3, ?b2] [?a3, ?b3]" by (rule rel [where i = 1 and l = RemoveEventMutex]) (simp_all add: c)
  ultimately have "lock_step\<^sup>*\<^sup>* (launch [prog_register_subscriber, prog_checkHeartbeats 1]) [?a3, ?b3]"
    by (meson converse_rtranclp_into_rtranclp rtranclp.rtrancl_refl)
  moreover have "deadlocked [?a3, ?b3]"
    by (auto simp: deadlocked_def finished_def can_lock_def less_Suc_eq elim!: lock_stepE)
  ultimately show ?thesis by blast
qed

end
