(* ===== verification/Pool_Sync.thy ===== *)
theory Pool_Sync
  imports Thread_Pool
begin

text \<open>
  The thread pool with its two condition variables. \<^verbatim>\<open>cv.wait(lock, pred)\<close> tests the predicate
  under the lock and, when it is false, releases the lock and falls asleep in one step; a sleeper
  goes on only after a notification, or spuriously, and tests again. A notification comes after
  the lock has been released, so it is a step of its own, and it is lost when nobody sleeps. The
  steps of the pool itself are those of \<^theory_text>\<open>Thread_Pool\<close>.
\<close>

section \<open>State\<close>

text \<open>
  A worker at the top of its loop is awake, asleep on \<^verbatim>\<open>cv_\<close>, or still has to call
  \<^verbatim>\<open>cv_done_.notify_one()\<close> for the task it has just counted down.
\<close>

datatype park = Awake | Parked | MustNotify

datatype waiter = WTest | WAsleep | WReturned

text \<open>
  \<open>to_notify\<close> counts the callers of \<^verbatim>\<open>enqueue\<close> between the push and
  \<^verbatim>\<open>cv_.notify_one()\<close>; \<open>stop_notify\<close> says that \<^verbatim>\<open>stop\<close> has cleared the flag and not
  yet called \<^verbatim>\<open>cv_.notify_all()\<close>.
\<close>

record 't sync_pool =
  pl :: "'t ThreadPool"
  parking :: "park list"
  waiters :: "waiter list"
  to_notify :: nat
  stop_notify :: bool

definition sync_ctor :: "nat \<Rightarrow> nat \<Rightarrow> 't sync_pool" where
  "sync_ctor hw n = \<lparr>pl = ThreadPool_ctor hw n, parking = [], waiters = [], to_notify = 0, stop_notify = False\<rparr>"

section \<open>Notifications and waits\<close>

text \<open>One sleeper, if there is any, is woken; which one is open.\<close>

definition notify_one :: "'a \<Rightarrow> 'a \<Rightarrow> 'a list \<Rightarrow> 'a list \<Rightarrow> bool" where
  "notify_one asleep awake xs ys \<longleftrightarrow>
     (if asleep \<in> set xs then (\<exists>i < length xs. xs ! i = asleep \<and> ys = xs[i := awake]) else ys = xs)"

definition notify_all :: "'a \<Rightarrow> 'a \<Rightarrow> 'a list \<Rightarrow> 'a list" where
  "notify_all asleep awake xs = map (\<lambda>x. if x = asleep then awake else x) xs"

text \<open>The test of \<^verbatim>\<open>cv_.wait\<close> in a worker: its critical section, or sleep.\<close>

definition worker_wait :: "nat \<Rightarrow> 't sync_pool \<Rightarrow> 't sync_pool" where
  "worker_wait i s =
     (case worker_section i (pl s) of
        Some p \<Rightarrow> s\<lparr>pl := p\<rparr>
      | None \<Rightarrow> s\<lparr>parking := (parking s)[i := Parked]\<rparr>)"

text \<open>The test of \<^verbatim>\<open>cv_done_.wait\<close> in a caller of \<^verbatim>\<open>wait\<close>.\<close>

definition waiter_test :: "nat \<Rightarrow> 't sync_pool \<Rightarrow> 't sync_pool" where
  "waiter_test j s = s\<lparr>waiters := (waiters s)[j := (if wait_done (pl s) then WReturned else WAsleep)]\<rparr>"

text \<open>What the threads do by themselves, spurious wake-ups and new calls apart.\<close>

inductive sync_internal :: "'t sync_pool \<Rightarrow> 't sync_pool \<Rightarrow> bool" where
  wait_work: "i < length (parking s) \<Longrightarrow> workers (pl s) ! i = Idle \<Longrightarrow> parking s ! i = Awake \<Longrightarrow>
     sync_internal s (worker_wait i s)"
| end_task: "i < length (parking s) \<Longrightarrow> workers (pl s) ! i = Running t \<Longrightarrow>
     sync_internal s (s\<lparr>pl := task_ends i t (pl s)\<rparr>)"
| count: "i < length (parking s) \<Longrightarrow> workers (pl s) ! i = Ran t \<Longrightarrow>
     sync_internal s (s\<lparr>pl := count_down i (pl s), parking := (parking s)[i := MustNotify]\<rparr>)"
| notify_done: "i < length (parking s) \<Longrightarrow> parking s ! i = MustNotify \<Longrightarrow> notify_one WAsleep WTest (waiters s) ws \<Longrightarrow>
     sync_internal s (s\<lparr>parking := (parking s)[i := Awake], waiters := ws\<rparr>)"
| notify_work: "0 < to_notify s \<Longrightarrow> notify_one Parked Awake (parking s) ks \<Longrightarrow>
     sync_internal s (s\<lparr>parking := ks, to_notify := to_notify s - 1\<rparr>)"
| notify_stop: "stop_notify s \<Longrightarrow>
     sync_internal s (s\<lparr>parking := notify_all Parked Awake (parking s), stop_notify := False\<rparr>)"
| wait_test: "j < length (waiters s) \<Longrightarrow> waiters s ! j = WTest \<Longrightarrow> sync_internal s (waiter_test j s)"

inductive sync_step :: "'t sync_pool \<Rightarrow> 't sync_pool \<Rightarrow> bool" where
  internal: "sync_internal s s' \<Longrightarrow> sync_step s s'"
| start: "pool_start (pl s) = Some p \<Longrightarrow>
     sync_step s (s\<lparr>pl := p, parking := (if is_running (pl s) then parking s else replicate (num_threads p) Awake)\<rparr>)"
| stop: "sync_step s (s\<lparr>pl := stop_begin (pl s), stop_notify := (stop_notify s \<or> is_running (pl s))\<rparr>)"
| join: "joining (pl s) \<Longrightarrow> \<not> stop_notify s \<Longrightarrow> all_exited (pl s) \<Longrightarrow>
     sync_step s (s\<lparr>pl := stop_join (pl s), parking := []\<rparr>)"
| test: "sync_step s (s\<lparr>pl := enqueue_test t (pl s)\<rparr>)"
| push: "t \<in> set (enqueuing (pl s)) \<Longrightarrow> sync_step s (s\<lparr>pl := enqueue_push t (pl s), to_notify := to_notify s + 1\<rparr>)"
| wait_call: "sync_step s (s\<lparr>waiters := waiters s @ [WTest]\<rparr>)"
| wait_again: "j < length (waiters s) \<Longrightarrow> waiters s ! j = WReturned \<Longrightarrow>
     sync_step s (s\<lparr>waiters := (waiters s)[j := WTest]\<rparr>)"
| spurious_worker: "i < length (parking s) \<Longrightarrow> parking s ! i = Parked \<Longrightarrow>
     sync_step s (s\<lparr>parking := (parking s)[i := Awake]\<rparr>)"
| spurious_waiter: "j < length (waiters s) \<Longrightarrow> waiters s ! j = WAsleep \<Longrightarrow>
     sync_step s (s\<lparr>waiters := (waiters s)[j := WTest]\<rparr>)"

inductive_cases sync_internalE: "sync_internal s s'"

definition sync_init :: "'t sync_pool \<Rightarrow> bool" where
  "sync_init s \<longleftrightarrow> (\<exists>hw n. s = sync_ctor hw n)"

lemma sync_init_pool: "sync_init s \<Longrightarrow> pool_init (pl s) \<and> parking s = [] \<and> workers (pl s) = []"
  by (fastforce simp: sync_init_def sync_ctor_def pool_init_def ThreadPool_ctor_def Let_def)

section \<open>The pool underneath\<close>

text \<open>
  Forgetting the condition variables, a step is a step of the pool or changes nothing: sleeping
  workers and callers only delay what \<^theory_text>\<open>Thread_Pool\<close> allows.
\<close>

definition park_ok :: "'t sync_pool \<Rightarrow> bool" where
  "park_ok s \<longleftrightarrow> length (parking s) = length (workers (pl s)) \<and>
     (\<forall>i < length (parking s). parking s ! i \<noteq> Awake \<longrightarrow> workers (pl s) ! i = Idle)"

lemma notify_one_length: "notify_one a b xs ys \<Longrightarrow> length ys = length xs"
  by (auto simp: notify_one_def split: if_splits)

lemma notify_one_nth: "notify_one a b xs ys \<Longrightarrow> i < length xs \<Longrightarrow> ys ! i = xs ! i \<or> (xs ! i = a \<and> ys ! i = b)"
  by (auto simp: notify_one_def nth_list_update split: if_splits)

lemma section_length: "worker_section i p = Some p' \<Longrightarrow> length (workers p') = length (workers p)"
  by (auto simp: worker_section_def split: if_splits)

lemma section_other: "worker_section i p = Some p' \<Longrightarrow> j \<noteq> i \<Longrightarrow> workers p' ! j = workers p ! j"
  by (auto simp: worker_section_def split: if_splits)

lemma section_None: "worker_section i p = None \<longleftrightarrow> tasks p = [] \<and> is_running p"
  by (auto simp: worker_section_def split: if_splits)

lemma internal_refines:
  assumes "sync_internal s s'" and "park_ok s"
  shows "pl s' = pl s \<or> worker_step (pl s) (pl s')"
  using assms(1)
proof cases
  case (wait_work i)
  with assms(2) show ?thesis
    by (auto simp: worker_wait_def park_ok_def split: option.splits intro: worker_step.top)
next
  case (end_task i t)
  with assms(2) show ?thesis by (auto simp: park_ok_def intro: worker_step.end_task)
next
  case (count i t)
  with assms(2) show ?thesis by (auto simp: park_ok_def intro: worker_step.count)
qed (simp_all add: waiter_test_def)

lemma sync_refines:
  assumes "sync_step s s'" and "park_ok s"
  shows "pl s' = pl s \<or> pool_step (pl s) (pl s')"
  using assms(1)
proof cases
  case internal
  then show ?thesis using internal_refines [OF internal assms(2)] by (auto intro: pool_step.work)
qed (auto intro: pool_step.intros)

lemma park_ok_internal:
  assumes "sync_internal s s'" and "park_ok s"
  shows "park_ok s'"
  using assms(1)
proof cases
  case (wait_work i)
  then show ?thesis
    using assms(2)
    by (auto simp: worker_wait_def park_ok_def nth_list_update section_length split: option.splits)
      (metis section_other)
next
  case (notify_done i ws)
  with assms(2) show ?thesis by (auto simp: park_ok_def nth_list_update)
next
  case (notify_work ks)
  with assms(2) notify_one_length [OF notify_work(3)] notify_one_nth [OF notify_work(3)] show ?thesis
    by (auto simp: park_ok_def) (metis)
next
  case notify_stop
  with assms(2) show ?thesis by (auto simp: park_ok_def notify_all_def)
qed (use assms(2) in \<open>auto simp: park_ok_def task_ends_def count_down_def waiter_test_def nth_list_update\<close>)

lemma park_ok_step:
  assumes "sync_step s s'" and "park_ok s"
  shows "park_ok s'"
  using assms(1)
proof cases
  case internal
  then show ?thesis using assms(2) by (rule park_ok_internal)
qed (use assms(2) in \<open>auto simp: park_ok_def pool_start_def stop_begin_def stop_join_def enqueue_test_def
      enqueue_push_def nth_list_update split: if_splits\<close>)

section \<open>No wake-up is lost\<close>

text \<open>
  A worker that will look at the queue again without being woken: it is not asleep and has not
  left its loop.
\<close>

definition will_look :: "'t sync_pool \<Rightarrow> nat \<Rightarrow> bool" where
  "will_look s i \<longleftrightarrow> i < length (parking s) \<and> parking s ! i \<noteq> Parked \<and> workers (pl s) ! i \<noteq> Exited"

text \<open>
  Where a worker sleeps although there is a task or the pool is stopped, somebody is about to
  wake it or another worker will look at the queue; and a caller of \<^verbatim>\<open>wait\<close> that is alone
  never sleeps through the end of the last task.
\<close>

definition sync_inv :: "'t sync_pool \<Rightarrow> bool" where
  "sync_inv s \<longleftrightarrow> park_ok s \<and> pool_inv (pl s) \<and>
     (\<not> is_running (pl s) \<and> Parked \<in> set (parking s) \<longrightarrow> stop_notify s) \<and>
     (tasks (pl s) \<noteq> [] \<and> Parked \<in> set (parking s) \<longrightarrow>
        0 < to_notify s \<or> stop_notify s \<or> (\<exists>i. will_look s i)) \<and>
     (length (waiters s) \<le> 1 \<and> WAsleep \<in> set (waiters s) \<and> wait_done (pl s) \<longrightarrow>
        MustNotify \<in> set (parking s))"

lemma sync_invD:
  assumes "sync_inv s"
  shows "park_ok s" and "pool_inv (pl s)"
    and "\<not> is_running (pl s) \<Longrightarrow> Parked \<in> set (parking s) \<Longrightarrow> stop_notify s"
    and "tasks (pl s) \<noteq> [] \<Longrightarrow> Parked \<in> set (parking s) \<Longrightarrow> 0 < to_notify s \<or> stop_notify s \<or> (\<exists>i. will_look s i)"
    and "length (waiters s) \<le> 1 \<Longrightarrow> WAsleep \<in> set (waiters s) \<Longrightarrow> wait_done (pl s) \<Longrightarrow> MustNotify \<in> set (parking s)"
  using assms by (simp_all add: sync_inv_def)

lemma notify_one_single: "notify_one a b xs ys \<Longrightarrow> a \<noteq> b \<Longrightarrow> length xs \<le> 1 \<Longrightarrow> a \<notin> set ys"
  by (cases xs) (auto simp: notify_one_def split: if_splits)

lemma notify_one_wakes:
  "notify_one a b xs ys \<Longrightarrow> a \<in> set xs \<Longrightarrow> \<exists>i < length ys. xs ! i = a \<and> ys ! i = b"
  by (auto simp: notify_one_def)

lemma notify_one_sub: "notify_one a b xs ys \<Longrightarrow> x \<in> set ys \<Longrightarrow> x \<noteq> b \<Longrightarrow> x \<in> set xs"
  by (auto simp: notify_one_def split: if_splits dest: update_keeps_others)

lemma notify_one_keeps: "notify_one a b xs ys \<Longrightarrow> x \<in> set xs \<Longrightarrow> x \<noteq> a \<Longrightarrow> x \<in> set ys"
  by (auto simp: notify_one_def split: if_splits intro: update_keeps_member)

lemma section_Some_flags:
  assumes "worker_section i p = Some p'" and "i < length (workers p)"
  shows "is_running p' = is_running p \<and> (wait_done p' \<longrightarrow> wait_done p) \<and>
     (tasks p' \<noteq> [] \<longrightarrow> workers p' ! i \<noteq> Exited)"
  using assms by (auto simp: worker_section_def wait_done_def split: if_splits)

lemma sync_inv_work:
  assumes inv: "sync_inv s" and i: "i < length (parking s)" "workers (pl s) ! i = Idle" "parking s ! i = Awake"
  shows "sync_inv (worker_wait i s)"
proof (cases "worker_section i (pl s)")
  case None
  then have "tasks (pl s) = []" "is_running (pl s)" by (simp_all add: section_None)
  moreover have "park_ok (worker_wait i s)"
    using inv i by (intro park_ok_internal [OF sync_internal.wait_work]) (auto dest: sync_invD)
  moreover have "MustNotify \<in> set ((parking s)[i := Parked])" if "MustNotify \<in> set (parking s)"
    using that i(3) by (intro update_keeps_member) simp_all
  ultimately show ?thesis
    using None sync_invD [OF inv] by (auto simp: sync_inv_def worker_wait_def)
next
  case (Some p)
  have lw: "i < length (workers (pl s))" using i(1) sync_invD(1) [OF inv] by (simp add: park_ok_def)
  have "worker_step (pl s) p" using lw i(2) Some by (rule worker_step.top)
  then have "pool_inv p" by (rule pool_inv_worker_step [OF sync_invD(2) [OF inv]])
  moreover have "park_ok (s\<lparr>pl := p\<rparr>)"
    using park_ok_internal [OF sync_internal.wait_work [OF i]] inv Some by (simp add: worker_wait_def sync_invD(1))
  moreover have "will_look (s\<lparr>pl := p\<rparr>) i" if "tasks p \<noteq> []"
    using that i section_Some_flags [OF Some lw] by (simp add: will_look_def)
  ultimately show ?thesis
    using Some section_Some_flags [OF Some lw] sync_invD [OF inv] by (auto simp: sync_inv_def worker_wait_def)
qed

lemma sync_inv_task:
  assumes inv: "sync_inv s" and i: "i < length (parking s)"
  shows "workers (pl s) ! i = Running t \<Longrightarrow> sync_inv (s\<lparr>pl := task_ends i t (pl s)\<rparr>)"
    and "workers (pl s) ! i = Ran t \<Longrightarrow>
      sync_inv (s\<lparr>pl := count_down i (pl s), parking := (parking s)[i := MustNotify]\<rparr>)"
proof -
  note d = sync_invD [OF inv]
  have lw: "i < length (workers (pl s))" using i d(1) by (simp add: park_ok_def)
  {
    assume r: "workers (pl s) ! i = Running t"
    let ?s = "s\<lparr>pl := task_ends i t (pl s)\<rparr>"
    have "park_ok ?s" using park_ok_internal [OF sync_internal.end_task [OF i r] d(1)] .
    moreover have "pool_inv (pl ?s)" using pool_inv_end [OF d(2) lw r] by simp
    moreover have "parking s ! i = Awake" using d(1) i r by (auto simp: park_ok_def)
    then have "will_look ?s i" using i lw by (simp add: will_look_def task_ends_def)
    ultimately show "sync_inv ?s"
      using d(3-5) by (auto simp: sync_inv_def task_ends_def wait_done_def)
  next
    assume r: "workers (pl s) ! i = Ran t"
    let ?s = "s\<lparr>pl := count_down i (pl s), parking := (parking s)[i := MustNotify]\<rparr>"
    have "park_ok ?s" using park_ok_internal [OF sync_internal.count [OF i r] d(1)] .
    moreover have "pool_inv (pl ?s)" using pool_inv_count [OF d(2) lw r] by simp
    moreover have "will_look ?s i" using i lw by (simp add: will_look_def count_down_def)
    moreover have "MustNotify \<in> set ((parking s)[i := MustNotify])" using i by (rule set_update_memI)
    moreover have "Parked \<in> set (parking s)" if "Parked \<in> set ((parking s)[i := MustNotify])"
      using that by (rule update_keeps_others) simp
    ultimately show "sync_inv ?s" using d(3) by (auto simp: sync_inv_def count_down_def)
  }
qed

lemma sync_inv_notify_done:
  assumes inv: "sync_inv s" and i: "i < length (parking s)" "parking s ! i = MustNotify"
    and ws: "notify_one WAsleep WTest (waiters s) ws"
  shows "sync_inv (s\<lparr>parking := (parking s)[i := Awake], waiters := ws\<rparr>)" (is "sync_inv ?s")
proof -
  note d = sync_invD [OF inv]
  have ok: "park_ok ?s" using park_ok_internal [OF sync_internal.notify_done [OF i ws] d(1)] .
  have "workers (pl s) ! i = Idle" using d(1) i by (simp add: park_ok_def)
  then have "will_look ?s i" using i by (simp add: will_look_def)
  moreover have "Parked \<in> set (parking s)" if "Parked \<in> set ((parking s)[i := Awake])"
    using that by (rule update_keeps_others) simp
  moreover have "WAsleep \<notin> set ws" if "length ws \<le> 1"
    using that notify_one_single [OF ws] notify_one_length [OF ws] by simp
  ultimately show ?thesis using d(2-3) ok by (auto simp: sync_inv_def)
qed

lemma sync_inv_notify_work:
  assumes inv: "sync_inv s" and ks: "notify_one Parked Awake (parking s) ks" and pos: "0 < to_notify s"
  shows "sync_inv (s\<lparr>parking := ks, to_notify := to_notify s - 1\<rparr>)" (is "sync_inv ?s")
proof -
  note d = sync_invD [OF inv]
  have ok: "park_ok ?s" using park_ok_internal [OF sync_internal.notify_work [OF pos ks] d(1)] .
  have sub: "Parked \<in> set (parking s)" if "Parked \<in> set ks" using notify_one_sub [OF ks that] by simp
  moreover have "\<exists>i. will_look ?s i" if "Parked \<in> set ks"
    using notify_one_wakes [OF ks sub [OF that]] notify_one_length [OF ks] d(1)
    by (auto simp: will_look_def park_ok_def)
  moreover have "MustNotify \<in> set ks" if "MustNotify \<in> set (parking s)"
    using notify_one_keeps [OF ks that] by simp
  ultimately show ?thesis using d(2,3,5) ok by (auto simp: sync_inv_def)
qed

lemma notify_all_set: "x \<in> set (notify_all a b xs) \<Longrightarrow> x \<noteq> b \<Longrightarrow> x \<in> set xs \<and> x \<noteq> a"
  by (auto simp: notify_all_def split: if_splits)

lemma notify_all_keeps: "x \<in> set xs \<Longrightarrow> x \<noteq> a \<Longrightarrow> x \<in> set (notify_all a b xs)"
  by (auto simp: notify_all_def)

lemma sync_inv_notify_stop:
  assumes inv: "sync_inv s" and stop: "stop_notify s"
  shows "sync_inv (s\<lparr>parking := notify_all Parked Awake (parking s), stop_notify := False\<rparr>)" (is "sync_inv ?s")
proof -
  note d = sync_invD [OF inv]
  have "park_ok ?s" using park_ok_internal [OF sync_internal.notify_stop [OF stop] d(1)] .
  moreover have "Parked \<notin> set (notify_all Parked Awake (parking s))"
    using notify_all_set [of Parked Parked Awake] by auto
  ultimately show ?thesis
    using d(2,5) notify_all_keeps [of MustNotify "parking s" Parked Awake] by (auto simp: sync_inv_def)
qed

lemma sync_inv_wait_test:
  assumes inv: "sync_inv s"
  shows "sync_inv (waiter_test j s)"
proof -
  note d = sync_invD [OF inv]
  have "WAsleep \<in> set (waiters s)" if "WAsleep \<in> set ((waiters s)[j := WReturned])"
    using that by (rule update_keeps_others) simp
  then show ?thesis
    using d by (auto simp: sync_inv_def waiter_test_def park_ok_def will_look_def)
qed

lemma sync_inv_internal: "sync_inv s \<Longrightarrow> sync_internal s s' \<Longrightarrow> sync_inv s'"
  by (erule sync_internalE)
    (auto intro: sync_inv_work sync_inv_task sync_inv_notify_done sync_inv_notify_work [unfolded One_nat_def]
      sync_inv_notify_stop sync_inv_wait_test)

lemma will_look_cong:
  "parking s' = parking s \<Longrightarrow> workers (pl s') = workers (pl s) \<Longrightarrow> will_look s' = will_look s"
  by (simp add: will_look_def fun_eq_iff)

lemma sync_inv_caller:
  assumes inv: "sync_inv s" and step: "sync_step s s'" and same: "parking s' = parking s" "waiters s' = waiters s"
    and p: "workers (pl s') = workers (pl s)" "wait_done (pl s') \<Longrightarrow> wait_done (pl s)"
    and run: "\<not> is_running (pl s') \<Longrightarrow> is_running (pl s) \<Longrightarrow> stop_notify s'"
    and wake: "tasks (pl s') \<noteq> tasks (pl s) \<Longrightarrow> 0 < to_notify s'"
    and mono: "stop_notify s \<Longrightarrow> stop_notify s'" "to_notify s \<le> to_notify s'"
  shows "sync_inv s'"
proof -
  note d = sync_invD [OF inv]
  have "pool_inv (pl s')"
    using sync_refines [OF step d(1)] d(2) by (auto intro: pool.step_inv)
  moreover have "park_ok s'" using step d(1) by (rule park_ok_step)
  moreover have "will_look s' = will_look s" using same(1) p(1) by (rule will_look_cong)
  ultimately show ?thesis
    unfolding sync_inv_def using d(3-5) same p(2) run wake mono by (metis less_le_trans)
qed

lemma sync_inv_spurious_worker:
  assumes inv: "sync_inv s" and i: "i < length (parking s)" "parking s ! i = Parked"
  shows "sync_inv (s\<lparr>parking := (parking s)[i := Awake]\<rparr>)" (is "sync_inv ?s")
proof -
  note d = sync_invD [OF inv]
  have "park_ok ?s" using park_ok_step [OF sync_step.spurious_worker [OF i] d(1)] .
  moreover have "workers (pl s) ! i = Idle" using d(1) i by (simp add: park_ok_def)
  then have "will_look ?s i" using i by (simp add: will_look_def)
  moreover have "Parked \<in> set (parking s)" if "Parked \<in> set ((parking s)[i := Awake])"
    using that by (rule update_keeps_others) simp
  moreover have "MustNotify \<in> set ((parking s)[i := Awake])" if "MustNotify \<in> set (parking s)"
    using that i(2) by (intro update_keeps_member) simp_all
  ultimately show ?thesis using d(2,3,5) by (auto simp: sync_inv_def)
qed

lemma sync_inv_waiters:
  assumes inv: "sync_inv s" and "WAsleep \<in> set ws \<Longrightarrow> WAsleep \<in> set (waiters s)" and "length (waiters s) \<le> length ws"
  shows "sync_inv (s\<lparr>waiters := ws\<rparr>)"
proof -
  have "will_look (s\<lparr>waiters := ws\<rparr>) = will_look s" by (rule will_look_cong) simp_all
  moreover have "park_ok (s\<lparr>waiters := ws\<rparr>) = park_ok s" by (simp add: park_ok_def)
  ultimately show ?thesis using assms sync_invD [OF inv] by (auto simp: sync_inv_def)
qed

lemma sync_inv_start:
  assumes inv: "sync_inv s" and p: "pool_start (pl s) = Some p"
  shows "sync_inv (s\<lparr>pl := p, parking := (if is_running (pl s) then parking s else replicate (num_threads p) Awake)\<rparr>)"
    (is "sync_inv ?s")
proof (cases "is_running (pl s)")
  case True
  with p have "?s = s" by (simp add: pool_start_def)
  with inv show ?thesis by (simp only:)
next
  case False
  note d = sync_invD [OF inv]
  have step: "sync_step s ?s" using p by (rule sync_step.start)
  have "pool_inv (pl ?s)" using sync_refines [OF step d(1)] d(2) by (auto intro: pool.step_inv)
  moreover have "park_ok ?s" using step d(1) by (rule park_ok_step)
  moreover have "parking s = []" using False p d(1) by (auto simp: pool_start_def park_ok_def split: if_splits)
  moreover have "wait_done p \<longleftrightarrow> wait_done (pl s)" using p by (auto simp: pool_start_def wait_done_def split: if_splits)
  ultimately show ?thesis using False d(5) by (auto simp: sync_inv_def)
qed

lemma sync_inv_join:
  assumes inv: "sync_inv s" and j: "joining (pl s)" "\<not> stop_notify s" "all_exited (pl s)"
  shows "sync_inv (s\<lparr>pl := stop_join (pl s), parking := []\<rparr>)" (is "sync_inv ?s")
proof -
  note d = sync_invD [OF inv]
  have step: "sync_step s ?s" using j by (rule sync_step.join)
  have "pool_inv (pl ?s)" using sync_refines [OF step d(1)] d(2) by (auto intro: pool.step_inv)
  moreover have "park_ok ?s" using step d(1) by (rule park_ok_step)
  moreover have "MustNotify \<notin> set (parking s)"
  proof
    assume "MustNotify \<in> set (parking s)"
    then obtain i where "i < length (parking s)" "parking s ! i = MustNotify" by (metis in_set_conv_nth)
    with d(1) have "Idle \<in> set (workers (pl s))" by (metis nth_mem park.distinct(4) park_ok_def)
    with j(3) show False by (auto simp: all_exited_def)
  qed
  moreover have "wait_done (stop_join (pl s)) \<longleftrightarrow> wait_done (pl s)" by (simp add: stop_join_def wait_done_def)
  ultimately show ?thesis using d(5) by (auto simp: sync_inv_def)
qed

lemma sync_inv_step:
  assumes inv: "sync_inv s" and step: "sync_step s s'"
  shows "sync_inv s'"
  using step
proof cases
  case internal
  with inv show ?thesis by (rule sync_inv_internal)
next
  case (start p)
  then show ?thesis using sync_inv_start [OF inv start(2)] by simp
next
  case stop
  then show ?thesis
    by (intro sync_inv_caller [OF inv step]) (auto simp: stop_begin_def wait_done_def split: if_splits)
next
  case join
  with inv show ?thesis by (auto intro: sync_inv_join)
next
  case (test t)
  then show ?thesis
    by (intro sync_inv_caller [OF inv step]) (auto simp: enqueue_test_def wait_done_def split: if_splits)
next
  case (push t)
  then show ?thesis
    by (intro sync_inv_caller [OF inv step]) (auto simp: enqueue_push_def wait_done_def)
next
  case wait_call
  with inv show ?thesis by (auto intro: sync_inv_waiters)
next
  case (wait_again j)
  with inv show ?thesis by (auto intro!: sync_inv_waiters dest: update_keeps_others)
next
  case (spurious_worker i)
  with inv show ?thesis by (auto intro: sync_inv_spurious_worker)
next
  case (spurious_waiter j)
  with inv show ?thesis by (auto intro!: sync_inv_waiters dest: update_keeps_others)
qed

interpretation sync: safe_system sync_init sync_step sync_inv
proof unfold_locales
  show "sync_inv s" if init: "sync_init s" for s :: "'t sync_pool"
  proof -
    obtain hw n where s: "s = sync_ctor hw n" using init by (auto simp: sync_init_def)
    have "pool_init (ThreadPool_ctor hw n :: 't ThreadPool)" unfolding pool_init_def by blast
    then have "pool_inv (pl s)" unfolding s sync_ctor_def by (simp add: pool.start_inv)
    with s show ?thesis by (auto simp: sync_inv_def sync_ctor_def park_ok_def ThreadPool_ctor_def Let_def)
  qed
  show "sync_inv s \<Longrightarrow> sync_step s t \<Longrightarrow> sync_inv t" for s t :: "'t sync_pool" by (rule sync_inv_step)
qed

section \<open>Quiescence\<close>

fun park_cost :: "park \<Rightarrow> nat" where
  "park_cost Awake = 1"
| "park_cost Parked = 0"
| "park_cost MustNotify = 3"

fun worker_cost :: "'t worker \<Rightarrow> park \<Rightarrow> nat" where
  "worker_cost Idle k = park_cost k"
| "worker_cost (Running t) k = 5"
| "worker_cost (Ran t) k = 4"
| "worker_cost Exited k = 0"

text \<open>What the threads can still do without new calls.\<close>

definition cost :: "'t sync_pool \<Rightarrow> nat" where
  "cost s = 5 * length (tasks (pl s)) +
     sum_list (map2 worker_cost (workers (pl s)) (parking s)) +
     length (filter (\<lambda>w. w = WTest) (waiters s)) +
     2 * to_notify s + (if stop_notify s then Suc (length (parking s)) else 0)"

lemma map2_update:
  "length xs = length ys \<Longrightarrow> i < length xs \<Longrightarrow>
   sum_list (map2 f (xs[i := x]) (ys[i := y])) + f (xs ! i) (ys ! i) = sum_list (map2 f xs ys) + (f x y :: nat)"
proof (induction xs ys arbitrary: i rule: list_induct2)
  case (Cons a xs b ys)
  then show ?case by (cases i) (simp_all add: algebra_simps)
qed simp

lemma map2_update_left:
  "length xs = length ys \<Longrightarrow> i < length xs \<Longrightarrow>
   sum_list (map2 f (xs[i := x]) ys) + f (xs ! i) (ys ! i) = sum_list (map2 f xs ys) + (f x (ys ! i) :: nat)"
  using map2_update [of xs ys i f x "ys ! i"] by simp

lemma map2_update_right:
  "length xs = length ys \<Longrightarrow> i < length xs \<Longrightarrow>
   sum_list (map2 f xs (ys[i := y])) + f (xs ! i) (ys ! i) = sum_list (map2 f xs ys) + (f (xs ! i) y :: nat)"
  using map2_update [of xs ys i f "xs ! i" y] by simp

lemma filter_update_length:
  "i < length xs \<Longrightarrow> length (filter P (xs[i := x])) + (if P (xs ! i) then 1 else 0) =
     length (filter P xs) + (if P x then 1 else 0)"
proof (induction xs arbitrary: i)
  case (Cons a xs)
  then show ?case by (cases i) (auto split: if_splits)
qed simp

lemma notify_one_waiters:
  "notify_one WAsleep WTest ws ws' \<Longrightarrow>
   length (filter (\<lambda>w. w = WTest) ws') \<le> length (filter (\<lambda>w. w = WTest) ws) + 1"
  using filter_update_length [of _ ws "\<lambda>w. w = WTest" WTest] by (fastforce simp: notify_one_def split: if_splits)

lemma notify_one_cost:
  assumes "notify_one Parked Awake (parking s) ks" and "park_ok s"
  shows "sum_list (map2 worker_cost (workers (pl s)) ks) \<le>
     sum_list (map2 worker_cost (workers (pl s)) (parking s)) + 1"
proof (cases "Parked \<in> set (parking s)")
  case True
  with assms(1) obtain i where i: "i < length (parking s)" "parking s ! i = Parked" "ks = (parking s)[i := Awake]"
    by (auto simp: notify_one_def)
  then have "workers (pl s) ! i = Idle" "i < length (workers (pl s))" using assms(2) by (auto simp: park_ok_def)
  then show ?thesis
    using i assms(2) map2_update_right [of "workers (pl s)" "parking s" i worker_cost Awake]
    by (simp add: park_ok_def)
qed (use assms(1) in \<open>simp add: notify_one_def\<close>)

lemma notify_all_cost:
  assumes "length xs = length ks"
  shows "sum_list (map2 worker_cost xs (notify_all Parked Awake ks)) \<le> sum_list (map2 worker_cost xs ks) + length ks"
  using assms
proof (induction xs ks rule: list_induct2)
  case (Cons x xs k ks)
  have "worker_cost x (if k = Parked then Awake else k) \<le> worker_cost x k + 1" by (cases x; cases k) simp_all
  with Cons show ?case by (auto simp: notify_all_def split: if_splits)
qed (simp add: notify_all_def)

lemma worker_wait_cost:
  assumes i: "i < length (parking s)" and w: "workers (pl s) ! i = Idle" "parking s ! i = Awake" and ok: "park_ok s"
  shows "cost (worker_wait i s) < cost s"
proof -
  have l: "length (workers (pl s)) = length (parking s)" using ok by (simp add: park_ok_def)
  note u = map2_update_left [OF l, of i worker_cost, unfolded l, OF i]
    map2_update_right [OF l, of i worker_cost Parked, unfolded l, OF i]
  show ?thesis
  proof (cases "tasks (pl s)")
    case Nil
    then show ?thesis
      using i w l u(1) [of Exited] u(2)
      by (cases "is_running (pl s)") (simp_all add: worker_wait_def worker_section_def cost_def)
  next
    case (Cons t ts)
    then show ?thesis
      using i w l u(1) [of "Running t"] by (simp add: worker_wait_def worker_section_def cost_def)
  qed
qed

lemma internal_cost:
  assumes "sync_internal s s'" and ok: "park_ok s"
  shows "cost s' < cost s"
  using assms(1)
proof cases
  case (wait_work i)
  then show ?thesis using worker_wait_cost ok by simp
next
  case (end_task i t)
  then show ?thesis
    using ok map2_update_left [of "workers (pl s)" "parking s" i worker_cost "Ran t"]
    by (simp add: cost_def task_ends_def park_ok_def)
next
  case (count i t)
  then show ?thesis
    using ok map2_update [of "workers (pl s)" "parking s" i worker_cost Idle MustNotify]
    by (simp add: cost_def count_down_def park_ok_def)
next
  case (notify_done i ws)
  then have "workers (pl s) ! i = Idle" using ok by (simp add: park_ok_def)
  then show ?thesis
    using notify_done ok notify_one_waiters [OF notify_done(4)]
      map2_update_right [of "workers (pl s)" "parking s" i worker_cost Awake]
    by (simp add: cost_def park_ok_def)
next
  case (notify_work ks)
  then show ?thesis
    using notify_one_cost [OF notify_work(3) ok] notify_one_length [OF notify_work(3)] by (simp add: cost_def)
next
  case notify_stop
  then show ?thesis
    using ok notify_all_cost [of "workers (pl s)" "parking s"] by (simp add: cost_def park_ok_def)
next
  case (wait_test j)
  then show ?thesis
    using filter_update_length [of j "waiters s" "\<lambda>w. w = WTest" WAsleep]
      filter_update_length [of j "waiters s" "\<lambda>w. w = WTest" WReturned]
    by (simp add: cost_def waiter_test_def)
qed

lemma internal_steps_cost:
  "(sync_internal ^^ n) s s' \<Longrightarrow> sync_inv s \<Longrightarrow> n + cost s' \<le> cost s \<and> sync_inv s'"
proof (induction n arbitrary: s')
  case (Suc n)
  then obtain r where r: "(sync_internal ^^ n) s r" "sync_internal r s'" by auto
  with Suc have IH: "n + cost r \<le> cost s" "sync_inv r" by auto
  with internal_cost [OF r(2)] sync_inv_internal [OF IH(2) r(2)] show ?case by (simp add: sync_invD(1))
qed simp

lemma internal_keeps:
  "sync_internal s s' \<Longrightarrow> is_running (pl s') = is_running (pl s) \<and> pushed (pl s') = pushed (pl s) \<and>
     length (waiters s') = length (waiters s)"
  by (erule sync_internalE)
    (auto simp: worker_wait_def waiter_test_def task_ends_def count_down_def worker_section_def notify_one_length
      split: option.splits if_splits)

lemma internal_steps_keep:
  "(sync_internal ^^ n) s s' \<Longrightarrow> is_running (pl s') = is_running (pl s) \<and> pushed (pl s') = pushed (pl s) \<and>
     length (waiters s') = length (waiters s)"
proof (induction n arbitrary: s')
  case (Suc n)
  then obtain r where "(sync_internal ^^ n) s r" "sync_internal r s'" by auto
  with Suc.IH [of r] internal_keeps [of r s'] show ?case by simp
qed simp

lemma notify_one_exists: "\<exists>ys. notify_one a b xs ys"
  by (auto simp: notify_one_def in_set_conv_nth)

text \<open>When no thread can go on, nobody is left who would have to.\<close>

lemma quiescent_shape:
  assumes ok: "park_ok s" and quiet: "\<nexists>s'. sync_internal s s'"
  shows "i < length (parking s) \<Longrightarrow> parking s ! i = Parked \<or> workers (pl s) ! i = Exited"
    and "to_notify s = 0" and "\<not> stop_notify s" and "WTest \<notin> set (waiters s)" and "MustNotify \<notin> set (parking s)"
proof -
  show n: "MustNotify \<notin> set (parking s)"
    using quiet notify_one_exists [of WAsleep WTest "waiters s"]
    by (metis in_set_conv_nth sync_internal.notify_done)
  show "to_notify s = 0"
    using quiet notify_one_exists [of Parked Awake "parking s"] by (metis gr0I sync_internal.notify_work)
  show "\<not> stop_notify s" using quiet by (blast intro: sync_internal.notify_stop)
  show "WTest \<notin> set (waiters s)" using quiet by (metis in_set_conv_nth sync_internal.wait_test)
  assume i: "i < length (parking s)"
  show "parking s ! i = Parked \<or> workers (pl s) ! i = Exited"
  proof (cases "workers (pl s) ! i")
    case Idle
    then have "parking s ! i \<noteq> Awake" using quiet i by (blast intro: sync_internal.wait_work)
    moreover have "parking s ! i \<noteq> MustNotify" using n i by (metis nth_mem)
    ultimately show ?thesis by (cases "parking s ! i") simp_all
  next
    case (Running t)
    then show ?thesis using quiet i by (blast intro: sync_internal.end_task)
  next
    case (Ran t)
    then show ?thesis using quiet i by (blast intro: sync_internal.count)
  qed simp
qed

lemma quiescent_running:
  assumes inv: "sync_inv s" and quiet: "\<nexists>s'. sync_internal s s'" and run: "is_running (pl s)"
  shows "wait_done (pl s) \<and> mset (ended (pl s)) = mset (pushed (pl s))"
proof -
  note d = sync_invD [OF inv] and q = quiescent_shape [OF sync_invD(1) [OF inv] quiet]
  have l: "length (parking s) = length (workers (pl s))" using d(1) by (simp add: park_ok_def)
  have ne: "workers (pl s) \<noteq> []" "Exited \<notin> set (workers (pl s))" using d(2) run by (simp_all add: pool_inv_def)
  have parked: "parking s ! i = Parked" "workers (pl s) ! i = Idle" if "i < length (parking s)" for i
  proof -
    have "workers (pl s) ! i \<noteq> Exited" using ne(2) l that by (metis nth_mem)
    then show "parking s ! i = Parked" using q(1) [OF that] by simp
    then show "workers (pl s) ! i = Idle" using d(1) that by (simp add: park_ok_def)
  qed
  have idle: "workers (pl s) = replicate (length (workers (pl s))) Idle"
    using parked(2) l by (intro nth_equalityI) simp_all
  have "parking s \<noteq> []" using ne(1) l by auto
  then have "Parked \<in> set (parking s)" using parked(1) [of 0] by (metis length_greater_0_conv nth_mem)
  moreover have "\<not> will_look s i" for i using parked(1) [of i] by (auto simp: will_look_def)
  ultimately have empty: "tasks (pl s) = []" using d(4) q(2,3) by auto
  have "active_tasks (pl s) = 0" using d(2) idle sum_list_busy_idle [of "length (workers (pl s))"]
    by (metis pool_inv_def)
  moreover have "concat (map in_hand (workers (pl s))) = []"
    using idle in_hand_idle [of "length (workers (pl s))"] by metis
  ultimately show ?thesis using empty d(2) by (simp add: wait_done_def pool_inv_def)
qed

section \<open>Properties\<close>

text \<open>
  C22: The condition variables implement the waits of the pool: whatever state the pool with its
  sleeping and notified threads reaches, the pool underneath is one that \<^theory_text>\<open>Thread_Pool\<close> reaches
  with waits that are enabled exactly when their predicate holds, so that the accounting and
  draining of the pool carry over.
\<close>

theorem condition_variables_refine:
  assumes "reachable sync_init sync_step s"
  shows "reachable pool_init pool_step (pl s) \<and> length (parking s) = length (workers (pl s))"
  using assms
proof (induction rule: reachable.induct)
  case (reach_start s)
  then have "pool_init (pl s)" "parking s = []" "workers (pl s) = []" by (simp_all add: sync_init_pool)
  then show ?case by (simp add: reachable.reach_start)
next
  case (reach_step s t)
  have inv: "sync_inv s" using reach_step.hyps(1) by (rule sync.reachable_inv)
  have "length (parking t) = length (workers (pl t))"
    using park_ok_step [OF reach_step.hyps(2) sync_invD(1) [OF inv]] by (simp add: park_ok_def)
  with reach_step sync_refines [OF reach_step.hyps(2) sync_invD(1) [OF inv]] show ?case
    by (auto intro: reachable.reach_step)
qed

text \<open>A running pool of one worker that was handed the task 7.\<close>

definition one_worker ::
  "nat worker \<Rightarrow> nat list \<Rightarrow> nat \<Rightarrow> nat list \<Rightarrow> nat list \<Rightarrow> park \<Rightarrow> waiter list \<Rightarrow> nat \<Rightarrow> nat sync_pool" where
  "one_worker w ts act st en k ws tn =
     \<lparr>pl = \<lparr>num_threads = 1, is_running = True, workers = [w], tasks = ts, active_tasks = act, enqueuing = [],
            joining = False, pushed = [7], started = st, ended = en, late = []\<rparr>,
      parking = [k], waiters = ws, to_notify = tn, stop_notify = False\<rparr>"

lemma sync_reach_step: "reachable sync_init sync_step s \<Longrightarrow> sync_step s t \<Longrightarrow> t = t' \<Longrightarrow> reachable sync_init sync_step t'"
  by (auto intro: reach_step)

lemma sync_reach_internal:
  "reachable sync_init sync_step s \<Longrightarrow> sync_internal s t \<Longrightarrow> t = t' \<Longrightarrow> reachable sync_init sync_step t'"
  by (auto intro: reach_step sync_step.internal)

lemma one_worker_pushed: "reachable sync_init sync_step (one_worker Idle [7] 0 [] [] Awake [] 1)"
proof -
  let ?s0 = "sync_ctor 0 1 :: nat sync_pool"
  let ?p1 = "(ThreadPool_ctor 0 1)\<lparr>is_running := True, workers := [Idle]\<rparr> :: nat ThreadPool"
  let ?s1 = "?s0\<lparr>pl := ?p1, parking := [Awake]\<rparr>"
  let ?s2 = "?s1\<lparr>pl := enqueue_test 7 ?p1\<rparr>"
  note d = sync_ctor_def ThreadPool_ctor_def pool_start_def enqueue_test_def enqueue_push_def one_worker_def
  have "reachable sync_init sync_step ?s0" by (rule reach_start) (auto simp: sync_init_def)
  then have "reachable sync_init sync_step ?s1"
    by (rule sync_reach_step) (rule sync_step.start [of _ ?p1], simp_all add: d)
  then have "reachable sync_init sync_step ?s2"
    by (rule sync_reach_step) (rule sync_step.test [of _ 7], simp)
  then show ?thesis
    by (rule sync_reach_step) (rule sync_step.push [of 7], simp_all add: d)
qed

lemma one_worker_waiters:
  "reachable sync_init sync_step (one_worker Idle [7] 0 [] [] Awake ws 1) \<Longrightarrow>
   reachable sync_init sync_step (one_worker Idle [7] 0 [] [] Awake (ws @ [WTest]) 1)"
  using sync_step.wait_call [of "one_worker Idle [7] 0 [] [] Awake ws 1"]
  by (auto simp: one_worker_def elim: reach_step)

theorem condition_variables_refine_witness:
  "reachable pool_init pool_step (pl (one_worker Idle [7] 0 [] [] Awake [] 1))"
  using condition_variables_refine [OF one_worker_pushed] by simp

text \<open>
  C12: A running pool finishes its work, and no wake-up is lost on the way. Left to themselves,
  without new calls and without spurious wake-ups, and if every task that is run ends, the threads
  make only finitely many steps; and when none of them can go on, every task pushed so far has
  been run, the condition of \<^verbatim>\<open>wait\<close> holds, and a caller of \<^verbatim>\<open>wait\<close>, if there is at most
  one, has returned.
\<close>

theorem running_pool_finishes:
  assumes "reachable sync_init sync_step s" and "is_running (pl s)"
  shows "(\<exists>n s'. (sync_internal ^^ n) s s' \<and> (\<nexists>s''. sync_internal s' s'')) \<and>
     (\<forall>n s'. (sync_internal ^^ n) s s' \<longrightarrow> n \<le> cost s \<and>
        ((\<nexists>s''. sync_internal s' s'') \<longrightarrow>
           wait_done (pl s') \<and> mset (ended (pl s')) = mset (pushed (pl s)) \<and>
           (length (waiters s) \<le> 1 \<longrightarrow> set (waiters s') \<subseteq> {WReturned})))"
proof -
  have inv: "sync_inv s" using assms(1) by (rule sync.reachable_inv)
  have ends: "wait_done (pl s') \<and> mset (ended (pl s')) = mset (pushed (pl s)) \<and>
      (length (waiters s) \<le> 1 \<longrightarrow> set (waiters s') \<subseteq> {WReturned})"
    if run: "(sync_internal ^^ n) s s'" and quiet: "\<nexists>s''. sync_internal s' s''" for n s'
  proof -
    have inv': "sync_inv s'" using internal_steps_cost [OF run inv] by simp
    note k = internal_steps_keep [OF run]
    have fin: "wait_done (pl s') \<and> mset (ended (pl s')) = mset (pushed (pl s))"
      using quiescent_running [OF inv' quiet] assms(2) k by simp
    have "WTest \<notin> set (waiters s')" "MustNotify \<notin> set (parking s')"
      using quiescent_shape [OF sync_invD(1) [OF inv'] quiet] by simp_all
    moreover have "WAsleep \<notin> set (waiters s')" if "length (waiters s) \<le> 1"
      using sync_invD(5) [OF inv'] that k fin calculation(2) by auto
    ultimately have "set (waiters s') \<subseteq> {WReturned}" if "length (waiters s) \<le> 1"
      using that by (auto, metis waiter.exhaust)
    with fin show ?thesis by blast
  qed
  have "\<exists>n s'. (sync_internal ^^ n) s s' \<and> (\<nexists>s''. sync_internal s' s'')"
  proof (rule ccontr)
    assume "\<nexists>n s'. (sync_internal ^^ n) s s' \<and> (\<nexists>s''. sync_internal s' s'')"
    then have more: "\<exists>s''. sync_internal s' s''" if "(sync_internal ^^ n) s s'" for n s' using that by blast
    have "\<exists>s'. (sync_internal ^^ n) s s'" for n
    proof (induction n)
      case (Suc n)
      then show ?case using more by (blast intro: relpowp_Suc_I)
    qed auto
    then obtain s' where "(sync_internal ^^ Suc (cost s)) s s'" by blast
    then show False using internal_steps_cost [OF _ inv, of "Suc (cost s)"] by auto
  qed
  moreover have "n \<le> cost s" if "(sync_internal ^^ n) s s'" for n s'
    using internal_steps_cost [OF that inv] by simp
  ultimately show ?thesis using ends by blast
qed

theorem running_pool_finishes_witness:
  "\<exists>n s'. (sync_internal ^^ n) (one_worker Idle [7] 0 [] [] Awake [WTest] 1) s' \<and>
     wait_done (pl s') \<and> ended (pl s') = [7] \<and> set (waiters s') \<subseteq> {WReturned}"
proof -
  let ?s = "one_worker Idle [7] 0 [] [] Awake [WTest] 1"
  have "reachable sync_init sync_step ?s" using one_worker_waiters [OF one_worker_pushed] by simp
  moreover have "is_running (pl ?s)" "mset (pushed (pl ?s)) = {#7#}" "length (waiters ?s) \<le> 1"
    by (simp_all add: one_worker_def)
  ultimately show ?thesis
    using running_pool_finishes [of ?s] by (metis mset_single_iff_right)
qed

text \<open>
  \<^verbatim>\<open>cv_done_.notify_one()\<close> wakes one caller only. With two callers of \<^verbatim>\<open>wait\<close> the pool
  reaches a state in which all tasks are done, the condition both wait for holds and no thread
  can go on, and one of the callers still sleeps.
\<close>

lemma second_waiter_sleeps_on:
  "\<exists>s :: nat sync_pool. reachable sync_init sync_step s \<and> is_running (pl s) \<and> wait_done (pl s) \<and>
     ended (pl s) = pushed (pl s) \<and> pushed (pl s) \<noteq> [] \<and>
     waiters s = [WReturned, WAsleep] \<and> (\<nexists>s'. sync_internal s s')"
proof -
  note d = one_worker_def worker_wait_def worker_section_def waiter_test_def wait_done_def task_ends_def
    count_down_def notify_one_def
  let ?reach = "reachable sync_init sync_step"
  have "?reach (one_worker Idle [7] 0 [] [] Awake [WTest, WTest] 1)"
    using one_worker_waiters [OF one_worker_waiters [OF one_worker_pushed]] by simp
  then have "?reach (one_worker Idle [7] 0 [] [] Awake [WAsleep, WTest] 1)"
    by (rule sync_reach_internal) (rule sync_internal.wait_test [of 0], simp_all add: d)
  then have "?reach (one_worker Idle [7] 0 [] [] Awake [WAsleep, WAsleep] 1)"
    by (rule sync_reach_internal) (rule sync_internal.wait_test [of 1], simp_all add: d)
  then have "?reach (one_worker Idle [7] 0 [] [] Awake [WAsleep, WAsleep] 0)"
    by (rule sync_reach_internal) (rule sync_internal.notify_work [of _ "[Awake]"], simp_all add: d)
  then have "?reach (one_worker (Running 7) [] 1 [7] [] Awake [WAsleep, WAsleep] 0)"
    by (rule sync_reach_internal) (rule sync_internal.wait_work [of 0], simp_all add: d)
  then have "?reach (one_worker (Ran 7) [] 1 [7] [7] Awake [WAsleep, WAsleep] 0)"
    by (rule sync_reach_internal) (rule sync_internal.end_task [of 0 _ 7], simp_all add: d)
  then have "?reach (one_worker Idle [] 0 [7] [7] MustNotify [WAsleep, WAsleep] 0)"
    by (rule sync_reach_internal) (rule sync_internal.count [of 0 _ 7], simp_all add: d)
  then have "?reach (one_worker Idle [] 0 [7] [7] Awake [WTest, WAsleep] 0)"
    by (rule sync_reach_internal)
      (rule sync_internal.notify_done [of 0 _ "[WTest, WAsleep]"], auto simp: d intro!: exI [of _ 0])
  then have "?reach (one_worker Idle [] 0 [7] [7] Awake [WReturned, WAsleep] 0)"
    by (rule sync_reach_internal) (rule sync_internal.wait_test [of 0], simp_all add: d)
  then have "?reach (one_worker Idle [] 0 [7] [7] Parked [WReturned, WAsleep] 0)"
    by (rule sync_reach_internal) (rule sync_internal.wait_work [of 0], simp_all add: d)
  moreover have "\<nexists>s'. sync_internal (one_worker Idle [] 0 [7] [7] Parked [WReturned, WAsleep] 0) s'"
    by (auto simp: one_worker_def less_Suc_eq elim!: sync_internalE)
  ultimately show ?thesis
    by (intro exI [of _ "one_worker Idle [] 0 [7] [7] Parked [WReturned, WAsleep] 0"]) (simp add: d)
qed

end
