(* ===== verification/Service_Loop.thy ===== *)
theory Service_Loop
  imports Service_Manager
begin

text \<open>
  The service loop on its REP socket: what \<^verbatim>\<open>pollOnce\<close> makes of the socket's states, pass
  after pass. The socket is ZeroMQ's: an argument of every definition, with what the ZeroMQ
  documentation says of a REP socket as a predicate, \<open>rep_socket\<close>. Receiving and sending
  alternate, each with whole messages: after a request has been received in full the reply is
  due, and a call that is not in turn throws.
\<close>

section \<open>The socket\<close>

record 'z rep_api =
  api_recv :: "'z \<Rightarrow> frame_result \<times> 'z"
  api_send :: "sent \<Rightarrow> 'z \<Rightarrow> exn option \<times> 'z"

text \<open>Nothing of a request has been read, some of its frames, or all of them.\<close>

datatype rep_phase = Listening | InRequest | Replying

definition is_zmq_error :: "exn \<Rightarrow> bool" where
  "is_zmq_error e \<longleftrightarrow> (case e of ZmqError _ _ \<Rightarrow> True | _ \<Rightarrow> False)"

definition recv_law :: "'z rep_api \<Rightarrow> ('z \<Rightarrow> rep_phase) \<Rightarrow> 'z \<Rightarrow> bool" where
  "recv_law api phase z \<longleftrightarrow>
     (case api_recv api z of
        (NoFrame, z') \<Rightarrow> phase z = Listening \<and> phase z' = Listening
      | (Frame b has_more, z') \<Rightarrow> phase z \<noteq> Replying \<and> phase z' = (if has_more then InRequest else Replying)
      | (FrameThrew e, z') \<Rightarrow> is_zmq_error e \<and> phase z' = phase z)"

definition send_law :: "'z rep_api \<Rightarrow> ('z \<Rightarrow> rep_phase) \<Rightarrow> sent \<Rightarrow> 'z \<Rightarrow> bool" where
  "send_law api phase frame z \<longleftrightarrow>
     (case api_send api frame z of
        (None, z') \<Rightarrow> phase z = Replying \<and> phase z' = (if snd frame then Replying else Listening)
      | (Some e, z') \<Rightarrow> phase z \<noteq> Replying \<and> is_zmq_error e \<and> z' = z)"

definition rep_socket :: "'z rep_api \<Rightarrow> ('z \<Rightarrow> rep_phase) \<Rightarrow> bool" where
  "rep_socket api phase \<longleftrightarrow> (\<forall>z. recv_law api phase z) \<and> (\<forall>frame z. send_law api phase frame z)"

lemma rep_recv:
  assumes "rep_socket api phase"
  shows "api_recv api z = (NoFrame, z') \<Longrightarrow> phase z = Listening \<and> phase z' = Listening"
    and "api_recv api z = (Frame b has_more, z') \<Longrightarrow>
      phase z \<noteq> Replying \<and> phase z' = (if has_more then InRequest else Replying)"
    and "api_recv api z = (FrameThrew e, z') \<Longrightarrow> is_zmq_error e \<and> phase z' = phase z"
    and "phase z = Replying \<Longrightarrow> \<exists>n m z'. api_recv api z = (FrameThrew (ZmqError n m), z') \<and> phase z' = Replying"
proof -
  have law: "recv_law api phase z" using assms by (simp add: rep_socket_def)
  then show "api_recv api z = (NoFrame, z') \<Longrightarrow> phase z = Listening \<and> phase z' = Listening"
    "api_recv api z = (Frame b has_more, z') \<Longrightarrow>
      phase z \<noteq> Replying \<and> phase z' = (if has_more then InRequest else Replying)"
    "api_recv api z = (FrameThrew e, z') \<Longrightarrow> is_zmq_error e \<and> phase z' = phase z"
    by (simp_all add: recv_law_def)
  show "\<exists>n m z'. api_recv api z = (FrameThrew (ZmqError n m), z') \<and> phase z' = Replying" if "phase z = Replying"
    using law that unfolding recv_law_def is_zmq_error_def
    by (cases "api_recv api z"; cases "fst (api_recv api z)") (auto split: exn.splits)
qed

lemma rep_send:
  assumes "rep_socket api phase"
  shows "phase z = Replying \<Longrightarrow>
      \<exists>z'. api_send api frame z = (None, z') \<and> phase z' = (if snd frame then Replying else Listening)"
    and "phase z \<noteq> Replying \<Longrightarrow>
      \<exists>n m. api_send api frame z = (Some (ZmqError n m), z)"
proof -
  have law: "send_law api phase frame z" using assms unfolding rep_socket_def by blast
  show "\<exists>z'. api_send api frame z = (None, z') \<and> phase z' = (if snd frame then Replying else Listening)"
    if "phase z = Replying"
    using law that unfolding send_law_def by (cases "api_send api frame z"; cases "fst (api_send api frame z)") auto
  show "\<exists>n m. api_send api frame z = (Some (ZmqError n m), z)" if "phase z \<noteq> Replying"
    using law that unfolding send_law_def is_zmq_error_def
    by (cases "api_send api frame z"; cases "fst (api_send api frame z)") (auto split: exn.splits)
qed

section \<open>One pass\<close>

definition reply_on :: "'z rep_api \<Rightarrow> Response \<Rightarrow> 'z \<Rightarrow> exn option \<times> sent list \<times> 'z" where
  "reply_on api response z =
     (case api_send api (bytes_of_string (code response), True) z of
        (Some e, z1) \<Rightarrow> (Some e, [], z1)
      | (None, z1) \<Rightarrow>
          (case api_send api (payload response, False) z1 of
             (Some e, z2) \<Rightarrow> (Some e, [(bytes_of_string (code response), True)], z2)
           | (None, z2) \<Rightarrow> (None, [(bytes_of_string (code response), True), (payload response, False)], z2)))"

text \<open>
  \<^verbatim>\<open>pollOnce\<close> with the socket it works on: the exception that leaves it, the frames that went
  out, the socket and the handlers' world afterwards.
\<close>

definition poll_socket ::
  "'z rep_api \<Rightarrow> 's ServiceManager \<Rightarrow> 'z \<Rightarrow> 's \<Rightarrow> exn option \<times> sent list \<times> 'z \<times> 's" where
  "poll_socket api m z s =
     (case api_recv api z of
        (NoFrame, z1) \<Rightarrow> (None, [], z1, s)
      | (FrameThrew e, z1) \<Rightarrow> (catch_zmq (Some e), [], z1, s)
      | (Frame name_bytes has_more, z1) \<Rightarrow>
          (case decodeServiceHeader (view_of name_bytes) of
             None \<Rightarrow> (Some MemoryError, [], z1, s)
           | Some service_name \<Rightarrow>
               if \<not> has_more then (None, [], z1, s)
               else (case api_recv api z1 of
                       (NoFrame, z2) \<Rightarrow> (None, [], z2, s)
                     | (FrameThrew e, z2) \<Rightarrow> (catch_zmq (Some e), [], z2, s)
                     | (Frame payload_bytes more2, z2) \<Rightarrow>
                         (case handleRequest m service_name (view_of payload_bytes) Response_default s of
                            (Some e, response, s') \<Rightarrow> (catch_zmq (Some e), [], z2, s')
                          | (None, response, s') \<Rightarrow>
                              (case reply_on api response z2 of
                                 (exc, out, z3) \<Rightarrow> (catch_zmq exc, out, z3, s'))))))"

text \<open>
  The passes the periodic task makes: it drops what a pass throws. For every pass, whether a frame
  arrived and what was sent.
\<close>

fun is_frame :: "frame_result \<Rightarrow> bool" where
  "is_frame (Frame b has_more) = True"
| "is_frame _ = False"

fun poll_passes ::
  "'z rep_api \<Rightarrow> 's ServiceManager \<Rightarrow> nat \<Rightarrow> 'z \<Rightarrow> 's \<Rightarrow> (bool \<times> sent list) list \<times> 'z \<times> 's" where
  "poll_passes api m 0 z s = ([], z, s)"
| "poll_passes api m (Suc n) z s =
     (case poll_socket api m z s of (exc, out, z1, s1) \<Rightarrow>
        (case poll_passes api m n z1 s1 of (rs, z2, s2) \<Rightarrow>
           ((is_frame (fst (api_recv api z)), out) # rs, z2, s2)))"

text \<open>It is the pass of \<^theory_text>\<open>Service_Manager\<close> on the answers this socket gives.\<close>

lemma poll_socket_answers:
  "\<exists>recv1 recv2 send1 send2 z'. recv1 = fst (api_recv api z) \<and>
     recv2 = fst (api_recv api (snd (api_recv api z))) \<and>
     (case service_pollOnce m recv1 recv2 send1 send2 s of (exc, out, s') \<Rightarrow>
        poll_socket api m z s = (exc, out, z', s'))"
proof -
  obtain r1 z1 where r1: "api_recv api z = (r1, z1)" by fastforce
  obtain r2 z2 where r2: "api_recv api z1 = (r2, z2)" by fastforce
  have reply: "\<exists>x1 x2 z3. reply_on api response z2 =
      (fst (send_reply x1 x2 response), snd (send_reply x1 x2 response), z3)" for response
  proof -
    obtain x1 y1 where s1: "api_send api (bytes_of_string (code response), True) z2 = (x1, y1)" by fastforce
    obtain x2 y2 where s2: "api_send api (payload response, False) y1 = (x2, y2)" by fastforce
    show ?thesis
      using s1 s2 by (intro exI [of _ x1] exI [of _ x2] exI [of _ "if x1 = None then y2 else y1"])
        (auto simp: reply_on_def send_reply_def split: option.splits)
  qed
  let ?P = "\<lambda>send1 send2 z'. case service_pollOnce m r1 r2 send1 send2 s of (exc, out, s') \<Rightarrow>
      poll_socket api m z s = (exc, out, z', s')"
  have "\<exists>send1 send2 z'. ?P send1 send2 z'"
  proof (cases "\<exists>nb pb more2. r1 = Frame nb True \<and> r2 = Frame pb more2")
    case True
    then obtain nb pb more2 where f: "r1 = Frame nb True" "r2 = Frame pb more2" by blast
    obtain nm where nm: "decodeServiceHeader (view_of nb) = Some nm" by (simp add: decodeServiceHeader_eq)
    obtain exc r s' where h: "handleRequest m nm (view_of pb) Response_default s = (exc, r, s')"
      using prod_cases3 by blast
    obtain x1 x2 z3 where "reply_on api r z2 = (fst (send_reply x1 x2 r), snd (send_reply x1 x2 r), z3)"
      using reply by blast
    then have "?P x1 x2 (if exc = None then z3 else z2)"
      using r1 r2 f nm h by (cases exc) (simp_all add: poll_socket_def service_pollOnce_def split: prod.splits)
    then show ?thesis by (intro exI)
  next
    case False
    have "\<exists>z'. ?P None None z'"
      using r1 r2 False
      by (cases r1; cases r2) (auto simp: poll_socket_def service_pollOnce_def split: option.splits)
    then show ?thesis by (elim exE) (intro exI)
  qed
  with r1 r2 show ?thesis by auto
qed

section \<open>How a pass moves the socket\<close>

lemma header_decodes: "\<exists>nm. decodeServiceHeader (view_of b) = Some nm"
  by (simp add: decodeServiceHeader_eq)

lemma catch_zmq_error [simp]: "is_zmq_error e \<Longrightarrow> catch_zmq (Some e) = None"
  by (cases e) (simp_all add: is_zmq_error_def)

lemma poll_not_in_turn:
  assumes "rep_socket api phase" and "phase z = Replying"
  shows "\<exists>z'. poll_socket api m z s = (None, [], z', s) \<and> phase z' = Replying \<and> \<not> is_frame (fst (api_recv api z))"
  using rep_recv(4) [OF assms] by (auto simp: poll_socket_def)

text \<open>Once a reply is due that the code does not send, no later pass does anything.\<close>

lemma passes_not_in_turn:
  assumes "rep_socket api phase" and "phase z = Replying"
  shows "\<exists>z'. poll_passes api m n z s = (replicate n (False, []), z', s) \<and> phase z' = Replying"
  using assms(2)
proof (induction n arbitrary: z)
  case (Suc n)
  obtain z1 where z1: "poll_socket api m z s = (None, [], z1, s)" "phase z1 = Replying"
    "\<not> is_frame (fst (api_recv api z))"
    using poll_not_in_turn [OF assms(1) Suc.prems, of m s] by blast
  with Suc.IH [OF z1(2)] show ?case by auto
qed simp

lemma reply_in_turn:
  assumes "rep_socket api phase" and "phase z = Replying"
  shows "\<exists>z'. reply_on api r z = (None, [(bytes_of_string (code r), True), (payload r, False)], z') \<and>
     phase z' = Listening"
proof -
  obtain z1 where z1: "api_send api (bytes_of_string (code r), True) z = (None, z1)" "phase z1 = Replying"
    using rep_send(1) [OF assms, of "(bytes_of_string (code r), True)"] by auto
  obtain z2 where z2: "api_send api (payload r, False) z1 = (None, z2)" "phase z2 = Listening"
    using rep_send(1) [OF assms(1) z1(2), of "(payload r, False)"] by auto
  from z1 z2 show ?thesis by (simp add: reply_on_def)
qed

lemma reply_too_early:
  assumes "rep_socket api phase" and "phase z = InRequest"
  shows "\<exists>e. reply_on api r z = (Some e, [], z) \<and> is_zmq_error e"
proof -
  have "phase z \<noteq> Replying" using assms(2) by simp
  from rep_send(2) [OF assms(1) this, of "(bytes_of_string (code r), True)"] show ?thesis
    by (auto simp: reply_on_def is_zmq_error_def)
qed

text \<open>A request of exactly two frames.\<close>

lemma poll_two_frames:
  assumes rep: "rep_socket api phase"
    and r1: "api_recv api z = (Frame nb True, z1)" and r2: "api_recv api z1 = (Frame pb False, z2)"
    and h: "decodeServiceHeader (view_of nb) = Some nm"
    and hr: "handleRequest m nm (view_of pb) Response_default s = (None, r, s')"
  shows "\<exists>z3. poll_socket api m z s =
     (None, [(bytes_of_string (code r), True), (payload r, False)], z3, s') \<and> phase z3 = Listening"
proof -
  have "phase z2 = Replying" using rep_recv(2) [OF rep r2] by simp
  from reply_in_turn [OF rep this, of r] show ?thesis using r1 r2 h hr by (auto simp: poll_socket_def)
qed

text \<open>Handlers that throw standard exceptions only: every request is answered.\<close>

definition std_handlers :: "'s ServiceManager \<Rightarrow> bool" where
  "std_handlers m \<longleftrightarrow>
     (\<forall>nm h view s e. map_of (handlers m) nm = Some h \<longrightarrow> fst (h view s) = Inl e \<longrightarrow> is_std_exception e)"

lemma std_handlers_answer:
  assumes "std_handlers m"
  shows "fst (handleRequest m nm view r s) = None"
proof (cases "map_of (handlers m) nm")
  case (Some h)
  obtain x s' where "h view s = (x, s')" by fastforce
  moreover from this have "status_of_exn e \<noteq> None" if "x = Inl e" for e
    using that Some assms by (simp add: std_handlers_def status_of_exn_None) (metis fst_conv)
  ultimately show ?thesis using Some by (cases x) (auto simp: handleRequest_def)
qed (simp add: handleRequest_def)

text \<open>Clients that send requests of two frames, as \<^verbatim>\<open>Client::sendRequest\<close> does.\<close>

definition two_frame_clients :: "'z rep_api \<Rightarrow> ('z \<Rightarrow> rep_phase) \<Rightarrow> bool" where
  "two_frame_clients api phase \<longleftrightarrow>
     (\<forall>z b has_more z1. phase z = Listening \<longrightarrow> api_recv api z = (Frame b has_more, z1) \<longrightarrow>
        has_more \<and> (\<exists>pb. fst (api_recv api z1) = Frame pb False))"

lemma poll_two_frame_clients:
  assumes "rep_socket api phase" and "two_frame_clients api phase" and "std_handlers m" and "phase z = Listening"
  shows "case poll_socket api m z s of (exc, out, z', s') \<Rightarrow> phase z' = Listening \<and>
     (if is_frame (fst (api_recv api z)) then (\<exists>st b. out = [(bytes_of_string st, True), (b, False)])
      else out = [] \<and> s' = s)"
proof (cases "api_recv api z")
  case (Pair r1 z1)
  show ?thesis
  proof (cases r1)
    case NoFrame
    with Pair rep_recv(1) [OF assms(1), of z z1] show ?thesis by (simp add: poll_socket_def)
  next
    case (Frame nb has_more)
    then obtain pb z2 where r2: "api_recv api z1 = (Frame pb False, z2)" and more: "has_more"
      using assms(2,4) Pair unfolding two_frame_clients_def by (metis prod.collapse)
    obtain nm where nm: "decodeServiceHeader (view_of nb) = Some nm" using header_decodes by blast
    obtain r s' where "handleRequest m nm (view_of pb) Response_default s = (None, r, s')"
      using std_handlers_answer [OF assms(3), of nm "view_of pb" Response_default s] by (metis prod.collapse)
    with poll_two_frames [OF assms(1) _ r2 nm] Pair Frame more show ?thesis by fastforce
  next
    case (FrameThrew e)
    with Pair rep_recv(3) [OF assms(1), of z e z1] assms(4) show ?thesis by (simp add: poll_socket_def)
  qed
qed

section \<open>A socket to run it on\<close>

text \<open>
  A REP socket with the requests that wait in it: the frames left of the current request, the
  requests after it, and whether the reply is due.
\<close>

type_synonym queue_socket = "bytes list \<times> (bytes \<times> bytes list) list \<times> bool"

fun queue_recv :: "queue_socket \<Rightarrow> frame_result \<times> queue_socket" where
  "queue_recv (fs, ms, True) = (FrameThrew (ZmqError 156384763 ''Operation cannot be accomplished in current state''), (fs, ms, True))"
| "queue_recv ([], [], False) = (NoFrame, ([], [], False))"
| "queue_recv ([], (f, fs) # ms, False) = (Frame f (fs \<noteq> []), (fs, ms, fs = []))"
| "queue_recv (f # fs, ms, False) = (Frame f (fs \<noteq> []), (fs, ms, fs = []))"

fun queue_send :: "sent \<Rightarrow> queue_socket \<Rightarrow> exn option \<times> queue_socket" where
  "queue_send (b, has_more) (fs, ms, True) = (None, ([], ms, has_more))"
| "queue_send (b, has_more) (fs, ms, False) =
     (Some (ZmqError 156384763 ''Operation cannot be accomplished in current state''), (fs, ms, False))"

definition queue_api :: "queue_socket rep_api" where
  "queue_api = \<lparr>api_recv = queue_recv, api_send = queue_send\<rparr>"

fun queue_phase :: "queue_socket \<Rightarrow> rep_phase" where
  "queue_phase (fs, ms, True) = Replying"
| "queue_phase ([], ms, False) = Listening"
| "queue_phase (f # fs, ms, False) = InRequest"

lemma queue_rep_socket: "rep_socket queue_api queue_phase"
proof -
  have "recv_law queue_api queue_phase z" for z
  proof (cases z rule: queue_recv.cases)
    case (3 f fs ms)
    then show ?thesis by (cases fs) (simp_all add: recv_law_def queue_api_def)
  next
    case (4 f fs ms)
    then show ?thesis by (cases fs) (simp_all add: recv_law_def queue_api_def)
  qed (simp_all add: recv_law_def queue_api_def is_zmq_error_def)
  moreover have "send_law queue_api queue_phase frame z" for frame z
    by (cases "(frame, z)" rule: queue_send.cases; cases "fst z")
      (auto simp: send_law_def queue_api_def is_zmq_error_def)
  ultimately show ?thesis by (simp add: rep_socket_def)
qed

definition nobody :: "unit ServiceManager" where
  "nobody = \<lparr>handlers = [], sm_service_port = 1\<rparr>"

section \<open>Properties\<close>

text \<open>
  C11: The service stays available: as long as clients send requests of two frames and handlers throw
  nothing but standard exceptions, after any number of passes the socket is listening again,
  every pass that received a request has sent exactly one reply of two frames for it, and every
  other pass has sent nothing.
\<close>

theorem service_stays_available:
  assumes "rep_socket api phase" and "two_frame_clients api phase" and "std_handlers m" and "phase z = Listening"
  shows "case poll_passes api m n z s of (rs, z', s') \<Rightarrow> phase z' = Listening \<and> length rs = n \<and>
     (\<forall>(got, out) \<in> set rs. if got then (\<exists>st b. out = [(bytes_of_string st, True), (b, False)]) else out = [])"
  using assms(4)
proof (induction n arbitrary: z s)
  case (Suc n)
  obtain exc out z1 s1 where p: "poll_socket api m z s = (exc, out, z1, s1)" using prod_cases4 by blast
  have "phase z1 = Listening" and o: "if is_frame (fst (api_recv api z))
      then (\<exists>st b. out = [(bytes_of_string st, True), (b, False)]) else out = []"
    using poll_two_frame_clients [OF assms(1-3) Suc.prems, of s] p by (auto split: if_splits)
  with Suc.IH [of z1 s1] p show ?case by (cases "poll_passes api m n z1 s1") auto
qed simp

text \<open>A socket whose waiting requests all have two frames: name and payload.\<close>

fun pair_recv :: "bytes option \<times> (bytes \<times> bytes) list \<times> bool \<Rightarrow> frame_result \<times> bytes option \<times> (bytes \<times> bytes) list \<times> bool" where
  "pair_recv (p, ms, True) = (FrameThrew (ZmqError 156384763 []), (p, ms, True))"
| "pair_recv (None, [], False) = (NoFrame, (None, [], False))"
| "pair_recv (None, (nb, pb) # ms, False) = (Frame nb True, (Some pb, ms, False))"
| "pair_recv (Some pb, ms, False) = (Frame pb False, (None, ms, True))"

fun pair_send :: "sent \<Rightarrow> bytes option \<times> (bytes \<times> bytes) list \<times> bool \<Rightarrow> exn option \<times> bytes option \<times> (bytes \<times> bytes) list \<times> bool" where
  "pair_send (b, has_more) (p, ms, True) = (None, (None, ms, has_more))"
| "pair_send (b, has_more) (p, ms, False) = (Some (ZmqError 156384763 []), (p, ms, False))"

fun pair_phase :: "bytes option \<times> (bytes \<times> bytes) list \<times> bool \<Rightarrow> rep_phase" where
  "pair_phase (p, ms, True) = Replying"
| "pair_phase (None, ms, False) = Listening"
| "pair_phase (Some p, ms, False) = InRequest"

definition pair_api :: "(bytes option \<times> (bytes \<times> bytes) list \<times> bool) rep_api" where
  "pair_api = \<lparr>api_recv = pair_recv, api_send = pair_send\<rparr>"

lemma pair_rep_socket: "rep_socket pair_api pair_phase \<and> two_frame_clients pair_api pair_phase"
proof -
  have "recv_law pair_api pair_phase z" for z
    by (cases z rule: pair_recv.cases) (simp_all add: recv_law_def pair_api_def is_zmq_error_def)
  moreover have "send_law pair_api pair_phase frame z" for frame z
    by (cases "(frame, z)" rule: pair_send.cases; cases "fst z")
      (auto simp: send_law_def pair_api_def is_zmq_error_def)
  moreover have "has_more \<and> (\<exists>pb. fst (pair_recv z1) = Frame pb False)"
    if "pair_phase z = Listening" "pair_recv z = (Frame b has_more, z1)" for z b has_more z1
    using that by (cases z rule: pair_recv.cases) auto
  then have "two_frame_clients pair_api pair_phase"
    unfolding two_frame_clients_def pair_api_def by simp blast
  ultimately show ?thesis unfolding rep_socket_def by blast
qed

theorem service_stays_available_witness:
  "case poll_passes pair_api nobody 3 (None, [([101], [7]), ([102], [8])], False) () of (rs, z', s') \<Rightarrow>
     pair_phase z' = Listening \<and> length rs = 3"
proof -
  have "std_handlers nobody" by (simp add: std_handlers_def nobody_def)
  then show ?thesis
    using service_stays_available [of pair_api pair_phase nobody "(None, [([101], [7]), ([102], [8])], False)" 3 "()"]
      pair_rep_socket
    by (auto split: prod.splits)
qed

text \<open>
  C31: One request of a wrong shape ends the service. A request without a payload frame leaves a reply
  due that \<^verbatim>\<open>pollOnce\<close> never sends: whatever arrives afterwards, no later pass receives a
  frame, runs a handler or sends anything. A request of three frames is handled, but its reply is
  refused because the request has not been read in full, and the next pass takes the third
  frame for a request without payload, with the same end.
\<close>

theorem wrong_shape_ends_service:
  assumes "rep_socket api phase"
    and "(\<exists>nb z1. api_recv api z = (Frame nb False, z1) \<and> k = 1) \<or>
         (\<exists>nb pb xb z1 z2 z3. api_recv api z = (Frame nb True, z1) \<and> api_recv api z1 = (Frame pb True, z2) \<and>
            api_recv api z2 = (Frame xb False, z3) \<and> k = 2)"
    and "std_handlers m"
  shows "\<exists>rs z' s'. poll_passes api m k z s = (rs, z', s') \<and> (\<forall>r \<in> set rs. snd r = []) \<and> phase z' = Replying \<and>
     (\<forall>n. \<exists>z''. poll_passes api m n z' s' = (replicate n (False, []), z'', s'))"
proof -
  have one: "\<exists>z1. poll_socket api m y t = (None, [], z1, t) \<and> phase z1 = Replying"
    if "api_recv api y = (Frame b False, y1)" for y b y1 t
    using that rep_recv(2) [OF assms(1) that] header_decodes [of b] by (auto simp: poll_socket_def)
  from assms(2) have "\<exists>rs z' s'. poll_passes api m k z s = (rs, z', s') \<and> (\<forall>r \<in> set rs. snd r = []) \<and> phase z' = Replying"
  proof (elim disjE exE conjE)
    fix nb z1
    assume "api_recv api z = (Frame nb False, z1)" and k: "k = 1"
    from one [OF this(1), of s] k show ?thesis by (auto simp: numeral_eq_Suc)
  next
    fix nb pb xb z1 z2 z3
    assume r: "api_recv api z = (Frame nb True, z1)" "api_recv api z1 = (Frame pb True, z2)" and k: "k = 2"
      and r3: "api_recv api z2 = (Frame xb False, z3)"
    obtain nm where nm: "decodeServiceHeader (view_of nb) = Some nm" using header_decodes by blast
    obtain q s1 where h: "handleRequest m nm (view_of pb) Response_default s = (None, q, s1)"
      using std_handlers_answer [OF assms(3), of nm "view_of pb" Response_default s] by (metis prod.collapse)
    have "phase z2 = InRequest" using rep_recv(2) [OF assms(1) r(2)] by simp
    then obtain e where "reply_on api q z2 = (Some e, [], z2)" "is_zmq_error e"
      using reply_too_early [OF assms(1)] by blast
    then have "poll_socket api m z s = (None, [], z2, s1)" using r nm h by (simp add: poll_socket_def)
    with one [OF r3, of s1] k show ?thesis by (auto simp: numeral_2_eq_2)
  qed
  then obtain rs z' s' where "poll_passes api m k z s = (rs, z', s')" "\<forall>r \<in> set rs. snd r = []" "phase z' = Replying"
    by blast
  moreover from passes_not_in_turn [OF assms(1) this(3), of m _ s']
  have "\<forall>n. \<exists>z''. poll_passes api m n z' s' = (replicate n (False, []), z'', s')" by blast
  ultimately show ?thesis by blast
qed

theorem wrong_shape_ends_service_witness:
  "\<exists>rs z' s'. poll_passes queue_api nobody 1 ([], [([101], []), ([101], [[7]])], False) () = (rs, z', s') \<and>
     (\<forall>n. \<exists>z''. poll_passes queue_api nobody n z' s' = (replicate n (False, []), z'', s'))"
proof -
  have "std_handlers nobody" by (simp add: std_handlers_def nobody_def)
  moreover have "api_recv queue_api ([], [([101], []), ([101], [[7]])], False) = (Frame [101] False, ([], [([101], [[7]])], True))"
    by (simp add: queue_api_def)
  ultimately show ?thesis
    using wrong_shape_ends_service [OF queue_rep_socket, of "([], [([101], []), ([101], [[7]])], False)" 1 nobody "()"]
    by blast
qed

end
