(* ===== verification/Link_Interleaving.thy ===== *)
theory Link_Interleaving
  imports Subscriber_Manager
begin

text \<open>
  The subscriber manager and the registry as their threads interleave: the receiver stores a
  fetched description under \<^verbatim>\<open>data_mutex_\<close> and fires the update event after releasing it; a
  user's thread registers a subscriber, holding the manager's \<^verbatim>\<open>mutex_\<close> from before it reads
  the registry until the new subscriber is in the list; another user's thread announces a
  publisher of the local node. Each action is one of these critical sections, and an action that
  has to wait for \<^verbatim>\<open>mutex_\<close> is not enabled. No socket call throws, and no node is evicted.
\<close>

section \<open>State and actions\<close>

type_synonym 'u registry = "'u SubscriberManager NodeInfoManager"
type_synonym 'u callback = "ByteView \<Rightarrow> 'u \<Rightarrow> exn option \<times> 'u"

text \<open>
  \<open>registering\<close> is a call of \<^verbatim>\<open>_registerTopicSubscriber\<close> that has read the registry and not
  yet added its subscriber, with the registry as it read it; \<open>pending\<close> are the descriptions
  that are stored and whose update event has not reached the manager yet.
\<close>

record 'u linking =
  registry :: "'u registry"
  manager :: "'u SubscriberManager"
  registering :: "(string \<times> 'u callback \<times> 'u registry) option"
  pending :: "NodeInfo list"

datatype 'u action =
    BeginRegister string "'u callback"
  | EndRegister
  | Touch int HeartbeatMessage
  | Store int string NodeInfo
  | FireUpdate NodeInfo
  | LocalTopic string u16

fun link_do :: "(NodeInfo hash_map \<Rightarrow> NodeInfo hash_map) \<Rightarrow> 'u action \<Rightarrow> 'u linking \<Rightarrow> 'u linking option" where
  "link_do iter (BeginRegister topic cb) s =
     (if registering s \<noteq> None then None else Some (s\<lparr>registering := Some (topic, cb, registry s)\<rparr>))"
| "link_do iter EndRegister s =
     (case registering s of
        None \<Rightarrow> None
      | Some (topic, cb, read) \<Rightarrow>
          Some (s\<lparr>manager := snd (register_subscriber quiet None iter read topic cb (manager s)),
                  registering := None\<rparr>))"
| "link_do iter (Touch now hb) s = Some (s\<lparr>registry := fst (touchHeartbeat now hb (registry s))\<rparr>)"
| "link_do iter (Store now nid info) s =
     Some (s\<lparr>registry := updateNodeUnlocked now nid info (registry s), pending := pending s @ [info]\<rparr>)"
| "link_do iter (FireUpdate info) s =
     (if registering s \<noteq> None \<or> info \<notin> set (pending s) then None
      else Some (s\<lparr>manager := snd (updateTopicSubscriber quiet info (manager s)), pending := remove1 info (pending s)\<rparr>))"
| "link_do iter (LocalTopic nm port) s = Some (s\<lparr>registry := registerLocalTopic nm port (registry s)\<rparr>)"

fun link_run :: "(NodeInfo hash_map \<Rightarrow> NodeInfo hash_map) \<Rightarrow> 'u action list \<Rightarrow> 'u linking \<Rightarrow> 'u linking option" where
  "link_run iter [] s = Some s"
| "link_run iter (a # as) s = Option.bind (link_do iter a s) (link_run iter as)"

definition link_start :: "(nat \<Rightarrow> u32) \<Rightarrow> string \<Rightarrow> string \<Rightarrow> 'u linking" where
  "link_start draws nm addr =
     \<lparr>registry = NodeInfoManager_ctor draws nm addr, manager = sm_empty, registering = None, pending = []\<rparr>"

section \<open>What the calls do to the links\<close>

lemma connect_urls_quiet:
  "\<exists>sub'. connect_urls quiet urls sub = (None, sub') \<and> topicName sub' = topicName sub \<and>
     publisherURLs sub' = publisherURLs sub @ urls"
proof (induction urls arbitrary: sub)
  case (Cons url urls)
  let ?sub = "sub\<lparr>sub_socket := sub_socket sub @ [Connect url], publisherURLs := publisherURLs sub @ [url]\<rparr>"
  from Cons [of ?sub] show ?case by (simp add: sock_do_def)
qed simp

lemma links_register:
  "links (snd (register_subscriber quiet None iter nim topic cb m)) = links m @ [(topic, findTopicURLs iter nim topic)]"
proof -
  let ?sub = "\<lparr>topicName = topic, publisherURLs = [], sub_callback = cb, sub_socket = [SetSubscribe []]\<rparr>"
  obtain sub' where "connect_urls quiet (findTopicURLs iter nim topic) ?sub = (None, sub')"
    "topicName sub' = topic" "publisherURLs sub' = findTopicURLs iter nim topic"
    using connect_urls_quiet [of "findTopicURLs iter nim topic" ?sub] by auto
  then show ?thesis by (simp add: register_subscriber_def sock_do_def links_def)
qed

lemma links_update_quiet:
  "links (snd (updateTopicSubscriber quiet info m)) = map (link_update info) (links m)"
  by (rule follow.table_update) (simp add: update_snd for_topics_never_throws)

lemma findTopicURLs_remote:
  assumes "iter_order iter" and "hm_ok (nodes_info nim)" and "map_of (nodes_info nim) k = Some info"
  shows "set (urls_for topic info) \<subseteq> set (findTopicURLs iter nim topic)"
  using assms(3) by (force simp: urls_for_def findTopicURLs_def getPublisherInfo_set [OF assms(1,2)])

section \<open>No link is lost\<close>

definition linked :: "NodeInfo \<Rightarrow> 'u SubscriberManager \<Rightarrow> bool" where
  "linked info m \<longleftrightarrow> (\<forall>l \<in> set (links m). set (urls_for (fst l) info) \<subseteq> set (snd l))"

definition known :: "'u registry \<Rightarrow> NodeInfo set" where
  "known nim = ran (map_of (nodes_info nim))"

text \<open>
  Every known description is linked or its event is on the way; and a registration that has read
  the registry has seen every known description whose event is not on the way.
\<close>

definition linking_inv :: "'u linking \<Rightarrow> bool" where
  "linking_inv s \<longleftrightarrow> nim_inv (registry s) \<and>
     (\<forall>info \<in> known (registry s). info \<in> set (pending s) \<or> linked info (manager s)) \<and>
     (case registering s of
        None \<Rightarrow> True
      | Some (topic, cb, read) \<Rightarrow> nim_inv read \<and>
          (\<forall>info \<in> known (registry s). info \<in> set (pending s) \<or> info \<in> known read))"

lemma linked_register:
  assumes "iter_order iter" and "nim_inv read" and "info \<in> known read" and "linked info m"
  shows "linked info (snd (register_subscriber quiet None iter read topic cb m))"
proof -
  obtain k where "map_of (nodes_info read) k = Some info" using assms(3) by (auto simp: known_def ran_def)
  moreover have "hm_ok (nodes_info read)" using assms(2) by (simp add: nim_inv_def)
  ultimately have "set (urls_for topic info) \<subseteq> set (findTopicURLs iter read topic)"
    using assms(1) by (intro findTopicURLs_remote)
  with assms(4) show ?thesis by (simp add: linked_def links_register)
qed

lemma linked_update:
  "linked info (snd (updateTopicSubscriber quiet info m))"
  "linked i m \<Longrightarrow> linked i (snd (updateTopicSubscriber quiet info m))"
  by (auto simp: linked_def links_update_quiet link_update_def set_foldl_add_url)

lemma known_simps:
  "known (updateNodeUnlocked now nid info nim) \<subseteq> insert info (known nim)"
  "known (registerLocalTopic nm port nim) = known nim"
  "known (fst (touchHeartbeat now hb nim)) = known nim"
  by (auto simp: known_def updateNodeUnlocked_def registerLocalTopic_def touchHeartbeat_state ran_def Let_def
      split: if_splits)

lemma linking_inv_end_register:
  assumes "iter_order iter" and inv: "linking_inv s" and "link_do iter EndRegister s = Some s'"
  shows "linking_inv s'"
proof -
  from assms(3) obtain topic cb read where r: "registering s = Some (topic, cb, read)"
    and s': "s' = s\<lparr>manager := snd (register_subscriber quiet None iter read topic cb (manager s)), registering := None\<rparr>"
    by (auto split: option.splits)
  have "nim_inv read" using inv r by (simp add: linking_inv_def)
  note lr = linked_register [OF assms(1) this]
  have "linked info (manager s')" if "info \<in> known (registry s)" "info \<notin> set (pending s)" for info
  proof -
    have "info \<in> known read" "linked info (manager s)" using that inv r by (auto simp: linking_inv_def)
    with lr s' show ?thesis by simp
  qed
  with inv s' show ?thesis by (auto simp: linking_inv_def)
qed

lemma linking_inv_fire:
  assumes inv: "linking_inv s" and "link_do iter (FireUpdate info) s = Some s'"
  shows "linking_inv s'"
proof -
  have "registering s = None" using assms(2) by (cases "registering s") (auto split: if_splits)
  moreover from assms(2) have s': "s' = s\<lparr>manager := snd (updateTopicSubscriber quiet info (manager s)),
      pending := remove1 info (pending s)\<rparr>"
    by (auto split: if_splits)
  moreover have "linked i (manager s')" if "i \<in> known (registry s)" "i \<notin> set (pending s')" for i
  proof (cases "i = info")
    case True
    then show ?thesis using linked_update(1) s' by simp
  next
    case False
    then have "i \<notin> set (pending s)" using that(2) s' by simp
    then have "linked i (manager s)" using inv that(1) by (auto simp: linking_inv_def)
    then show ?thesis using linked_update(2) s' by simp
  qed
  ultimately show ?thesis using inv by (auto simp: linking_inv_def)
qed

lemma linking_inv_do:
  assumes iter: "iter_order iter" and inv: "linking_inv s" and step: "link_do iter a s = Some s'"
  shows "linking_inv s'"
proof (cases a)
  case (BeginRegister topic cb)
  with inv step show ?thesis by (auto simp: linking_inv_def split: if_splits)
next
  case EndRegister
  with linking_inv_end_register [OF iter inv] step show ?thesis by blast
next
  case (Touch now hb)
  with inv step show ?thesis
    by (auto simp: linking_inv_def known_simps intro: nim_inv_touch split: option.splits)
next
  case (Store now nid info)
  have "i = info \<or> i \<in> known (registry s)" if "i \<in> known (updateNodeUnlocked now nid info (registry s))" for i
    using that known_simps(1) by blast
  moreover have "s' = s\<lparr>registry := updateNodeUnlocked now nid info (registry s), pending := pending s @ [info]\<rparr>"
    using Store step by simp
  ultimately show ?thesis
    using inv unfolding linking_inv_def by (fastforce intro: nim_inv_updateNode split: option.splits)
next
  case (FireUpdate info)
  with linking_inv_fire [OF inv] step show ?thesis by blast
next
  case (LocalTopic nm port)
  with inv step show ?thesis
    by (auto simp: linking_inv_def known_simps intro: nim_inv_register split: option.splits)
qed

lemma linking_inv_run:
  "iter_order iter \<Longrightarrow> linking_inv s \<Longrightarrow> link_run iter as s = Some s' \<Longrightarrow> linking_inv s'"
proof (induction "as" arbitrary: s)
  case (Cons a "as")
  then obtain s1 where "link_do iter a s = Some s1" "link_run iter as s1 = Some s'"
    by (auto simp: bind_eq_Some_conv)
  with Cons linking_inv_do show ?case by blast
qed simp

lemma linking_inv_start: "linking_inv (link_start draws nm addr)"
  by (simp add: linking_inv_def link_start_def nim_inv_ctor)
    (simp add: known_def NodeInfoManager_ctor_def)

section \<open>Endpoints of the node itself\<close>

text \<open>The first \<open>n\<close> subscribers are not linked to \<open>u\<close>, and no event on the way will link them.\<close>

definition unseen :: "string \<Rightarrow> nat \<Rightarrow> 'u linking \<Rightarrow> bool" where
  "unseen u n s \<longleftrightarrow> n \<le> length (links (manager s)) \<and> (\<forall>l \<in> set (take n (links (manager s))). u \<notin> set (snd l)) \<and>
     (\<forall>info \<in> set (pending s). u \<notin> socket_url ` set (topics info))"

lemma link_update_other:
  "u \<notin> socket_url ` set (topics info) \<Longrightarrow> u \<in> set (snd (link_update info l)) \<longleftrightarrow> u \<in> set (snd l)"
  by (auto simp: link_update_def set_foldl_add_url urls_for_def)

lemma unseen_do:
  assumes "unseen u n s" and "link_do iter a s = Some s'"
    and "\<And>now nid info. a = Store now nid info \<Longrightarrow> u \<notin> socket_url ` set (topics info)"
  shows "unseen u n s'"
proof (cases a)
  case (FireUpdate info)
  then have s': "s' = s\<lparr>manager := snd (updateTopicSubscriber quiet info (manager s)), pending := remove1 info (pending s)\<rparr>"
    and "info \<in> set (pending s)"
    using assms(2) by (auto split: if_splits)
  then have "u \<notin> socket_url ` set (topics info)" using assms(1) by (simp add: unseen_def)
  then have "\<forall>l \<in> set (take n (links (manager s'))). u \<notin> set (snd l)"
    using assms(1) s' by (auto simp: unseen_def links_update_quiet take_map link_update_other)
  then show ?thesis using assms(1) s' by (auto simp: unseen_def links_update_quiet dest: notin_set_remove1)
qed (use assms in \<open>auto simp: unseen_def links_register split: option.splits if_splits\<close>)

lemma unseen_run:
  "link_run iter as s = Some s' \<Longrightarrow> unseen u n s \<Longrightarrow>
   (\<And>now nid info. Store now nid info \<in> set as \<Longrightarrow> u \<notin> socket_url ` set (topics info)) \<Longrightarrow> unseen u n s'"
proof (induction "as" arbitrary: s)
  case (Cons a "as")
  then obtain s1 where s1: "link_do iter a s = Some s1" "link_run iter as s1 = Some s'"
    by (auto simp: bind_eq_Some_conv)
  have "unseen u n s1" by (rule unseen_do [OF Cons.prems(2) s1(1)]) (use Cons.prems(3) in auto)
  from Cons.IH [OF s1(2) this] Cons.prems(3) show ?case by (meson list.set_intros(2))
qed simp

lemma local_topics_run:
  "link_run iter as s = Some s' \<Longrightarrow>
   set (topics (localNodeInfo (registry s))) \<subseteq> set (topics (localNodeInfo (registry s')))"
proof (induction "as" arbitrary: s)
  case (Cons a "as")
  then obtain s1 where s1: "link_do iter a s = Some s1" "link_run iter as s1 = Some s'"
    by (auto simp: bind_eq_Some_conv)
  from s1(1) have "set (topics (localNodeInfo (registry s))) \<subseteq> set (topics (localNodeInfo (registry s1)))"
    by (cases a) (auto simp: updateNodeUnlocked_def registerLocalTopic_def touchHeartbeat_state Let_def
        split: option.splits if_splits)
  with Cons.IH [OF s1(2)] show ?case by blast
qed simp

section \<open>Properties\<close>


text \<open>A subscriber registers while the description of a publisher's node is being stored.\<close>

definition link_example :: "unit action list" where
  "link_example = [BeginRegister ''t'' (\<lambda>_ u. (None, u)), Store 0 ''n'' node_example, EndRegister, FireUpdate node_example]"


text \<open>
  C36: The order of a node's own calls matters: a publisher that is announced after a subscriber of the
  same node never gets linked to it, whatever else happens, unless a remote node announces the
  same endpoint; a subscriber that is registered after the announcement is linked at once.
\<close>

theorem local_publisher_not_linked:
  assumes "iter_order iter" and "link_run iter bs (link_start draws nm addr) = Some s"
    and "u = tcp_url (ni_ip (localNodeInfo (registry s))) (unat port)"
    and "\<forall>l \<in> set (links (manager s)). u \<notin> set (snd l)" and "\<forall>info \<in> set (pending s). u \<notin> socket_url ` set (topics info)"
    and "\<forall>now nid info. Store now nid info \<in> set as \<longrightarrow> u \<notin> socket_url ` set (topics info)"
    and "link_run iter (LocalTopic topic port # as) s = Some s'"
  shows "(\<forall>i < length (links (manager s)). i < length (links (manager s')) \<and> u \<notin> set (snd (links (manager s') ! i))) \<and>
     (\<forall>cb s''. link_run iter [BeginRegister topic cb, EndRegister] s' = Some s'' \<longrightarrow>
        u \<in> set (snd (last (links (manager s'')))))"
proof -
  let ?n = "length (links (manager s))"
  let ?t = "\<lparr>si_name = topic, si_ip = ni_ip (localNodeInfo (registry s)), si_port = port\<rparr>"
  have t: "socket_url ?t = u" using assms(3) by (simp add: socket_url_def)
  let ?s1 = "s\<lparr>registry := registerLocalTopic topic port (registry s)\<rparr>"
  have run: "link_run iter as ?s1 = Some s'" using assms(7) by simp
  have "unseen u ?n ?s1" using assms(4,5) by (simp add: unseen_def)
  from unseen_run [OF run this] assms(6) have un: "unseen u ?n s'" by blast
  have "linking_inv s" using linking_inv_run [OF assms(1) linking_inv_start assms(2)] .
  then have "linking_inv ?s1" using linking_inv_do [OF assms(1), of s "LocalTopic topic port" ?s1] by simp
  then have inv: "linking_inv s'" using linking_inv_run [OF assms(1) _ run] by blast
  have "?t \<in> set (topics (localNodeInfo (registry ?s1)))" by (simp add: registerLocalTopic_def Let_def)
  then have "?t \<in> set (topics (localNodeInfo (registry s')))" using local_topics_run [OF run] by blast
  then have "?t \<in> set (getPublisherInfo iter topic (registry s'))"
    using inv by (subst getPublisherInfo_set [OF assms(1)]) (auto simp: linking_inv_def nim_inv_def)
  then have "u \<in> set (findTopicURLs iter (registry s') topic)" using t by (force simp: findTopicURLs_def)
  then have "u \<in> set (snd (last (links (manager s''))))"
    if "link_run iter [BeginRegister topic cb, EndRegister] s' = Some s''" for cb s''
    using that by (auto simp: links_register split: if_splits)
  moreover have "links (manager s') ! i \<in> set (take ?n (links (manager s')))" if "i < ?n" for i
    using that un by (auto simp: unseen_def in_set_conv_nth intro!: exI [of _ i])
  ultimately show ?thesis using un by (auto simp: unseen_def)
qed

text \<open>The subscriber first, then the publisher, as in \<^verbatim>\<open>examples/zerolancom_example.cpp\<close>.\<close>

theorem local_publisher_not_linked_witness:
  "\<exists>s. link_run rev [BeginRegister ''TestTopic'' (\<lambda>_ u. (None, u)), EndRegister, LocalTopic ''TestTopic'' 5555]
        (link_start (\<lambda>_. 0) ''TestNode'' ''127.0.0.1'' :: unit linking) = Some s \<and>
     tcp_url ''127.0.0.1'' (unat (5555 :: u16)) \<notin> set (snd (links (manager s) ! 0))"
proof -
  let ?start = "link_start (\<lambda>_. 0) ''TestNode'' ''127.0.0.1'' :: unit linking"
  let ?acts = "[BeginRegister ''TestTopic'' (\<lambda>_ u. (None, u)), EndRegister] :: unit action list"
  let ?m = "snd (register_subscriber quiet None rev (registry ?start) ''TestTopic'' (\<lambda>_ u. (None, u)) (sm_empty :: unit SubscriberManager))"
  let ?mid = "?start\<lparr>manager := ?m\<rparr>"
  have run: "link_run rev ?acts ?start = Some ?mid" by (simp add: link_start_def)
  have "links ?m = [(''TestTopic'', [])]"
    by (simp add: links_register) (simp add: links_def sm_empty_def findTopicURLs_def getPublisherInfo_def
        link_start_def NodeInfoManager_ctor_def)
  moreover have "ni_ip (localNodeInfo (registry ?mid)) = ''127.0.0.1''" "pending ?mid = []"
    by (simp_all add: link_start_def NodeInfoManager_ctor_def)
  moreover have "link_run rev [LocalTopic ''TestTopic'' 5555] ?mid =
      Some (?mid\<lparr>registry := registerLocalTopic ''TestTopic'' 5555 (registry ?mid)\<rparr>)" by simp
  ultimately show ?thesis
    using local_publisher_not_linked [OF iter_order_rev run, of "tcp_url ''127.0.0.1'' (unat (5555 :: u16))" 5555 "[]" "''TestTopic''"]
    by (auto simp: link_start_def)
qed

end
