(* ===== verification/Poll_Pointers.thy ===== *)
theory Poll_Pointers
  imports Subscriber_Manager
begin

text \<open>
  \<^verbatim>\<open>SubscriberManager::pollOnce\<close> with the memory behind \<^verbatim>\<open>subscribers_\<close>. The pass takes the
  addresses of the subscribers under the lock and follows them after releasing it, while another
  thread may register a subscriber: \<^verbatim>\<open>push_back\<close> on a full vector moves all elements to a
  larger block and frees the old one.
\<close>

section \<open>The vector and pointers into it\<close>

record 'u sub_vector =
  block :: nat
  capacity :: nat
  elems :: "'u Subscriber list"

type_synonym sub_ptr = "nat \<times> nat"

text \<open>How far a full vector grows is up to the standard library: \<open>grow\<close>.\<close>

definition push_back :: "(nat \<Rightarrow> nat) \<Rightarrow> 'u Subscriber \<Rightarrow> 'u sub_vector \<Rightarrow> 'u sub_vector" where
  "push_back grow sub v =
     (if length (elems v) < capacity v then v\<lparr>elems := elems v @ [sub]\<rparr>
      else \<lparr>block = Suc (block v), capacity = grow (capacity v), elems = elems v @ [sub]\<rparr>)"

text \<open>Reading through a pointer; \<open>None\<close> is a read outside live memory.\<close>

definition follow_ptr :: "'u sub_vector \<Rightarrow> sub_ptr \<Rightarrow> 'u Subscriber option" where
  "follow_ptr v p = (if fst p = block v then nth_opt (elems v) (snd p) else None)"

section \<open>The pass\<close>

text \<open>The part under the lock: one pointer per subscriber.\<close>

definition take_ptrs :: "'u sub_vector \<Rightarrow> sub_ptr list" where
  "take_ptrs v = map (Pair (block v)) [0 ..< length (elems v)]"

text \<open>The loop after the poll, on the vector as it is then.\<close>

fun dispatch_ptrs :: "'u sub_vector \<Rightarrow> (sub_ptr \<times> recv_result) list \<Rightarrow> 'u \<Rightarrow> exn option \<times> 'u" where
  "dispatch_ptrs v [] u = (None, u)"
| "dispatch_ptrs v ((p, NotReady) # ps) u = dispatch_ptrs v ps u"
| "dispatch_ptrs v ((p, r) # ps) u =
     (case follow_ptr v p of
        None \<Rightarrow> (Some MemoryError, u)
      | Some sub \<Rightarrow>
          (case r of
             RecvThrew e \<Rightarrow> (Some e, u)
           | Received msg \<Rightarrow>
               (case sub_callback sub (view_of msg) u of
                  (Some e, u') \<Rightarrow> (Some e, u')
                | (None, u') \<Rightarrow> dispatch_ptrs v ps u')
           | _ \<Rightarrow> dispatch_ptrs v ps u))"

text \<open>\<open>v\<close> is the vector while the lock is held, \<open>v'\<close> the one the pointers are followed in.\<close>

definition poll_ptrs :: "exn option \<Rightarrow> recv_result list \<Rightarrow> 'u sub_vector \<Rightarrow> 'u sub_vector \<Rightarrow> 'u \<Rightarrow> exn option \<times> 'u" where
  "poll_ptrs poll_exc answers v v' u =
     (case poll_exc of
        Some e \<Rightarrow> (swallow_std (Some e), u)
      | None \<Rightarrow> (case dispatch_ptrs v' (zip (take_ptrs v) answers) u of (exc, u') \<Rightarrow> (swallow_std exc, u')))"

text \<open>Registrations between the two.\<close>

fun registrations :: "(nat \<Rightarrow> nat) \<Rightarrow> 'u Subscriber list \<Rightarrow> 'u sub_vector \<Rightarrow> 'u sub_vector" where
  "registrations grow [] v = v"
| "registrations grow (s # ss) v = registrations grow ss (push_back grow s v)"

section \<open>When the pointers stay valid\<close>

lemma registrations_fit:
  "length (elems v) + length ss \<le> capacity v \<Longrightarrow>
   registrations grow ss v = v\<lparr>elems := elems v @ ss\<rparr>"
  by (induction ss arbitrary: v) (simp_all add: push_back_def)

lemma push_back_block: "block v \<le> block (push_back grow s v)"
  by (simp add: push_back_def)

lemma registrations_block: "block v \<le> block (registrations grow ss v)"
  by (induction ss arbitrary: v) (auto intro: le_trans push_back_block)

lemma registrations_move:
  assumes "length (elems v) \<le> capacity v" and "capacity v < length (elems v) + length ss"
  shows "block v < block (registrations grow ss v)"
  using assms
proof (induction ss arbitrary: v)
  case (Cons s ss)
  show ?case
  proof (cases "length (elems v) < capacity v")
    case True
    with Cons.prems Cons.IH [of "push_back grow s v"] show ?thesis by (simp add: push_back_def)
  next
    case False
    then have "block v < block (push_back grow s v)" by (simp add: push_back_def)
    also have "\<dots> \<le> block (registrations grow ss (push_back grow s v))" by (rule registrations_block)
    finally show ?thesis by simp
  qed
qed simp

lemma dispatch_ptrs_valid:
  assumes "list_all2 (\<lambda>p sub. follow_ptr v p = Some sub) ps subs"
  shows "dispatch_ptrs v (zip ps rs) u = dispatch (zip subs rs) u"
  using assms
proof (induction ps subs arbitrary: rs u rule: list_all2_induct)
  case (Cons p ps sub subs)
  show ?case
  proof (cases rs)
    case (Cons r rs')
    with Cons.IH Cons.hyps show ?thesis
      by (cases r) (auto split: prod.splits option.splits)
  qed simp
qed simp

lemma take_ptrs_valid:
  assumes "block v' = block v" and "elems v' = elems v @ ss"
  shows "list_all2 (\<lambda>p sub. follow_ptr v' p = Some sub) (take_ptrs v) (elems v)"
  using assms by (simp add: list_all2_conv_all_nth take_ptrs_def follow_ptr_def nth_opt_append_old nth_opt_Some_iff)

lemma dispatch_ptrs_dangling:
  assumes "\<forall>p \<in> set ps. fst p \<noteq> block v" and "length ps = length rs"
  shows "dispatch_ptrs v (zip ps rs) u = (if \<exists>r \<in> set rs. r \<noteq> NotReady then (Some MemoryError, u) else (None, u))"
  using assms(2,1)
proof (induction ps rs rule: list_induct2)
  case (Cons p ps r rs)
  then show ?case by (cases r) (simp_all add: follow_ptr_def)
qed simp

section \<open>Properties\<close>

text \<open>
  C35: A polling pass during which subscribers are registered delivers exactly what a pass without
  them would deliver as long as the vector has room for the new subscribers; as soon as one of
  them makes the vector grow, the first socket that has something to read makes the pass read
  freed memory.
\<close>

theorem poll_during_registration:
  assumes "length (elems v) \<le> capacity v" and "length answers = length (elems v)"
  shows "poll_ptrs None answers v (registrations grow ss v) u =
     (if length (elems v) + length ss \<le> capacity v then sm_pollOnce None answers \<lparr>subscribers = elems v\<rparr> u
      else if \<exists>r \<in> set answers. r \<noteq> NotReady then (Some MemoryError, u)
      else (None, u))"
proof (cases "length (elems v) + length ss \<le> capacity v")
  case True
  then have "registrations grow ss v = v\<lparr>elems := elems v @ ss\<rparr>" by (rule registrations_fit)
  moreover have "dispatch_ptrs (v\<lparr>elems := elems v @ ss\<rparr>) (zip (take_ptrs v) answers) u = dispatch (zip (elems v) answers) u"
    by (rule dispatch_ptrs_valid, rule take_ptrs_valid) simp_all
  ultimately show ?thesis using True by (simp add: poll_ptrs_def sm_pollOnce_def)
next
  case False
  then have "block v < block (registrations grow ss v)" using assms(1) by (intro registrations_move) simp_all
  then have "\<forall>p \<in> set (take_ptrs v). fst p \<noteq> block (registrations grow ss v)" by (auto simp: take_ptrs_def)
  then have "dispatch_ptrs (registrations grow ss v) (zip (take_ptrs v) answers) u =
      (if \<exists>r \<in> set answers. r \<noteq> NotReady then (Some MemoryError, u) else (None, u))"
    using assms(2) by (intro dispatch_ptrs_dangling) (simp_all add: take_ptrs_def)
  with False show ?thesis by (simp add: poll_ptrs_def swallow_std_def)
qed

theorem poll_during_registration_witness:
  "poll_ptrs None [Received [7]] \<lparr>block = 0, capacity = 1, elems = subscribers sm_example\<rparr>
     (registrations (\<lambda>c. 2 * c) (subscribers sm_example) \<lparr>block = 0, capacity = 1, elems = subscribers sm_example\<rparr>) () =
   (Some MemoryError, ())"
  using poll_during_registration [of "\<lparr>block = 0, capacity = 1, elems = subscribers sm_example\<rparr>" "[Received [7]]"
      "\<lambda>c. 2 * c" "subscribers sm_example" "()"]
  by (simp add: sm_example_def)

end
