(* ===== verification/Data_Races.thy ===== *)
theory Data_Races
  imports Concurrency Prelude
begin

text \<open>
  The data that threads of the library share and the accesses of its calls to it, in program
  order together with their lock operations. A data race, which is undefined behaviour in C++, is
  a state in which two threads are both about to access the same data, one of them to write it.
\<close>

section \<open>Threads that access shared data\<close>

text \<open>
  The three maps of the registry (descriptions, versions, times); the local description and the settings beside it; the
  callback lists of the two events; the vector of subscribers; the table of service handlers; the
  sockets of the context; the queue with its counter of active tasks and the flag of the thread pool.
\<close>

datatype var =
    NodesInfo | NodeVersions | NodeTimes | LocalInfo | LocalSettings | UpdateCallbacks | RemoveCallbacks
  | Subscribers | Handlers | ContextSockets | PoolTasks | PoolRunning

datatype rw = Read | Write

datatype op = Sync instr | Access rw var

record athread =
  aheld :: "(lock \<times> mode) list"
  ops :: "op list"

text \<open>What remains of a thread when the accesses are left out.\<close>

fun syncs :: "op list \<Rightarrow> instr list" where
  "syncs [] = []"
| "syncs (Sync i # os) = i # syncs os"
| "syncs (Access a v # os) = syncs os"

definition bare :: "athread \<Rightarrow> thread" where
  "bare t = \<lparr>held = aheld t, prog = syncs (ops t)\<rparr>"

inductive access_step :: "athread list \<Rightarrow> athread list \<Rightarrow> bool" where
  acquire: "i < length ts \<Longrightarrow> ops (ts ! i) = Sync (Lock m l) # os \<Longrightarrow> can_lock (map bare ts) i m l \<Longrightarrow>
     access_step ts (ts[i := \<lparr>aheld = (l, m) # aheld (ts ! i), ops = os\<rparr>])"
| release: "i < length ts \<Longrightarrow> ops (ts ! i) = Sync (Unlock l) # os \<Longrightarrow>
     access_step ts (ts[i := \<lparr>aheld = unlock l (aheld (ts ! i)), ops = os\<rparr>])"
| touch: "i < length ts \<Longrightarrow> ops (ts ! i) = Access a v # os \<Longrightarrow>
     access_step ts (ts[i := \<lparr>aheld = aheld (ts ! i), ops = os\<rparr>])"

inductive_cases access_stepE: "access_step ts ts'"

definition alaunch :: "op list list \<Rightarrow> athread list" where
  "alaunch ps = map (\<lambda>p. \<lparr>aheld = [], ops = p\<rparr>) ps"

definition race :: "athread list \<Rightarrow> var \<Rightarrow> bool" where
  "race ts v \<longleftrightarrow> (\<exists>i < length ts. \<exists>j < length ts. i \<noteq> j \<and>
     (\<exists>a b os os'. ops (ts ! i) = Access a v # os \<and> ops (ts ! j) = Access b v # os' \<and> (a = Write \<or> b = Write)))"

text \<open>The locks behave as in \<^theory_text>\<open>Concurrency\<close>.\<close>

lemma access_step_bare:
  assumes "access_step ts ts'"
  shows "map bare ts' = map bare ts \<or> lock_step (map bare ts) (map bare ts')"
  using assms
proof cases
  case (acquire i m l os)
  then have "lock_step (map bare ts) ((map bare ts)[i := \<lparr>held = (l, m) # held (map bare ts ! i), prog = syncs os\<rparr>])"
    by (intro lock_step.acquire) (simp_all add: bare_def)
  with acquire show ?thesis by (simp add: map_update bare_def)
next
  case (release i l os)
  then have "lock_step (map bare ts) ((map bare ts)[i := \<lparr>held = unlock l (held (map bare ts ! i)), prog = syncs os\<rparr>])"
    by (intro lock_step.release) (simp_all add: bare_def)
  with release show ?thesis by (simp add: map_update bare_def)
next
  case (touch i a v os)
  then have "bare \<lparr>aheld = aheld (ts ! i), ops = os\<rparr> = bare (ts ! i)" by (simp add: bare_def)
  with touch show ?thesis by (metis list_update_id map_update)
qed

section \<open>The calls\<close>

definition under :: "mode \<Rightarrow> lock \<Rightarrow> op list \<Rightarrow> op list" where
  "under m l body = [Sync (Lock m l)] @ body @ [Sync (Unlock l)]"

definition acc_checkNodeID :: "op list" where
  "acc_checkNodeID = under Shared DataMutex [Access Read NodesInfo]"

definition acc_checkNodeInfoID :: "op list" where
  "acc_checkNodeInfoID = under Shared DataMutex [Access Read NodeVersions]"

definition acc_removeNode :: "op list" where
  "acc_removeNode =
     under Exclusive DataMutex [Access Write NodesInfo, Access Write NodeVersions, Access Write NodeTimes]"

definition acc_getPublisherInfo :: "op list" where
  "acc_getPublisherInfo = under Shared DataMutex [Access Read NodesInfo, Access Read LocalInfo]"

definition acc_getServiceInfo :: "op list" where
  "acc_getServiceInfo = under Shared DataMutex [Access Read NodesInfo, Access Read LocalInfo]"

text \<open>
  A request by name reads address and port through the pointer after the lock is released, in a
  description of the map or in the local one.
\<close>

definition acc_zlcRequest :: "bool \<Rightarrow> op list" where
  "acc_zlcRequest remote = acc_getServiceInfo @ [Access Read (if remote then NodesInfo else LocalInfo)]"

definition acc_createSocket :: "op list" where
  "acc_createSocket = under Exclusive ContextMutex [Access Write ContextSockets]"

definition acc_register_subscriber :: "op list" where
  "acc_register_subscriber =
     under Exclusive SubscriberMutex (acc_createSocket @ acc_getPublisherInfo @ [Access Write Subscribers])"

definition acc_updateTopicSubscriber :: "op list" where
  "acc_updateTopicSubscriber = under Exclusive SubscriberMutex [Access Write Subscribers]"

definition acc_removeTopicSubscriber :: "op list" where
  "acc_removeTopicSubscriber = under Exclusive SubscriberMutex [Access Write Subscribers]"

text \<open>The polling pass copies pointers under the lock and follows them outside it.\<close>

definition acc_sm_pollOnce :: "op list" where
  "acc_sm_pollOnce = under Exclusive SubscriberMutex [Access Read Subscribers] @ [Access Read Subscribers]"

definition acc_subscribe :: "lock \<Rightarrow> var \<Rightarrow> op list" where
  "acc_subscribe ev cbs = under Exclusive ev [Access Write cbs]"

definition acc_trigger :: "lock \<Rightarrow> var \<Rightarrow> op list \<Rightarrow> op list" where
  "acc_trigger ev cbs callback = under Exclusive ev [Access Read cbs] @ callback"

text \<open>A heartbeat writes a time and looks up the version; a fetched description writes all three maps.\<close>

definition acc_processHeartbeat :: "bool \<Rightarrow> op list" where
  "acc_processHeartbeat fetched =
     under Exclusive DataMutex [Access Write NodeTimes, Access Read NodesInfo, Access Read NodeVersions] @
     (if fetched then under Exclusive DataMutex [Access Write NodesInfo, Access Write NodeVersions, Access Write NodeTimes] @
        acc_trigger UpdateEventMutex UpdateCallbacks acc_updateTopicSubscriber
      else [])"

definition acc_checkHeartbeats :: "nat \<Rightarrow> op list" where
  "acc_checkHeartbeats n =
     under Exclusive DataMutex ([Access Read NodeTimes] @
       concat (replicate n ([Access Write NodesInfo] @
         acc_trigger RemoveEventMutex RemoveCallbacks acc_removeTopicSubscriber @
         [Access Write NodesInfo, Access Write NodeVersions, Access Write NodeTimes])))"

definition acc_createHeartbeat :: "op list" where
  "acc_createHeartbeat = under Exclusive LocalMutex [Access Read LocalInfo, Access Read LocalSettings]"

definition acc_getLocalNodeInfo :: "op list" where
  "acc_getLocalNodeInfo = under Exclusive LocalMutex [Access Read LocalInfo]"

definition acc_register_local :: "op list" where
  "acc_register_local = under Exclusive LocalMutex [Access Write LocalInfo]"

definition acc_set_local :: "op list" where
  "acc_set_local = under Exclusive LocalMutex [Access Write LocalSettings]"

text \<open>The table of handlers has no lock.\<close>

definition acc_registerHandler :: "op list" where
  "acc_registerHandler = [Access Write Handlers]"

definition acc_service_pollOnce :: "op list" where
  "acc_service_pollOnce = [Access Read Handlers]"

text \<open>The pool reads its flag outside the lock in \<^verbatim>\<open>enqueue\<close>, \<^verbatim>\<open>start\<close> and \<^verbatim>\<open>stop\<close>.\<close>

definition acc_enqueue :: "op list" where
  "acc_enqueue = [Access Read PoolRunning] @ under Exclusive PoolMutex [Access Write PoolTasks]"

definition acc_pool_start :: "op list" where
  "acc_pool_start = [Access Read PoolRunning, Access Write PoolRunning]"

definition acc_pool_stop :: "op list" where
  "acc_pool_stop = [Access Read PoolRunning] @ under Exclusive PoolMutex [Access Write PoolRunning]"

definition acc_worker_section :: "op list" where
  "acc_worker_section = under Exclusive PoolMutex [Access Read PoolTasks, Access Read PoolRunning, Access Write PoolTasks]"

definition acc_pending_tasks :: "op list" where
  "acc_pending_tasks = under Exclusive PoolMutex [Access Read PoolTasks]"

definition acc_count_down :: "op list" where
  "acc_count_down = under Exclusive PoolMutex [Access Write PoolTasks]"

definition acc_wait :: "op list" where
  "acc_wait = under Exclusive PoolMutex [Access Read PoolTasks]"

lemmas acc_defs = under_def acc_checkNodeID_def acc_checkNodeInfoID_def acc_removeNode_def acc_getPublisherInfo_def acc_getServiceInfo_def
  acc_zlcRequest_def acc_createSocket_def acc_register_subscriber_def acc_updateTopicSubscriber_def
  acc_removeTopicSubscriber_def acc_sm_pollOnce_def acc_subscribe_def acc_trigger_def acc_processHeartbeat_def
  acc_checkHeartbeats_def acc_createHeartbeat_def acc_getLocalNodeInfo_def acc_register_local_def acc_set_local_def
  acc_registerHandler_def acc_service_pollOnce_def acc_enqueue_def acc_pool_start_def acc_pool_stop_def
  acc_worker_section_def acc_pending_tasks_def acc_count_down_def acc_wait_def

lemma syncs_append [simp]: "syncs (p @ q) = syncs p @ syncs q"
  by (induction p rule: syncs.induct) simp_all

lemma syncs_replicate: "syncs (concat (replicate n p)) = concat (replicate n (syncs p))"
  by (induction n) simp_all

text \<open>Without their accesses these are the calls whose lock order \<^theory_text>\<open>Concurrency\<close> studies.\<close>

lemma syncs_calls:
  "syncs acc_getPublisherInfo = prog_getPublisherInfo" "syncs acc_getServiceInfo = prog_getServiceInfo"
  "syncs acc_createSocket = prog_createSocket" "syncs acc_register_subscriber = prog_register_subscriber"
  "syncs (acc_processHeartbeat fetched) = prog_processHeartbeat fetched" "syncs acc_sm_pollOnce = prog_pollOnce"
  "syncs (acc_checkHeartbeats n) = prog_checkHeartbeats n" "syncs acc_register_local = prog_local"
  by (simp_all add: acc_defs prog_defs syncs_replicate)

section \<open>Guarded data\<close>

text \<open>
  The lock each piece of data belongs to, as the code has it: a write needs it exclusively, a
  read in any mode. Where the code has no such rule there is none.
\<close>

fun guard :: "var \<Rightarrow> lock option" where
  "guard NodesInfo = Some DataMutex"
| "guard NodeVersions = Some DataMutex"
| "guard NodeTimes = Some DataMutex"
| "guard LocalSettings = Some LocalMutex"
| "guard UpdateCallbacks = Some UpdateEventMutex"
| "guard RemoveCallbacks = Some RemoveEventMutex"
| "guard ContextSockets = Some ContextMutex"
| "guard PoolTasks = Some PoolMutex"
| "guard _ = None"

definition allowed :: "var set \<Rightarrow> (lock \<times> mode) list \<Rightarrow> rw \<Rightarrow> var \<Rightarrow> bool" where
  "allowed V h a v \<longleftrightarrow> v \<in> V \<longrightarrow>
     (case guard v of
        None \<Rightarrow> True
      | Some l \<Rightarrow> (l, Exclusive) \<in> set h \<or> a = Read \<and> l \<in> fst ` set h)"

fun guarded :: "var set \<Rightarrow> (lock \<times> mode) list \<Rightarrow> op list \<Rightarrow> bool" where
  "guarded V h [] = True"
| "guarded V h (Sync (Lock m l) # os) = guarded V ((l, m) # h) os"
| "guarded V h (Sync (Unlock l) # os) = guarded V (unlock l h) os"
| "guarded V h (Access a v # os) = (allowed V h a v \<and> guarded V h os)"

fun held_after :: "(lock \<times> mode) list \<Rightarrow> op list \<Rightarrow> (lock \<times> mode) list" where
  "held_after h [] = h"
| "held_after h (Sync (Lock m l) # os) = held_after ((l, m) # h) os"
| "held_after h (Sync (Unlock l) # os) = held_after (unlock l h) os"
| "held_after h (Access a v # os) = held_after h os"

lemma guarded_append: "guarded V h (p @ q) \<longleftrightarrow> guarded V h p \<and> guarded V (held_after h p) q"
  by (induction V h p rule: guarded.induct) simp_all

lemma held_after_append [simp]: "held_after h (p @ q) = held_after (held_after h p) q"
  by (induction h p rule: held_after.induct) simp_all

lemma guarded_mono: "guarded W h p \<Longrightarrow> V \<subseteq> W \<Longrightarrow> guarded V h p"
  by (induction W h p rule: guarded.induct) (auto simp: allowed_def)

text \<open>A call that keeps the rule for the data in \<open>V\<close> and gives back what it took may follow any other.\<close>

definition clean :: "var set \<Rightarrow> op list \<Rightarrow> bool" where
  "clean V p \<longleftrightarrow> guarded V [] p \<and> held_after [] p = []"

lemma clean_concat: "\<forall>p \<in> set ps. clean V p \<Longrightarrow> clean V (concat ps)"
  by (induction ps) (auto simp: clean_def guarded_append)

lemma guarded_replicate:
  "guarded V h p \<Longrightarrow> held_after h p = h \<Longrightarrow>
   guarded V h (concat (replicate n p)) \<and> held_after h (concat (replicate n p)) = h"
  by (induction n) (simp_all add: guarded_append)

definition exclusive :: "athread list \<Rightarrow> bool" where
  "exclusive ts \<longleftrightarrow> (\<forall>i < length ts. \<forall>j < length ts. i \<noteq> j \<longrightarrow>
     (\<forall>(l, m) \<in> set (aheld (ts ! i)). \<forall>(l', m') \<in> set (aheld (ts ! j)). l = l' \<longrightarrow> m = Shared \<and> m' = Shared))"

definition guarded_threads :: "var set \<Rightarrow> athread list \<Rightarrow> bool" where
  "guarded_threads V ts \<longleftrightarrow> exclusive ts \<and> (\<forall>t \<in> set ts. guarded V (aheld t) (ops t))"

definition compatible :: "(lock \<times> mode) list \<Rightarrow> (lock \<times> mode) list \<Rightarrow> bool" where
  "compatible h h' \<longleftrightarrow> (\<forall>l m m'. (l, m) \<in> set h \<longrightarrow> (l, m') \<in> set h' \<longrightarrow> m = Shared \<and> m' = Shared)"

lemma exclusive_iff:
  "exclusive ts \<longleftrightarrow> (\<forall>i < length ts. \<forall>j < length ts. i \<noteq> j \<longrightarrow> compatible (aheld (ts ! i)) (aheld (ts ! j)))"
  unfolding exclusive_def compatible_def by (intro iffI allI impI ballI; fastforce)

lemma compatible_sym: "compatible h h' \<Longrightarrow> compatible h' h"
  by (auto simp: compatible_def)

lemma compatible_unlock: "compatible h h' \<Longrightarrow> compatible (unlock l h) h'"
  by (auto simp: compatible_def unlock_def)

lemma compatible_lock:
  assumes "can_lock (map bare ts) i m l" and "i < length ts" and "j < length ts" and "j \<noteq> i"
    and "compatible (aheld (ts ! i)) (aheld (ts ! j))"
  shows "compatible ((l, m) # aheld (ts ! i)) (aheld (ts ! j))"
proof -
  have "m = Shared \<and> m' = Shared" if "(l, m') \<in> set (aheld (ts ! j))" for m'
    using assms(1,3,4) that by (fastforce simp: can_lock_def bare_def)
  with assms(5) show ?thesis by (auto simp: compatible_def)
qed

lemma exclusive_update:
  assumes "exclusive ts" and "i < length ts"
    and "\<And>j. j < length ts \<Longrightarrow> j \<noteq> i \<Longrightarrow> compatible (aheld t) (aheld (ts ! j))"
  shows "exclusive (ts[i := t])"
  using assms by (auto simp: exclusive_iff nth_list_update compatible_sym)

lemma guarded_update:
  "\<forall>t \<in> set ts. guarded V (aheld t) (ops t) \<Longrightarrow> guarded V (aheld t') (ops t') \<Longrightarrow>
   \<forall>t \<in> set (ts[i := t']). guarded V (aheld t) (ops t)"
  using set_update_subset_insert [of ts i t'] by blast

lemma guarded_threads_step:
  assumes "guarded_threads V ts" and "access_step ts ts'"
  shows "guarded_threads V ts'"
proof -
  have ex: "exclusive ts" and g: "\<forall>t \<in> set ts. guarded V (aheld t) (ops t)"
    using assms(1) by (simp_all add: guarded_threads_def)
  have comp: "compatible (aheld (ts ! i)) (aheld (ts ! j))" if "i < length ts" "j < length ts" "j \<noteq> i" for i j
    using ex that by (auto simp: exclusive_iff)
  from assms(2) show ?thesis
  proof cases
    case (acquire i m l os)
    let ?t = "\<lparr>aheld = (l, m) # aheld (ts ! i), ops = os\<rparr>"
    have "exclusive (ts[i := ?t])"
      using acquire comp by (intro exclusive_update [OF ex]) (auto intro: compatible_lock)
    moreover have "guarded V (aheld ?t) (ops ?t)" using g acquire(2,3) by (metis athread.select_convs guarded.simps(2) nth_mem)
    ultimately show ?thesis unfolding guarded_threads_def acquire(1) using guarded_update [OF g, of ?t i] by blast
  next
    case (release i l os)
    let ?t = "\<lparr>aheld = unlock l (aheld (ts ! i)), ops = os\<rparr>"
    have "exclusive (ts[i := ?t])"
      using release comp by (intro exclusive_update [OF ex]) (auto intro: compatible_unlock)
    moreover have "guarded V (aheld ?t) (ops ?t)" using g release(2,3) by (metis athread.select_convs guarded.simps(3) nth_mem)
    ultimately show ?thesis unfolding guarded_threads_def release(1) using guarded_update [OF g, of ?t i] by blast
  next
    case (touch i a v os)
    let ?t = "\<lparr>aheld = aheld (ts ! i), ops = os\<rparr>"
    have "exclusive (ts[i := ?t])" using touch comp by (intro exclusive_update [OF ex]) auto
    moreover have "guarded V (aheld ?t) (ops ?t)" using g touch(2,3) by (metis athread.select_convs guarded.simps(4) nth_mem)
    ultimately show ?thesis unfolding guarded_threads_def touch(1) using guarded_update [OF g, of ?t i] by blast
  qed
qed

interpretation access: safe_system "\<lambda>ts. \<exists>ps. ts = alaunch ps \<and> (\<forall>p \<in> set ps. clean V p)" access_step "guarded_threads V" for V
proof unfold_locales
  show "guarded_threads V s" if "\<exists>ps. s = alaunch ps \<and> (\<forall>p \<in> set ps. clean V p)" for s
    using that by (auto simp: guarded_threads_def exclusive_def alaunch_def clean_def)
  show "guarded_threads V s \<Longrightarrow> access_step s t \<Longrightarrow> guarded_threads V t" for s t by (rule guarded_threads_step)
qed

lemma guarded_no_race:
  assumes "guarded_threads V ts" and "guard v = Some l" and "v \<in> V"
  shows "\<not> race ts v"
proof
  assume "race ts v"
  then obtain i j a b os os' where ij: "i < length ts" "j < length ts" "i \<noteq> j"
    and o: "ops (ts ! i) = Access a v # os" "ops (ts ! j) = Access b v # os'" "a = Write \<or> b = Write"
    by (auto simp: race_def)
  have "allowed V (aheld (ts ! i)) a v" "allowed V (aheld (ts ! j)) b v"
    using assms(1) ij o by (metis guarded.simps(4) guarded_threads_def nth_mem)+
  then obtain m m' where m: "(l, m) \<in> set (aheld (ts ! i))" "a = Write \<Longrightarrow> (l, Exclusive) \<in> set (aheld (ts ! i))"
    "(l, m') \<in> set (aheld (ts ! j))" "b = Write \<Longrightarrow> (l, Exclusive) \<in> set (aheld (ts ! j))"
    using assms(2,3) by (auto simp: allowed_def)
  have "compatible (aheld (ts ! i)) (aheld (ts ! j))"
    using assms(1) ij by (auto simp: guarded_threads_def exclusive_iff)
  with m o(3) show False by (auto simp: compatible_def)
qed

section \<open>Schedules\<close>

text \<open>One step of thread \<open>i\<close>, and a run in which a list says who goes next.\<close>

fun advance :: "nat \<Rightarrow> athread list \<Rightarrow> athread list option" where
  "advance i ts =
     (if length ts \<le> i then None
      else case ops (ts ! i) of
             [] \<Rightarrow> None
           | Sync (Lock m l) # os \<Rightarrow>
               (if can_lock (map bare ts) i m l then Some (ts[i := \<lparr>aheld = (l, m) # aheld (ts ! i), ops = os\<rparr>]) else None)
           | Sync (Unlock l) # os \<Rightarrow> Some (ts[i := \<lparr>aheld = unlock l (aheld (ts ! i)), ops = os\<rparr>])
           | Access a v # os \<Rightarrow> Some (ts[i := \<lparr>aheld = aheld (ts ! i), ops = os\<rparr>]))"

fun schedule :: "nat list \<Rightarrow> athread list \<Rightarrow> athread list option" where
  "schedule [] ts = Some ts"
| "schedule (i # is) ts = (case advance i ts of None \<Rightarrow> None | Some ts' \<Rightarrow> schedule is ts')"

lemma advance_step: "advance i ts = Some ts' \<Longrightarrow> access_step ts ts'"
  by (auto split: if_splits list.splits op.splits instr.splits intro: access_step.intros)

lemma schedule_steps: "schedule is ts = Some ts' \<Longrightarrow> access_step\<^sup>*\<^sup>* ts ts'"
proof (induction "is" arbitrary: ts)
  case (Cons i "is")
  then obtain ts1 where "advance i ts = Some ts1" "schedule is ts1 = Some ts'"
    by (auto simp del: advance.simps split: option.splits)
  with Cons.IH advance_step show ?case by (meson converse_rtranclp_into_rtranclp)
qed simp

definition can_race :: "op list \<Rightarrow> op list \<Rightarrow> var \<Rightarrow> bool" where
  "can_race p q v \<longleftrightarrow> (\<exists>ts. access_step\<^sup>*\<^sup>* (alaunch [p, q]) ts \<and> race ts v)"

text \<open>Two threads about to access the same data, as a test.\<close>

fun conflict :: "op list \<Rightarrow> op list \<Rightarrow> var \<Rightarrow> bool" where
  "conflict (Access a x # os) (Access b y # os') v = (x = v \<and> y = v \<and> (a = Write \<or> b = Write))"
| "conflict _ _ v = False"

definition races_after :: "nat list \<Rightarrow> op list \<Rightarrow> op list \<Rightarrow> var \<Rightarrow> bool" where
  "races_after is p q v =
     (case schedule is (alaunch [p, q]) of
        None \<Rightarrow> False
      | Some ts \<Rightarrow> length ts = 2 \<and> conflict (ops (ts ! 0)) (ops (ts ! 1)) v)"

lemma conflict_race:
  assumes "length ts = 2" and "conflict (ops (ts ! 0)) (ops (ts ! 1)) v"
  shows "race ts v"
proof -
  obtain a b os os' where "ops (ts ! 0) = Access a v # os" "ops (ts ! 1) = Access b v # os'" "a = Write \<or> b = Write"
    using assms(2) by (cases "(ops (ts ! 0), ops (ts ! 1), v)" rule: conflict.cases) auto
  with assms(1) show ?thesis unfolding race_def by (intro exI [of _ 0] conjI exI [of _ 1]) simp_all
qed

lemma scheduled_race: "races_after is p q v \<Longrightarrow> can_race p q v"
  unfolding races_after_def can_race_def
  by (cases "schedule is (alaunch [p, q])") (auto intro: schedule_steps conflict_race [unfolded One_nat_def])

section \<open>Properties\<close>

text \<open>The calls that keep the rules for all data, and the requests by name.\<close>

definition guarded_calls :: "op list set" where
  "guarded_calls =
     {acc_checkNodeID, acc_checkNodeInfoID, acc_removeNode, acc_getPublisherInfo, acc_getServiceInfo, acc_createSocket,
      acc_register_subscriber, acc_updateTopicSubscriber, acc_removeTopicSubscriber, acc_sm_pollOnce,
      acc_subscribe UpdateEventMutex UpdateCallbacks, acc_subscribe RemoveEventMutex RemoveCallbacks, acc_createHeartbeat,
      acc_getLocalNodeInfo, acc_register_local, acc_set_local, acc_registerHandler, acc_service_pollOnce, acc_enqueue,
      acc_pool_start, acc_pool_stop, acc_worker_section, acc_pending_tasks, acc_count_down, acc_wait} \<union>
     range acc_processHeartbeat \<union> range acc_checkHeartbeats"

lemma clean_checkHeartbeats: "clean V (acc_checkHeartbeats n)"
proof -
  let ?round = "[Access Write NodesInfo] @ acc_trigger RemoveEventMutex RemoveCallbacks acc_removeTopicSubscriber @
      [Access Write NodesInfo, Access Write NodeVersions, Access Write NodeTimes]"
  have "guarded V [(DataMutex, Exclusive)] ?round" "held_after [(DataMutex, Exclusive)] ?round = [(DataMutex, Exclusive)]"
    by (simp_all add: acc_defs allowed_def unlock_def)
  from guarded_replicate [OF this, of n] show ?thesis
    by (simp add: clean_def acc_checkHeartbeats_def under_def guarded_append allowed_def unlock_def)
qed

lemma clean_calls: "p \<in> guarded_calls \<Longrightarrow> clean V p"
  unfolding guarded_calls_def
  by (auto simp: clean_checkHeartbeats)
    (auto simp: clean_def acc_defs allowed_def unlock_def)

lemma clean_request: "NodesInfo \<notin> V \<Longrightarrow> clean V (acc_zlcRequest remote)"
  by (simp add: clean_def acc_defs allowed_def unlock_def)

text \<open>
  C19: The registry's maps, the node's settings, the callback lists of the events, the sockets of the
  context and the task queue are free of data races: however many threads run however long
  sequences of the calls in \<open>guarded_calls\<close>, no two of them are ever about to access such data with
  one of them writing. For the map of descriptions this needs that no request by name is among the
  calls; for all other data requests by name are allowed.
\<close>

theorem guarded_data_race_free:
  assumes "\<forall>p \<in> set ps. \<exists>calls. p = concat calls \<and>
      set calls \<subseteq> guarded_calls \<union> (if v = NodesInfo then {} else range acc_zlcRequest)"
    and "access_step\<^sup>*\<^sup>* (alaunch ps) ts"
    and "v \<in> {NodesInfo, NodeVersions, NodeTimes, LocalSettings, UpdateCallbacks, RemoveCallbacks, ContextSockets, PoolTasks}"
  shows "\<not> race ts v"
proof -
  have "clean {v} p" if p: "p \<in> set ps" for p
  proof -
    obtain calls where calls: "p = concat calls"
      "set calls \<subseteq> guarded_calls \<union> (if v = NodesInfo then {} else range acc_zlcRequest)"
      using assms(1) p by blast
    have "clean {v} c" if "c \<in> set calls" for c
      using calls(2) that clean_calls [of c "{v}"] clean_request [of "{v}"] by (auto split: if_splits)
    then show ?thesis unfolding calls(1) by (blast intro: clean_concat)
  qed
  then have "guarded_threads {v} (alaunch ps)" by (intro access.start_inv) blast
  then have "guarded_threads {v} ts" using access.steps_inv [OF assms(2)] by blast
  moreover have "\<exists>l. guard v = Some l" using assms(3) by auto
  ultimately show ?thesis using guarded_no_race by blast
qed

theorem guarded_data_race_free_witness:
  "\<not> race (alaunch [acc_zlcRequest True @ acc_enqueue, acc_processHeartbeat True @ acc_checkHeartbeats 2]) NodeTimes"
proof (rule guarded_data_race_free)
  let ?all = "guarded_calls \<union> (if NodeTimes = NodesInfo then {} else range acc_zlcRequest)"
  have "\<exists>calls. acc_zlcRequest True @ acc_enqueue = concat calls \<and> set calls \<subseteq> ?all"
    by (rule exI [of _ "[acc_zlcRequest True, acc_enqueue]"]) (simp add: guarded_calls_def)
  moreover have "\<exists>calls. acc_processHeartbeat True @ acc_checkHeartbeats 2 = concat calls \<and> set calls \<subseteq> ?all"
    by (rule exI [of _ "[acc_processHeartbeat True, acc_checkHeartbeats 2]"]) (simp add: guarded_calls_def)
  ultimately show "\<forall>p \<in> set [acc_zlcRequest True @ acc_enqueue, acc_processHeartbeat True @ acc_checkHeartbeats 2].
      \<exists>calls. p = concat calls \<and> set calls \<subseteq> ?all" by auto
qed simp_all

text \<open>
  C34: The rest of the shared data is not protected. Each of these pairs of calls can reach a data
  race: announcing a publisher and looking one up, on the local description (two different
  mutexes); registering a handler and serving a request, on the handler table (no mutex);
  registering a subscriber and a polling pass, on the vector of subscribers (pointers followed
  after the unlock); handing a task to the pool and stopping it, on the running flag (read
  outside the lock, and not atomic); a request by name and a heartbeat that brings a new
  description of the node found, or the eviction of that node, on the map of descriptions, and a
  request by name and an announcement, on the local one (the pointer is followed after the
  unlock).
\<close>

theorem unguarded_data_races:
  "can_race acc_register_local acc_getPublisherInfo LocalInfo \<and>
   can_race acc_registerHandler acc_service_pollOnce Handlers \<and>
   can_race acc_register_subscriber acc_sm_pollOnce Subscribers \<and>
   can_race acc_enqueue acc_pool_stop PoolRunning \<and>
   can_race (acc_zlcRequest True) (acc_processHeartbeat True) NodesInfo \<and>
   can_race (acc_zlcRequest True) (acc_checkHeartbeats 1) NodesInfo \<and>
   can_race (acc_zlcRequest False) acc_register_local LocalInfo"
proof (intro conjI)
  note d = races_after_def acc_defs alaunch_def can_lock_def bare_def unlock_def less_Suc_eq
  show "can_race acc_register_local acc_getPublisherInfo LocalInfo"
    by (rule scheduled_race [of "[0, 1, 1]"]) (simp add: d)
  show "can_race acc_registerHandler acc_service_pollOnce Handlers"
    by (rule scheduled_race [of "[]"]) (simp add: d)
  show "can_race acc_register_subscriber acc_sm_pollOnce Subscribers"
    by (rule scheduled_race [of "[1, 1, 1, 0, 0, 0, 0, 0, 0, 0, 0]"]) (simp add: d)
  show "can_race acc_enqueue acc_pool_stop PoolRunning"
    by (rule scheduled_race [of "[1, 1]"]) (simp add: d)
  show "can_race (acc_zlcRequest True) (acc_processHeartbeat True) NodesInfo"
    by (rule scheduled_race [of "[0, 0, 0, 0, 1, 1, 1, 1, 1, 1]"]) (simp add: d)
  show "can_race (acc_zlcRequest True) (acc_checkHeartbeats 1) NodesInfo"
    by (rule scheduled_race [of "[0, 0, 0, 0, 1, 1, 1, 1, 1, 1, 1, 1, 1]"]) (simp add: d)
  show "can_race (acc_zlcRequest False) acc_register_local LocalInfo"
    by (rule scheduled_race [of "[0, 0, 0, 0, 1]"]) (simp add: d)
qed

end
