(* ===== verification/Node_Runtime.thy ===== *)
theory Node_Runtime
  imports Thread_Pool
begin

text \<open>
  A running node: the pool of four workers that \<^verbatim>\<open>ZeroLanComNode\<close> creates, and in it the loops of
  the four periodic tasks that its components start, each of which stays in its worker until its
  flag is cleared. Composed from \<^theory_text>\<open>Thread_Pool\<close>, whose tasks are the loops, and from the flags of
  \<^theory_text>\<open>Periodic_Task\<close>.
\<close>

section \<open>State\<close>

text \<open>The loops in the order the node starts them, and tasks that anyone else hands to the pool.\<close>

datatype node_task = SenderLoop | ReceiverLoop | ServiceLoop | SubscriberLoop | UserTask nat

definition node_loops :: "node_task list" where
  "node_loops = [SenderLoop, ReceiverLoop, ServiceLoop, SubscriberLoop]"

text \<open>
  Where the receiver's loop is: at the test of its flag; past it and about to call \<^verbatim>\<open>recvfrom\<close>;
  in \<^verbatim>\<open>recvfrom\<close>, which has no timeout; with a datagram in hand; in the request for a
  description, whose \<^verbatim>\<open>recv\<close> has no timeout either; on the way back to the test.
\<close>

datatype rx_phase = RxTest | RxEntering | RxReceiving | RxHandling | RxFetching | RxReturning

text \<open>\<open>up\<close> are the loops whose flag is set.\<close>

record runtime =
  np :: "node_task ThreadPool"
  up :: "node_task set"
  rx :: rx_phase

definition pool_enqueue :: "'t \<Rightarrow> 't ThreadPool \<Rightarrow> 't ThreadPool" where
  "pool_enqueue t p = (if is_running p then enqueue_push t (enqueue_test t p) else p)"

text \<open>The end of the constructor: the pool is started, then the loops one after the other.\<close>

definition node_started :: runtime where
  "node_started =
     \<lparr>np = foldl (\<lambda>p t. pool_enqueue t p)
        ((ThreadPool_ctor 0 4)\<lparr>is_running := True, workers := replicate 4 Idle\<rparr>) node_loops,
      up = set node_loops, rx = RxTest\<rparr>"

text \<open>
  A loop ends at the test of a cleared flag, and so do other tasks. The callbacks of the other
  three loops are taken to return: the calls they make on sockets have timeouts or do not wait.
\<close>

definition may_end :: "runtime \<Rightarrow> node_task \<Rightarrow> bool" where
  "may_end s t \<longleftrightarrow> t \<notin> up s \<and> (t = ReceiverLoop \<longrightarrow> rx s = RxTest)"

inductive runtime_work :: "runtime \<Rightarrow> runtime \<Rightarrow> bool" where
  take_task: "i < length (workers (np s)) \<Longrightarrow> workers (np s) ! i = Idle \<Longrightarrow> worker_section i (np s) = Some p \<Longrightarrow>
     runtime_work s (s\<lparr>np := p\<rparr>)"
| end_task: "i < length (workers (np s)) \<Longrightarrow> workers (np s) ! i = Running t \<Longrightarrow> may_end s t \<Longrightarrow>
     runtime_work s (s\<lparr>np := task_ends i t (np s)\<rparr>)"
| count: "i < length (workers (np s)) \<Longrightarrow> workers (np s) ! i = Ran t \<Longrightarrow>
     runtime_work s (s\<lparr>np := count_down i (np s)\<rparr>)"

text \<open>
  What the receiver does by itself while a worker runs it, and what it needs somebody else for: a
  datagram or an error of \<^verbatim>\<open>recvfrom\<close>, and the answer of the node it asks. A datagram may need no
  request.
\<close>

inductive rx_work :: "runtime \<Rightarrow> runtime \<Rightarrow> bool" where
  enter: "Running ReceiverLoop \<in> set (workers (np s)) \<Longrightarrow> rx s = RxTest \<Longrightarrow> ReceiverLoop \<in> up s \<Longrightarrow>
     rx_work s (s\<lparr>rx := RxEntering\<rparr>)"
| call: "rx s = RxEntering \<Longrightarrow> rx_work s (s\<lparr>rx := RxReceiving\<rparr>)"
| ask: "rx s = RxHandling \<Longrightarrow> rx_work s (s\<lparr>rx := RxFetching\<rparr>)"
| handle: "rx s = RxHandling \<Longrightarrow> rx_work s (s\<lparr>rx := RxReturning\<rparr>)"
| again: "rx s = RxReturning \<Longrightarrow> rx_work s (s\<lparr>rx := RxTest\<rparr>)"

inductive rx_network :: "runtime \<Rightarrow> runtime \<Rightarrow> bool" where
  datagram: "rx s = RxReceiving \<Longrightarrow> rx_network s (s\<lparr>rx := RxHandling\<rparr>)"
| failed: "rx s = RxReceiving \<Longrightarrow> rx_network s (s\<lparr>rx := RxReturning\<rparr>)"
| answer: "rx s = RxFetching \<Longrightarrow> rx_network s (s\<lparr>rx := RxReturning\<rparr>)"

inductive runtime_step :: "runtime \<Rightarrow> runtime \<Rightarrow> bool" where
  work: "runtime_work s s' \<Longrightarrow> runtime_step s s'"
| hand_in: "runtime_step s (s\<lparr>np := pool_enqueue (UserTask n) (np s)\<rparr>)"
| stop_loop: "runtime_step s (s\<lparr>up := up s - {t}\<rparr>)"
| stop_pool: "runtime_step s (s\<lparr>np := stop_begin (np s)\<rparr>)"
| join: "joining (np s) \<Longrightarrow> all_exited (np s) \<Longrightarrow> runtime_step s (s\<lparr>np := stop_join (np s)\<rparr>)"
| receiver: "rx_work s s' \<Longrightarrow> runtime_step s s'"
| network: "rx_network s s' \<Longrightarrow> runtime_step s s'"

inductive_cases runtime_workE: "runtime_work s s'"
inductive_cases rx_workE: "rx_work s s'"
inductive_cases rx_networkE: "rx_network s s'"

text \<open>The receiver's moves change nothing but its place.\<close>

lemma rx_frame: "rx_work s s' \<or> rx_network s s' \<Longrightarrow> np s' = np s \<and> up s' = up s"
  by (auto elim!: rx_workE rx_networkE)

section \<open>The node runs on the pool\<close>

lemma work_is_worker_step: "runtime_work s s' \<Longrightarrow> worker_step (np s) (np s') \<and> up s' = up s \<and> rx s' = rx s"
  by (erule runtime_workE) (auto intro: worker_step.intros)

lemma pool_enqueue_steps: "pool_step\<^sup>*\<^sup>* p (pool_enqueue t p)"
proof (cases "is_running p")
  case True
  have "pool_step p (enqueue_test t p)" by (rule pool_step.test)
  moreover have "pool_step (enqueue_test t p) (enqueue_push t (enqueue_test t p))"
    using True by (intro pool_step.push) (simp add: enqueue_test_def)
  ultimately show ?thesis using True by (simp add: pool_enqueue_def)
qed (simp add: pool_enqueue_def)

lemma runtime_refines: "runtime_step s s' \<Longrightarrow> pool_step\<^sup>*\<^sup>* (np s) (np s')"
proof (induction rule: runtime_step.cases)
  case (work s s')
  then show ?case using work_is_worker_step by (metis pool_step.work r_into_rtranclp)
next
  case (receiver s s')
  then show ?case using rx_frame [of s s'] by simp
next
  case (network s s')
  then show ?case using rx_frame [of s s'] by simp
qed (auto intro: pool_enqueue_steps pool_step.intros)

lemma node_started_np:
  "np node_started = \<lparr>num_threads = 4, is_running = True, workers = [Idle, Idle, Idle, Idle], tasks = node_loops,
     active_tasks = 0, enqueuing = [], joining = False, pushed = node_loops, started = [], ended = [], late = []\<rparr>"
  by (simp add: node_started_def node_loops_def pool_enqueue_def enqueue_push_def enqueue_test_def ThreadPool_ctor_def
      numeral_eq_Suc)

text \<open>
  While all flags are set no loop has ended, so the workers that took one still hold it and no other
  task has been started.
\<close>

definition runtime_inv :: "runtime \<Rightarrow> bool" where
  "runtime_inv s \<longleftrightarrow> pool_inv (np s) \<and>
     (is_running (np s) \<longrightarrow> length (workers (np s)) = 4) \<and>
     (\<exists>us. pushed (np s) = node_loops @ map UserTask us) \<and>
     (set node_loops \<subseteq> up s \<and> is_running (np s) \<longrightarrow>
        set (ended (np s)) \<inter> set node_loops = {} \<and> set (started (np s)) \<subseteq> set node_loops)"

lemma in_hand_count: "i < length ws \<Longrightarrow> in_hand (ws ! i) = [] \<Longrightarrow> length (concat (map in_hand ws)) < length ws"
proof (induction ws arbitrary: i)
  case (Cons w ws)
  have le: "length (in_hand w) \<le> 1" by (cases w) simp_all
  have all: "length (concat (map in_hand ws)) \<le> length ws" for ws :: "'a worker list"
  proof (induction ws)
    case (Cons x xs)
    then show ?case by (cases x) simp_all
  qed simp
  show ?case
  proof (cases i)
    case 0
    with Cons.prems all [of ws] show ?thesis by simp
  next
    case (Suc j)
    with Cons.prems Cons.IH [of j] le show ?thesis by simp
  qed
qed simp

text \<open>With an idle worker among the four, not every loop is in the hands of a worker.\<close>

lemma idle_worker_leaves_loop:
  assumes inv: "runtime_inv s" and up: "set node_loops \<subseteq> up s" "is_running (np s)"
    and i: "i < length (workers (np s))" "in_hand (workers (np s) ! i) = []"
  shows "\<not> set node_loops \<subseteq> set (started (np s))"
proof
  assume sub: "set node_loops \<subseteq> set (started (np s))"
  let ?hand = "concat (map in_hand (workers (np s)))"
  have m: "mset (started (np s)) = mset (ended (np s)) + mset ?hand" using inv by (simp add: runtime_inv_def pool_inv_def)
  have "set node_loops \<subseteq> set ?hand"
  proof
    fix t assume t: "t \<in> set node_loops"
    then have "t \<in># mset (ended (np s)) + mset ?hand" using sub m by (metis set_mset_mset subsetD)
    moreover have "t \<notin> set (ended (np s))" using inv up t by (auto simp: runtime_inv_def)
    ultimately show "t \<in> set ?hand" by simp
  qed
  then have "card (set node_loops) \<le> length ?hand" by (meson List.finite_set card_length card_mono le_trans)
  moreover have "card (set node_loops) = 4" by (simp add: node_loops_def)
  moreover have "length ?hand < 4" using in_hand_count [OF i] inv up(2) by (simp add: runtime_inv_def)
  ultimately show False by simp
qed

lemma started_prefix:
  assumes "pushed p = node_loops @ map UserTask us" and "pushed p = started p @ tasks p"
    and "tasks p = t # ts" and "t \<notin> set node_loops"
  shows "set node_loops \<subseteq> set (started p)"
proof (rule ccontr)
  assume "\<not> set node_loops \<subseteq> set (started p)"
  then have "length (started p) < length node_loops"
    using assms(1,2) by (metis append_eq_append_conv_if not_less set_take_subset)
  then have "pushed p ! length (started p) \<in> set node_loops"
    using assms(1) by (simp add: nth_append)
  moreover have "pushed p ! length (started p) = t" using assms(2,3) by simp
  ultimately show False using assms(4) by simp
qed

lemma runtime_inv_take:
  assumes inv: "runtime_inv s" and i: "i < length (workers (np s))" "workers (np s) ! i = Idle"
    and sec: "worker_section i (np s) = Some p"
  shows "runtime_inv (s\<lparr>np := p\<rparr>)"
proof -
  have pi: "pool_inv p" using inv i sec by (auto simp: runtime_inv_def intro: pool_inv_take)
  have run: "is_running p = is_running (np s)" "pushed p = pushed (np s)" "ended p = ended (np s)"
    "length (workers p) = length (workers (np s))"
    using sec by (auto simp: worker_section_def split: if_splits)
  have "set (started p) \<subseteq> set node_loops" if up: "set node_loops \<subseteq> up s" "is_running (np s)"
  proof -
    obtain t ts where t: "tasks (np s) = t # ts" "started p = started (np s) @ [t]"
      using sec up(2) by (cases "tasks (np s)") (auto simp: worker_section_def split: if_splits)
    have "t \<in> set node_loops"
    proof (rule ccontr)
      assume "t \<notin> set node_loops"
      moreover obtain us where "pushed (np s) = node_loops @ map UserTask us" using inv by (auto simp: runtime_inv_def)
      moreover have "pushed (np s) = started (np s) @ tasks (np s)" using inv by (simp add: runtime_inv_def pool_inv_def)
      ultimately have "set node_loops \<subseteq> set (started (np s))" using t(1) by (intro started_prefix)
      then show False using idle_worker_leaves_loop [OF inv up i(1)] i(2) by simp
    qed
    with t inv up show ?thesis by (auto simp: runtime_inv_def)
  qed
  with inv pi run show ?thesis by (auto simp: runtime_inv_def)
qed

lemma runtime_inv_work:
  assumes inv: "runtime_inv s" and step: "runtime_work s s'"
  shows "runtime_inv s'"
  using step
proof cases
  case (take_task i p)
  with inv show ?thesis by (auto intro: runtime_inv_take)
next
  case (end_task i t)
  have "pool_inv (task_ends i t (np s))" using inv end_task by (intro pool_inv_end) (simp_all add: runtime_inv_def)
  moreover have "t \<notin> set node_loops" if "set node_loops \<subseteq> up s" using end_task(4) that by (auto simp: may_end_def)
  ultimately show ?thesis using inv end_task(1) by (auto simp: runtime_inv_def task_ends_def)
next
  case (count i t)
  have "pool_inv (count_down i (np s))" using inv count by (intro pool_inv_count) (simp_all add: runtime_inv_def)
  then show ?thesis using inv count(1) by (auto simp: runtime_inv_def count_down_def)
qed

lemma runtime_inv_step:
  assumes inv: "runtime_inv s" and step: "runtime_step s s'"
  shows "runtime_inv s'"
proof -
  have pi: "pool_inv (np s')"
    using runtime_refines [OF step] inv by (auto simp: runtime_inv_def intro: pool.steps_inv)
  from step show ?thesis
  proof cases
    case work
    with inv show ?thesis by (rule runtime_inv_work)
  next
    case (hand_in n)
    have "\<exists>us'. node_loops @ map UserTask us @ [UserTask n] = node_loops @ map UserTask us'" for us
      by (rule exI [of _ "us @ [n]"]) simp
    with hand_in pi inv show ?thesis
      by (auto simp: runtime_inv_def pool_enqueue_def enqueue_test_def enqueue_push_def)
  next
    case join
    then have "\<not> is_running (np s)" using inv by (simp add: runtime_inv_def pool_inv_def)
    with join inv pi show ?thesis by (simp add: runtime_inv_def stop_join_def)
  next
    case receiver
    with inv show ?thesis using rx_frame [of s s'] by (simp add: runtime_inv_def)
  next
    case network
    with inv show ?thesis using rx_frame [of s s'] by (simp add: runtime_inv_def)
  qed (use inv pi in \<open>auto simp: runtime_inv_def stop_begin_def split: if_splits\<close>)
qed

lemma node_started_inv: "runtime_inv node_started"
proof -
  have "pool_inv (np node_started)" by (simp add: node_started_np pool_inv_def)
  moreover have "\<exists>us. node_loops = node_loops @ map UserTask us" by (rule exI [of _ "[]"]) simp
  ultimately show ?thesis by (simp add: runtime_inv_def node_started_np)
qed

interpretation runtime: safe_system "\<lambda>s. s = node_started" runtime_step runtime_inv
  by unfold_locales (auto simp: node_started_inv intro: runtime_inv_step)

section \<open>Properties\<close>

text \<open>When no worker can go on, every worker runs something.\<close>

lemma quiet_workers_run:
  assumes inv: "runtime_inv s" and up: "set node_loops \<subseteq> up s" "is_running (np s)"
    and quiet: "\<nexists>s'. runtime_work s s'"
  shows "workers (np s) = map Running (concat (map in_hand (workers (np s))))"
proof -
  let ?ws = "workers (np s)"
  have "in_hand (?ws ! i) \<noteq> []" if i: "i < length ?ws" for i
  proof
    assume e: "in_hand (?ws ! i) = []"
    have "Exited \<notin> set ?ws" using inv up(2) by (simp add: runtime_inv_def pool_inv_def)
    then have "?ws ! i \<noteq> Exited" using i by (metis nth_mem)
    moreover have "?ws ! i \<noteq> Ran t" for t using quiet i by (blast intro: runtime_work.count)
    ultimately have idle: "?ws ! i = Idle" using e by (cases "?ws ! i") auto
    then have "worker_section i (np s) = None"
      using quiet i by (cases "worker_section i (np s)") (blast intro: runtime_work.take_task)+
    then have "tasks (np s) = []" by (auto simp: worker_section_def split: if_splits)
    moreover have "pushed (np s) = started (np s) @ tasks (np s)" using inv by (simp add: runtime_inv_def pool_inv_def)
    ultimately have "set node_loops \<subseteq> set (started (np s))" using inv by (auto simp: runtime_inv_def)
    then show False using idle_worker_leaves_loop [OF inv up i e] by simp
  qed
  moreover have "?ws ! i \<noteq> Ran t" if "i < length ?ws" for i t using quiet that by (blast intro: runtime_work.count)
  ultimately have run: "\<exists>t. ?ws ! i = Running t" if "i < length ?ws" for i using that by (cases "?ws ! i") force+
  have "ws = map Running (concat (map in_hand ws))" if "\<forall>w \<in> set ws. \<exists>t. w = Running t" for ws :: "node_task worker list"
    using that by (induction ws) auto
  then show ?thesis using run by (metis in_set_conv_nth)
qed

text \<open>Four tasks have been started while all flags are set: they are the loops.\<close>

lemma four_started:
  assumes inv: "runtime_inv s" and up: "set node_loops \<subseteq> up s" "is_running (np s)"
    and len: "4 \<le> length (started (np s))"
  shows "started (np s) = node_loops"
proof -
  have "pushed (np s) = started (np s) @ tasks (np s)" using inv by (simp add: runtime_inv_def pool_inv_def)
  moreover have "\<exists>us. pushed (np s) = node_loops @ map UserTask us" using inv unfolding runtime_inv_def by blast
  ultimately obtain us where us: "node_loops @ map UserTask us = started (np s) @ tasks (np s)" by metis
  have sub: "set (started (np s)) \<subseteq> set node_loops" using inv up by (simp add: runtime_inv_def)
  have "length (started (np s)) \<le> 4"
  proof (rule ccontr)
    assume "\<not> length (started (np s)) \<le> 4"
    then have "(node_loops @ map UserTask us) ! 4 \<in> set (started (np s))" "4 < length (node_loops @ map UserTask us)"
      unfolding us by (simp_all add: nth_append)
    then show False using sub by (auto simp: node_loops_def)
  qed
  with len have "length (started (np s)) = length node_loops" by (simp add: node_loops_def)
  then show ?thesis using us by (simp add: append_eq_append_conv)
qed

text \<open>When no worker can go on and all flags are set, every loop has its worker.\<close>

lemma quiet_runtime:
  assumes inv: "runtime_inv s" and up: "set node_loops \<subseteq> up s" "is_running (np s)"
    and quiet: "\<nexists>s'. runtime_work s s'"
  shows "mset (workers (np s)) = mset (map Running node_loops)"
proof -
  define hand where "hand = concat (map in_hand (workers (np s)))"
  have ws: "workers (np s) = map Running hand" unfolding hand_def using quiet_workers_run [OF assms] .
  moreover have "length (workers (np s)) = 4" using inv up(2) by (simp add: runtime_inv_def)
  ultimately have h: "length hand = 4" by simp
  have m: "mset (started (np s)) = mset (ended (np s)) + mset hand"
    using inv by (simp add: runtime_inv_def pool_inv_def hand_def)
  then have l: "length (started (np s)) = length (ended (np s)) + length hand" by (metis size_mset size_union)
  with h have st: "started (np s) = node_loops" using four_started [OF inv up] by simp
  with l h have "ended (np s) = []" by (simp add: node_loops_def)
  with m st have "mset hand = mset node_loops" by simp
  then show ?thesis unfolding ws by simp
qed


lemma work_steps:
  "(runtime_work ^^ n) s s' \<Longrightarrow> n + remaining (np s') \<le> remaining (np s) \<and> is_running (np s') = is_running (np s) \<and>
     up s' = up s \<and> rx s' = rx s \<and> (runtime_inv s \<longrightarrow> runtime_inv s')"
proof (induction n arbitrary: s')
  case (Suc n)
  then obtain r where r: "(runtime_work ^^ n) s r" "runtime_work r s'" by auto
  have w: "worker_step (np r) (np s')" "up s' = up r" "rx s' = rx r"
    using work_is_worker_step [OF r(2)] by simp_all
  from Suc.IH [OF r(1)] worker_step_decreases [OF w(1)] worker_step_running [OF w(1)] w runtime_inv_work [OF _ r(2)]
  show ?case by auto
qed simp

text \<open>The workers come to rest.\<close>

lemma work_ends: "\<exists>n s'. (runtime_work ^^ n) s s' \<and> (\<nexists>s''. runtime_work s' s'')"
proof (rule ccontr)
  assume a: "\<nexists>n s'. (runtime_work ^^ n) s s' \<and> (\<nexists>s''. runtime_work s' s'')"
  have "\<exists>s'. (runtime_work ^^ n) s s'" for n
  proof (induction n)
    case (Suc n)
    then show ?case using a by (blast intro: relpowp_Suc_I)
  qed auto
  then obtain s' where "(runtime_work ^^ Suc (remaining (np s))) s s'" by blast
  then show False using work_steps [of "Suc (remaining (np s))" s s'] by auto
qed

text \<open>
  C26: Every component's loop gets a worker of its own, and they use the pool up: as long as no loop
  has been told to stop, the workers make only finitely many steps by themselves, when none can
  go on each of the four workers runs one of the four loops, and in no state has a task of
  anybody else been started.
\<close>

theorem every_loop_gets_a_worker:
  assumes "reachable (\<lambda>s. s = node_started) runtime_step s" and "set node_loops \<subseteq> up s" and "is_running (np s)"
  shows "(\<exists>n s'. (runtime_work ^^ n) s s' \<and> (\<nexists>s''. runtime_work s' s'')) \<and>
     (\<forall>n s'. (runtime_work ^^ n) s s' \<longrightarrow> n \<le> remaining (np s) \<and>
        ((\<nexists>s''. runtime_work s' s'') \<longrightarrow> mset (workers (np s')) = mset (map Running node_loops))) \<and>
     (\<forall>u. UserTask u \<notin> set (started (np s)))"
proof -
  have inv: "runtime_inv s" using assms(1) by (rule runtime.reachable_inv)
  have "n \<le> remaining (np s) \<and> ((\<nexists>s''. runtime_work s' s'') \<longrightarrow> mset (workers (np s')) = mset (map Running node_loops))"
    if run: "(runtime_work ^^ n) s s'" for n s'
    using work_steps [OF run] inv assms(2,3) quiet_runtime [of s'] by auto
  moreover have "UserTask u \<notin> set (started (np s))" for u
    using inv assms(2,3) by (auto simp: runtime_inv_def node_loops_def)
  ultimately show ?thesis using work_ends [of s] by blast
qed

theorem every_loop_gets_a_worker_witness:
  "\<exists>n s'. (runtime_work ^^ n) node_started s' \<and> mset (workers (np s')) = mset (map Running node_loops)"
proof -
  have "reachable (\<lambda>s. s = node_started) runtime_step node_started" by (rule reach_start) (rule refl)
  moreover have "set node_loops \<subseteq> up node_started" "is_running (np node_started)"
    by (simp add: node_started_def) (simp add: node_started_np)
  ultimately show ?thesis using every_loop_gets_a_worker [of node_started] by metis
qed

section \<open>The receiver during a shutdown\<close>

text \<open>Away from the test of its flag the receiver's loop is in the hands of a worker.\<close>

definition rx_inv :: "runtime \<Rightarrow> bool" where
  "rx_inv s \<longleftrightarrow> rx s \<noteq> RxTest \<longrightarrow> Running ReceiverLoop \<in> set (workers (np s))"

lemma rx_inv_work: "rx_inv s \<Longrightarrow> runtime_work s s' \<Longrightarrow> rx_inv s'"
  by (erule runtime_workE)
    (auto simp: rx_inv_def worker_section_def task_ends_def count_down_def may_end_def
      intro!: update_keeps_member split: if_splits)

lemma rx_inv_rx: "rx_inv s \<Longrightarrow> rx_work s s' \<or> rx_network s s' \<Longrightarrow> rx_inv s'"
  by (auto simp: rx_inv_def elim!: rx_workE rx_networkE)

lemma rx_inv_step:
  assumes "rx_inv s" and "runtime_step s s'"
  shows "rx_inv s'"
  using assms(2)
proof cases
  case work
  with assms(1) show ?thesis by (rule rx_inv_work)
next
  case (hand_in n)
  with assms(1) show ?thesis by (simp add: rx_inv_def pool_enqueue_def enqueue_push_def enqueue_test_def)
next
  case join
  then have "Running ReceiverLoop \<notin> set (workers (np s))" by (auto simp: all_exited_def)
  with join assms(1) show ?thesis by (auto simp: rx_inv_def)
next
  case receiver
  then show ?thesis using assms(1) rx_inv_rx by blast
next
  case network
  then show ?thesis using assms(1) rx_inv_rx by blast
qed (use assms(1) in \<open>simp_all add: rx_inv_def stop_begin_def\<close>)

interpretation receiver: safe_system "\<lambda>s. s = node_started" runtime_step rx_inv
proof unfold_locales
  show "s = node_started \<Longrightarrow> rx_inv s" for s by (simp add: rx_inv_def node_started_def)
qed (rule rx_inv_step)

text \<open>The node left alone: workers and receiver go on, nothing arrives.\<close>

definition alone :: "runtime \<Rightarrow> runtime \<Rightarrow> bool" where
  "alone s s' \<longleftrightarrow> runtime_work s s' \<or> rx_work s s'"

definition at_rest :: "runtime \<Rightarrow> bool" where
  "at_rest s \<longleftrightarrow> (\<nexists>s'. alone s s')"

fun rx_left :: "rx_phase \<Rightarrow> nat" where
  "rx_left RxHandling = 4"
| "rx_left RxReturning = 3"
| "rx_left RxTest = 2"
| "rx_left RxEntering = 1"
| "rx_left _ = 0"

lemma alone_step:
  assumes "alone s s'"
  shows "remaining (np s') + rx_left (rx s') < remaining (np s) + rx_left (rx s)"
    and "is_running (np s') = is_running (np s)" and "up s' = up s" and "rx_inv s \<Longrightarrow> rx_inv s'"
proof -
  consider "runtime_work s s'" | "rx_work s s'" using assms by (auto simp: alone_def)
  then have "remaining (np s') + rx_left (rx s') < remaining (np s) + rx_left (rx s) \<and>
      is_running (np s') = is_running (np s) \<and> up s' = up s \<and> (rx_inv s \<longrightarrow> rx_inv s')"
  proof cases
    case 1
    note w = work_is_worker_step [OF 1]
    with worker_step_decreases [of "np s" "np s'"] worker_step_running [of "np s" "np s'"] rx_inv_work [OF _ 1]
    show ?thesis by auto
  next
    case 2
    then show ?thesis using rx_inv_rx [of s s'] by (auto elim!: rx_workE)
  qed
  then show "remaining (np s') + rx_left (rx s') < remaining (np s) + rx_left (rx s)"
    "is_running (np s') = is_running (np s)" "up s' = up s" "rx_inv s \<Longrightarrow> rx_inv s'" by blast+
qed

lemma alone_bound: "(alone ^^ n) s s' \<Longrightarrow> n + (remaining (np s') + rx_left (rx s')) \<le> remaining (np s) + rx_left (rx s)"
proof (induction n arbitrary: s')
  case (Suc n)
  then obtain t where "(alone ^^ n) s t" "alone t s'" by auto
  then show ?case using Suc.IH [of t] alone_step(1) [of t s'] by simp
qed simp

lemma alone_rests: "\<exists>s'. alone\<^sup>*\<^sup>* s s' \<and> at_rest s'"
proof (induction "remaining (np s) + rx_left (rx s)" arbitrary: s rule: less_induct)
  case less
  show ?case
  proof (cases "at_rest s")
    case False
    then obtain t where t: "alone s t" by (auto simp: at_rest_def)
    then obtain s' where "alone\<^sup>*\<^sup>* t s'" "at_rest s'" using less [of t] alone_step(1) by blast
    with t show ?thesis by (meson converse_rtranclp_into_rtranclp)
  qed auto
qed

text \<open>Being told to stop persists.\<close>

lemma alone_keeps:
  "alone\<^sup>*\<^sup>* s s' \<Longrightarrow> rx_inv s \<Longrightarrow> \<not> is_running (np s) \<Longrightarrow> up s = {} \<Longrightarrow>
   rx_inv s' \<and> \<not> is_running (np s') \<and> up s' = {} \<and>
   (rx s \<in> {RxTest, RxReturning} \<longrightarrow> rx s' \<in> {RxTest, RxReturning}) \<and>
   (rx s \<in> {RxEntering, RxReceiving, RxFetching} \<longrightarrow> rx s' \<in> {RxEntering, RxReceiving, RxFetching})"
proof (induction rule: rtranclp_induct)
  case (step t u)
  have "rx u = rx t \<or> rx_work t u" using step(2) work_is_worker_step [of t u] by (auto simp: alone_def)
  moreover have "rx_work t u \<Longrightarrow> up t = {} \<Longrightarrow>
      (rx t \<in> {RxTest, RxReturning} \<longrightarrow> rx u \<in> {RxTest, RxReturning}) \<and>
      (rx t \<in> {RxEntering, RxReceiving, RxFetching} \<longrightarrow> rx u \<in> {RxEntering, RxReceiving, RxFetching})"
    by (auto elim!: rx_workE)
  moreover have "rx_inv t \<and> \<not> is_running (np t) \<and> up t = {} \<and>
      (rx s \<in> {RxTest, RxReturning} \<longrightarrow> rx t \<in> {RxTest, RxReturning}) \<and>
      (rx s \<in> {RxEntering, RxReceiving, RxFetching} \<longrightarrow> rx t \<in> {RxEntering, RxReceiving, RxFetching})"
    using step by blast
  moreover note alone_step(2-4) [OF step(2)]
  ultimately show ?case by metis
qed simp

text \<open>At rest every worker that is left runs the receiver, which waits for something from outside.\<close>

lemma rest_workers:
  assumes "at_rest s" and "rx_inv s" and "\<not> is_running (np s)" and "up s = {}"
  shows "rx s \<in> {RxTest, RxReceiving, RxFetching}"
    and "rx s = RxTest \<Longrightarrow> all_exited (np s)"
    and "set (workers (np s)) \<subseteq> {Exited, Running ReceiverLoop}"
proof -
  have quiet: "\<not> runtime_work s t" "\<not> rx_work s t" for t using assms(1) by (auto simp: at_rest_def alone_def)
  show "rx s \<in> {RxTest, RxReceiving, RxFetching}"
    using quiet(2) rx_work.call [of s] rx_work.handle [of s] rx_work.again [of s] by (cases "rx s") simp_all
  have w: "x \<in> {Exited, Running ReceiverLoop} \<and> (rx s = RxTest \<longrightarrow> x = Exited)" if x: "x \<in> set (workers (np s))" for x
  proof -
    obtain i where i: "i < length (workers (np s))" "workers (np s) ! i = x" using x by (metis in_set_conv_nth)
    show ?thesis
    proof (cases x)
      case Idle
      then have "worker_section i (np s) \<noteq> None" using assms(3) by (simp add: worker_section_def)
      then show ?thesis using quiet(1) i Idle runtime_work.take_task by blast
    next
      case (Running t)
      then show ?thesis using quiet(1) i assms(4) runtime_work.end_task [of i s t] by (auto simp: may_end_def)
    next
      case (Ran t)
      then show ?thesis using quiet(1) i runtime_work.count by blast
    qed simp
  qed
  then show "set (workers (np s)) \<subseteq> {Exited, Running ReceiverLoop}" by blast
  show "all_exited (np s)" if "rx s = RxTest" using w that by (auto simp: all_exited_def)
qed

text \<open>
  C27: Whether shutting a node down ends depends on the network. Once the loops are told to stop and
  the pool is stopped, the node left alone makes finitely many moves, after which all workers have
  left, so that the joins of \<^verbatim>\<open>ThreadPool::stop\<close> return, or the only one left runs the receiver,
  which waits for a datagram or for the answer to a request. Which it is depends on where the stop
  met the receiver: at the test of its flag, or on the way back to it, all workers leave; past the
  test, even before \<^verbatim>\<open>recvfrom\<close> is called, or in a request, its worker stays whatever the others
  do and the joins never return; with a datagram in hand both can happen, as the datagram may
  need a request.
\<close>

theorem shutdown_needs_datagram:
  assumes "reachable (\<lambda>s. s = node_started) runtime_step s" and "\<not> is_running (np s)" and "up s = {}"
  shows "(\<forall>n s'. (alone ^^ n) s s' \<longrightarrow> n \<le> remaining (np s) + 4) \<and>
     (\<exists>s'. alone\<^sup>*\<^sup>* s s' \<and> at_rest s') \<and>
     (\<forall>s'. alone\<^sup>*\<^sup>* s s' \<and> at_rest s' \<longrightarrow> all_exited (np s') \<or>
        rx s' \<in> {RxReceiving, RxFetching} \<and> set (workers (np s')) \<subseteq> {Exited, Running ReceiverLoop}) \<and>
     (rx s \<in> {RxTest, RxReturning} \<longrightarrow> (\<forall>s'. alone\<^sup>*\<^sup>* s s' \<and> at_rest s' \<longrightarrow> all_exited (np s'))) \<and>
     (rx s \<in> {RxEntering, RxReceiving, RxFetching} \<longrightarrow>
        (\<forall>s'. alone\<^sup>*\<^sup>* s s' \<longrightarrow> Running ReceiverLoop \<in> set (workers (np s')) \<and> \<not> all_exited (np s'))) \<and>
     (rx s = RxHandling \<longrightarrow> (\<exists>s'. alone\<^sup>*\<^sup>* s s' \<and> all_exited (np s')) \<and>
        (\<exists>s'. alone\<^sup>*\<^sup>* s s' \<and> at_rest s' \<and> \<not> all_exited (np s')))"
proof -
  have inv: "rx_inv s" using assms(1) by (rule receiver.reachable_inv)
  have bound: "n \<le> remaining (np s) + 4" if "(alone ^^ n) s s'" for n s'
    using alone_bound [OF that] by (cases "rx s") simp_all
  have rest: "all_exited (np u) \<or> rx u \<in> {RxReceiving, RxFetching} \<and> set (workers (np u)) \<subseteq> {Exited, Running ReceiverLoop}"
    if "alone\<^sup>*\<^sup>* s u" "at_rest u" for u
    using rest_workers [OF that(2)] alone_keeps [OF that(1) inv assms(2,3)] by blast
  have leave: "all_exited (np u)"
    if "alone\<^sup>*\<^sup>* t u" "at_rest u" "rx_inv t" "\<not> is_running (np t)" "up t = {}" "rx t \<in> {RxTest, RxReturning}" for t u
    using rest_workers [OF that(2)] alone_keeps [OF that(1,3-5)] that(6) by fastforce
  have stay: "Running ReceiverLoop \<in> set (workers (np u)) \<and> \<not> all_exited (np u)"
    if "alone\<^sup>*\<^sup>* t u" "rx_inv t" "\<not> is_running (np t)" "up t = {}" "rx t \<in> {RxEntering, RxReceiving, RxFetching}" for t u
  proof -
    have k: "rx u \<in> {RxEntering, RxReceiving, RxFetching}" "rx_inv u" using alone_keeps [OF that(1-4)] that(5) by blast+
    then have "rx u \<noteq> RxTest" by auto
    with k(2) have "Running ReceiverLoop \<in> set (workers (np u))" by (simp add: rx_inv_def)
    then show ?thesis by (auto simp: all_exited_def)
  qed
  have hand: "(\<exists>u. alone\<^sup>*\<^sup>* s u \<and> all_exited (np u)) \<and> (\<exists>u. alone\<^sup>*\<^sup>* s u \<and> at_rest u \<and> \<not> all_exited (np u))"
    if h: "rx s = RxHandling"
  proof -
    let ?r = "s\<lparr>rx := RxReturning\<rparr>" and ?f = "s\<lparr>rx := RxFetching\<rparr>"
    have steps: "alone s ?r" "alone s ?f" using h by (auto simp: alone_def intro: rx_work.intros)
    then have invs: "rx_inv ?r" "rx_inv ?f" using inv alone_step(4) by blast+
    obtain u v where uv: "alone\<^sup>*\<^sup>* ?r u" "at_rest u" "alone\<^sup>*\<^sup>* ?f v" "at_rest v" using alone_rests by metis
    have "all_exited (np u)" "\<not> all_exited (np v)"
      using leave [OF uv(1,2) invs(1)] stay [OF uv(3) invs(2)] assms(2,3) by simp_all
    with steps uv show ?thesis by (meson converse_rtranclp_into_rtranclp)
  qed
  show ?thesis
  proof (intro conjI)
    show "\<forall>n s'. (alone ^^ n) s s' \<longrightarrow> n \<le> remaining (np s) + 4" using bound by blast
    show "\<exists>s'. alone\<^sup>*\<^sup>* s s' \<and> at_rest s'" by (rule alone_rests)
    show "\<forall>s'. alone\<^sup>*\<^sup>* s s' \<and> at_rest s' \<longrightarrow> all_exited (np s') \<or>
        rx s' \<in> {RxReceiving, RxFetching} \<and> set (workers (np s')) \<subseteq> {Exited, Running ReceiverLoop}" using rest by blast
    show "rx s \<in> {RxTest, RxReturning} \<longrightarrow> (\<forall>s'. alone\<^sup>*\<^sup>* s s' \<and> at_rest s' \<longrightarrow> all_exited (np s'))"
      using leave [OF _ _ inv assms(2,3)] by blast
    show "rx s \<in> {RxEntering, RxReceiving, RxFetching} \<longrightarrow>
        (\<forall>s'. alone\<^sup>*\<^sup>* s s' \<longrightarrow> Running ReceiverLoop \<in> set (workers (np s')) \<and> \<not> all_exited (np s'))"
      using stay [OF _ inv assms(2,3)] by blast
  qed (rule impI, rule hand)
qed

theorem shutdown_needs_datagram_witness:
  "\<exists>s'. alone\<^sup>*\<^sup>* (node_started\<lparr>np := stop_begin (np node_started), up := {}\<rparr>) s' \<and> all_exited (np s')"
proof -
  let ?R = "reachable (\<lambda>s. s = node_started) runtime_step"
  let ?s = "node_started\<lparr>np := stop_begin (np node_started), up := {}\<rparr>"
  have "?R node_started" by (rule reach_start) (rule refl)
  then have "?R (node_started\<lparr>np := stop_begin (np node_started)\<rparr>)" by (rule reach_step) (rule runtime_step.stop_pool)
  note r = reach_step [OF reach_step [OF reach_step [OF reach_step [OF this runtime_step.stop_loop [of _ SenderLoop]]
      runtime_step.stop_loop [of _ ReceiverLoop]] runtime_step.stop_loop [of _ ServiceLoop]] runtime_step.stop_loop [of _ SubscriberLoop]]
  have "up node_started - {SenderLoop} - {ReceiverLoop} - {ServiceLoop} - {SubscriberLoop} = {}"
    by (simp add: node_started_def node_loops_def)
  with r have "?R ?s" by simp
  moreover have "\<not> is_running (np ?s)" "up ?s = {}" "rx ?s = RxTest"
    by (simp_all add: node_started_def stop_begin_def)
  ultimately show ?thesis using shutdown_needs_datagram [of ?s] by blast
qed

end
