(* ===== verification/Examples.thy ===== *)
theory Examples
  imports Api Publisher Logger
begin

text \<open>
  The programs under \<^verbatim>\<open>examples/\<close>: their handlers and callbacks, which log to the world \<open>Logger\<close>,
  and what their \<^verbatim>\<open>main\<close> functions do between \<^verbatim>\<open>init\<close> and the end: registrations, requests
  to services of the same node, and publishing until an exception. \<open>render\<close> is the fmt library.
  The lines \<^verbatim>\<open>main\<close> itself logs are left out.
\<close>

section \<open>service_example.cpp: the handlers\<close>

definition callbackTypeA :: "string renderer \<Rightarrow> string \<Rightarrow> Logger \<Rightarrow> string result \<times> Logger" where
  "callbackTypeA render msg l =
     (Inr ''Response from CallbackTypeA'', log_info_fmt render ''Received request on CallbackTypeA: {}'' [msg] l)"

definition callbackTypeB :: "string renderer \<Rightarrow> Empty \<Rightarrow> Logger \<Rightarrow> string result \<times> Logger" where
  "callbackTypeB render e l =
     (Inr ''Response from CallbackTypeB'', log_info_fmt render ''Received request on CallbackTypeB'' [] l)"

definition callbackTypeC :: "string renderer \<Rightarrow> string \<Rightarrow> Logger \<Rightarrow> Empty result \<times> Logger" where
  "callbackTypeC render msg l =
     (Inr Empty, log_info_fmt render ''Received request on CallbackTypeC: {}'' [msg] l)"

definition callbackTypeD :: "string renderer \<Rightarrow> Empty \<Rightarrow> Logger \<Rightarrow> Empty result \<times> Logger" where
  "callbackTypeD render e l = (Inr Empty, log_info_fmt render ''Received request on CallbackTypeD'' [] l)"

text \<open>The object the member functions belong to has no members.\<close>

datatype ServiceHandlerClass = ServiceHandlerClass

definition memberFunctionHandlerA :: "string renderer \<Rightarrow> ServiceHandlerClass \<Rightarrow> string \<Rightarrow> Logger \<Rightarrow> string result \<times> Logger" where
  "memberFunctionHandlerA render this msg l =
     (Inr ''Response from memberFunctionHandler'', log_info_fmt render ''Received request on memberFunctionHandler: {}'' [msg] l)"

definition memberFunctionHandlerB :: "string renderer \<Rightarrow> ServiceHandlerClass \<Rightarrow> Empty \<Rightarrow> Logger \<Rightarrow> string result \<times> Logger" where
  "memberFunctionHandlerB render this e l =
     (Inr ''Response from memberFunctionHandlerB'', log_info_fmt render ''Received request on memberFunctionHandlerB'' [] l)"

definition memberFunctionHandlerC :: "string renderer \<Rightarrow> ServiceHandlerClass \<Rightarrow> string \<Rightarrow> Logger \<Rightarrow> Empty result \<times> Logger" where
  "memberFunctionHandlerC render this msg l =
     (Inr Empty, log_info_fmt render ''Received request on memberFunctionHandlerC: {}'' [msg] l)"

definition memberFunctionHandlerD :: "string renderer \<Rightarrow> ServiceHandlerClass \<Rightarrow> Empty \<Rightarrow> Logger \<Rightarrow> Empty result \<times> Logger" where
  "memberFunctionHandlerD render this e l =
     (Inr Empty, log_info_fmt render ''Received request on memberFunctionHandlerD'' [] l)"

lemmas handler_defs = callbackTypeA_def callbackTypeB_def callbackTypeC_def callbackTypeD_def
  memberFunctionHandlerA_def memberFunctionHandlerB_def memberFunctionHandlerC_def memberFunctionHandlerD_def

section \<open>service_example.cpp: main\<close>

text \<open>
  What the program is compiled against: the codecs of strings and of the empty message (a string
  literal packs as the string it spells), and the REQ sockets it opens, given the service manager
  they reach.
\<close>

record platform =
  enc_str :: "string \<Rightarrow> bytes result"
  dec_str :: "ByteView \<Rightarrow> string \<Rightarrow> string result"
  enc_empty :: "Empty \<Rightarrow> bytes result"
  dec_empty :: "ByteView \<Rightarrow> Empty \<Rightarrow> Empty result"
  net :: "Logger ServiceManager \<Rightarrow> req_socket"

text \<open>The node, the variable \<^verbatim>\<open>response\<close> of \<^verbatim>\<open>main\<close> and its value after each request.\<close>

record 'w example =
  svcs :: "Logger ServiceManager"
  reg :: "'w NodeInfoManager"
  response :: string
  seen :: "string list"

type_synonym 'w statement = "'w example \<Rightarrow> 'w example result option"

fun run_main :: "'w statement list \<Rightarrow> 'w statement" where
  "run_main [] st = Some (Inr st)"
| "run_main (a # as) st =
     (case a st of None \<Rightarrow> None | Some (Inl e) \<Rightarrow> Some (Inl e) | Some (Inr st') \<Rightarrow> run_main as st')"

definition provide ::
  "(Logger ServiceManager \<Rightarrow> 'w NodeInfoManager \<Rightarrow> Logger ServiceManager \<times> 'w NodeInfoManager) \<Rightarrow> 'w statement" where
  "provide register st = (case register (svcs st) (reg st) of (m, nim) \<Rightarrow> Some (Inr (st\<lparr>svcs := m, reg := nim\<rparr>)))"

text \<open>Requests with and without a result; the registry does not change meanwhile.\<close>

definition ask ::
  "platform \<Rightarrow> (NodeInfo hash_map \<Rightarrow> NodeInfo hash_map) \<Rightarrow> ('q \<Rightarrow> bytes result) \<Rightarrow> string \<Rightarrow> 'q \<Rightarrow> 'w statement" where
  "ask p iter enc nm q st =
     (case request iter (\<lambda>_. reg st) (reg st) (reg st) (net p (svcs st)) enc (dec_str p) nm q (response st) of
        None \<Rightarrow> None
      | Some (Inl e) \<Rightarrow> Some (Inl e)
      | Some (Inr r) \<Rightarrow> Some (Inr (st\<lparr>response := r, seen := seen st @ [r]\<rparr>)))"

definition ask_Empty ::
  "platform \<Rightarrow> (NodeInfo hash_map \<Rightarrow> NodeInfo hash_map) \<Rightarrow> ('q \<Rightarrow> bytes result) \<Rightarrow> string \<Rightarrow> 'q \<Rightarrow> 'w statement" where
  "ask_Empty p iter enc nm q st =
     (case request_Empty iter (\<lambda>_. reg st) (reg st) (reg st) (net p (svcs st)) enc (dec_empty p) nm q of
        None \<Rightarrow> None
      | Some (Inl e) \<Rightarrow> Some (Inl e)
      | Some (Inr r) \<Rightarrow> Some (Inr (st\<lparr>seen := seen st @ [response st]\<rparr>)))"

definition service_example_main ::
  "platform \<Rightarrow> string renderer \<Rightarrow> (NodeInfo hash_map \<Rightarrow> NodeInfo hash_map) \<Rightarrow> Logger ServiceManager
     \<Rightarrow> 'w NodeInfoManager \<Rightarrow> 'w example result option" where
  "service_example_main p render iter m nim =
     (let ds = (\<lambda>v. dec_str p v []); de = (\<lambda>v. dec_empty p v Empty)
      in run_main
          [provide (registerServiceHandler ds (enc_str p) ''ServiceA'' (callbackTypeA render)),
           provide (registerServiceHandler de (enc_str p) ''ServiceB'' (callbackTypeB render)),
           provide (registerServiceHandler ds (enc_empty p) ''ServiceC'' (callbackTypeC render)),
           provide (registerServiceHandler de (enc_empty p) ''ServiceD'' (callbackTypeD render)),
           ask p iter (enc_str p) ''ServiceA'' ''Hello Service A'',
           ask p iter (enc_empty p) ''ServiceB'' Empty,
           ask_Empty p iter (enc_str p) ''ServiceC'' ''Hello Service C'',
           ask_Empty p iter (enc_empty p) ''ServiceD'' Empty,
           provide (registerServiceHandler_member ds (enc_str p) ''ServiceE'' (memberFunctionHandlerA render) ServiceHandlerClass),
           provide (registerServiceHandler_member de (enc_str p) ''ServiceF'' (memberFunctionHandlerB render) ServiceHandlerClass),
           provide (registerServiceHandler_member ds (enc_empty p) ''ServiceG'' (memberFunctionHandlerC render) ServiceHandlerClass),
           provide (registerServiceHandler_member de (enc_empty p) ''ServiceH'' (memberFunctionHandlerD render) ServiceHandlerClass),
           ask p iter (enc_str p) ''ServiceE'' ''Hello Service E'',
           ask p iter (enc_empty p) ''ServiceF'' Empty,
           ask_Empty p iter (enc_str p) ''ServiceG'' ''Hello Service G'',
           ask_Empty p iter (enc_empty p) ''ServiceH'' Empty]
          \<lparr>svcs = m, reg = nim, response = [], seen = []\<rparr>)"

section \<open>zerolancom_example.cpp\<close>

definition ze_topicCallback :: "string renderer \<Rightarrow> string \<Rightarrow> Logger \<Rightarrow> exn option \<times> Logger" where
  "ze_topicCallback render msg l = (None, log_info_fmt render ''Received message on subscribed topic: {}'' [msg] l)"

definition serviceHandler :: "string renderer \<Rightarrow> string \<Rightarrow> Logger \<Rightarrow> string result \<times> Logger" where
  "serviceHandler render req l = (Inr (''Echo: '' @ req), log_info_fmt render ''Service request received.'' [] l)"

text \<open>
  The part of \<^verbatim>\<open>main\<close> before the publishing loop, without the topic: both services, the wait and
  the request.
\<close>

definition zerolancom_example_main ::
  "platform \<Rightarrow> string renderer \<Rightarrow> (NodeInfo hash_map \<Rightarrow> NodeInfo hash_map) \<Rightarrow> Logger ServiceManager
     \<Rightarrow> 'w NodeInfoManager \<Rightarrow> 'w example result option" where
  "zerolancom_example_main p render iter m nim =
     (let ds = (\<lambda>v. dec_str p v [])
      in run_main
          [provide (registerServiceHandler ds (enc_str p) ''EchoService'' (serviceHandler render)),
           provide (registerServiceHandler ds (enc_str p) ''EchoService2'' (serviceHandler render)),
           (\<lambda>st. map_option (\<lambda>_. Inr st) (waitForService iter (\<lambda>_. reg st) ''EchoService'' 1000 10)),
           ask p iter (enc_str p) ''EchoService'' ''Hello Service'']
          \<lparr>svcs = m, reg = nim, response = [], seen = []\<rparr>)"

text \<open>
  Its publishing loop: \<open>send k\<close> is what the \<open>k\<close>-th send throws; \<open>None\<close> is a loop that goes on
  for ever.
\<close>

partial_function (option) hello_loop ::
  "(string \<Rightarrow> bytes result) \<Rightarrow> (nat \<Rightarrow> exn option) \<Rightarrow> nat \<Rightarrow> Publisher \<Rightarrow> (exn \<times> Publisher) option" where
  "hello_loop enc send k pub =
     (case publish enc (send k) ''Hello, ZeroLanCom!'' pub of
        (Some e, pub') \<Rightarrow> Some (e, pub')
      | (None, pub') \<Rightarrow> hello_loop enc send (Suc k) pub')"

lemma hello_loop_ends: "hello_loop enc send k pub = Some y \<Longrightarrow> \<exists>j pub. fst (publish enc (send j) ''Hello, ZeroLanCom!'' pub) \<noteq> None"
  by (erule hello_loop.raw_induct [rotated]) (auto split: prod.splits option.splits, metis fst_conv option.distinct(1))

text \<open>It publishes for ever unless encoding or a send fails.\<close>

lemma hello_loop_forever:
  assumes "enc ''Hello, ZeroLanCom!'' = Inr b" and "\<And>j. send j = None"
  shows "hello_loop enc send k pub = None"
  using hello_loop_ends [of enc send k pub] assms
  by (cases "hello_loop enc send k pub") (auto simp: publish_def)

section \<open>custom_message.cpp\<close>

text \<open>A \<^verbatim>\<open>float\<close> is its 32-bit pattern; 1, 2 and 3 below.\<close>

record CustomMessage =
  count :: int
  cm_name :: string
  cm_data :: "u32 list"

definition custom_message :: "int \<Rightarrow> CustomMessage" where
  "custom_message counter =
     \<lparr>count = counter, cm_name = ''CustomMessage'', cm_data = [0x3F800000, 0x40000000, 0x40400000]\<rparr>"

definition cm_topicCallback :: "string renderer \<Rightarrow> CustomMessage \<Rightarrow> Logger \<Rightarrow> exn option \<times> Logger" where
  "cm_topicCallback render msg l =
     (None, log_info_fmt render ''Received message on subscribed topic: count={}, name={}, data size={}''
        [to_string (count msg), cm_name msg, dec_of_nat (length (cm_data msg))] l)"

text \<open>
  The loop of \<^verbatim>\<open>main\<close>: \<open>send k\<close> is what the \<open>k\<close>-th send throws. \<^verbatim>\<open>counter++\<close> on the
  largest \<^verbatim>\<open>int\<close> is undefined: \<open>CounterOverflow\<close>. \<open>None\<close> is a loop that goes on for ever.
\<close>

datatype loop_end = Caught exn | CounterOverflow

partial_function (option) custom_loop ::
  "(CustomMessage \<Rightarrow> bytes result) \<Rightarrow> (nat \<Rightarrow> exn option) \<Rightarrow> nat \<Rightarrow> int \<Rightarrow> Publisher \<Rightarrow> (loop_end \<times> Publisher) option" where
  "custom_loop enc send k counter pub =
     (case publish enc (send k) (custom_message counter) pub of
        (Some e, pub') \<Rightarrow> Some (Caught e, pub')
      | (None, pub') \<Rightarrow>
          if \<not> int_range (counter + 1) then Some (CounterOverflow, pub')
          else custom_loop enc send (Suc k) (counter + 1) pub')"

section \<open>Requests to the own node\<close>

definition offers :: "'w NodeInfoManager \<Rightarrow> string \<Rightarrow> bool" where
  "offers nim nm \<longleftrightarrow> nodes_info nim = [] \<and> nm \<in> si_name ` set (services (localNodeInfo nim))"

lemma offers_found:
  assumes "iter_order iter" and "offers nim nm"
  shows "\<exists>q t. getServiceInfo iter nm nim = Some q \<and> deref_socket nim q = Some t"
proof -
  have "iter (nodes_info nim) = []" using assms iter_order_set [OF assms(1), of "nodes_info nim"] by (simp add: offers_def)
  moreover obtain i where i: "find_socket nm (services (localNodeInfo nim)) = Some i"
    using assms(2) find_socket_None [of nm "services (localNodeInfo nim)"]
    by (cases "find_socket nm (services (localNodeInfo nim))") (auto simp: offers_def simp del: find_socket_None)
  moreover have "\<exists>t. nth_opt (services (localNodeInfo nim)) i = Some t" using find_socket_Some [OF i] by blast
  ultimately show ?thesis by (auto simp: getServiceInfo_def)
qed

lemma offers_wait:
  assumes "iter_order iter" and "offers nim nm"
  shows "waitForService iter (\<lambda>_. nim) nm 1000 10 = Some (Available 0)"
  unfolding waitForService_def using offers_found [OF assms] by (intro wait_loop_found) auto

lemma offers_request:
  assumes "iter_order iter" and "offers nim nm" and "\<And>url. zlcRequest_url sock enc dec nm url q r = x"
  shows "request iter (\<lambda>_. nim) nim nim sock enc dec nm q r = Some x"
  using offers_found [OF assms(1,2)] assms(3) by (auto simp: request_def offers_wait [OF assms(1,2)] zlcRequest_def)

text \<open>
  The platform works: codecs that read back what they wrote, and sockets that reach the node's
  own service.
\<close>

definition platform_ok :: "platform \<Rightarrow> (string \<Rightarrow> bool) \<Rightarrow> Logger \<Rightarrow> bool" where
  "platform_ok p ok l \<longleftrightarrow> serializer (enc_str p) (dec_str p) ok \<and> serializer (enc_empty p) (dec_empty p) (\<lambda>_. True) \<and>
     (\<forall>m url. connected (net p m) url m l) \<and> (\<forall>s. length s \<le> 64 \<longrightarrow> ok s)"

lemma ask_own:
  assumes "iter_order iter" and "platform_ok p ok l" and "offers (reg st) nm"
    and "length nm \<le> 1024" and "CHR 0x00 \<notin> set nm" and "serializer encq decq okq" and "okq q" and "ok x"
    and "map_of (handlers (svcs st)) nm = Some (typed_handler (\<lambda>v. decq v q0) (enc_str p) func)"
    and "fst (func q l) = Inr x"
  shows "ask p iter encq nm q st = Some (Inr (st\<lparr>response := x, seen := seen st @ [x]\<rparr>))"
proof -
  have f: "func q l = (Inr x, snd (func q l))" using assms(10) by (simp add: prod_eq_iff)
  have "zlcRequest_url (net p (svcs st)) encq (dec_str p) nm url q (response st) = Inr x" for url
    using assms f
    by (intro rpc_serializer [where encq = encq and decq = decq and okq = okq and encr = "enc_str p" and okr = ok
          and m = "svcs st" and s = l and func = func]) (simp_all add: platform_ok_def)
  from offers_request [OF assms(1,3) this] show ?thesis by (simp add: ask_def)
qed

lemma ask_Empty_own:
  assumes "iter_order iter" and "platform_ok p ok l" and "offers (reg st) nm"
    and "length nm \<le> 1024" and "CHR 0x00 \<notin> set nm" and "serializer encq decq okq" and "okq q"
    and "map_of (handlers (svcs st)) nm = Some (typed_handler (\<lambda>v. decq v q0) (enc_empty p) func)"
    and "fst (func q l) = Inr Empty"
  shows "ask_Empty p iter encq nm q st = Some (Inr (st\<lparr>seen := seen st @ [response st]\<rparr>))"
proof -
  have f: "func q l = (Inr Empty, snd (func q l))" using assms(9) by (simp add: prod_eq_iff)
  have "zlcRequest_url (net p (svcs st)) encq (dec_empty p) nm url q Empty = Inr Empty" for url
    using assms f
    by (intro rpc_serializer [where encq = encq and decq = decq and okq = okq and encr = "enc_empty p" and okr = "\<lambda>_. True"
          and m = "svcs st" and s = l and func = func]) (simp_all add: platform_ok_def)
  from offers_request [OF assms(1,3) this] show ?thesis by (simp add: ask_Empty_def request_Empty_def)
qed

text \<open>
  The state of an example between two statements: the handlers it offers, the value of
  \<^verbatim>\<open>response\<close> and its history.
\<close>

definition at :: "Logger handler hash_map \<Rightarrow> string \<Rightarrow> string list \<Rightarrow> 'w example \<Rightarrow> bool" where
  "at tbl r rs st \<longleftrightarrow> nodes_info (reg st) = [] \<and> response st = r \<and> seen st = rs \<and>
     (\<forall>nm h. map_of tbl nm = Some h \<longrightarrow> offers (reg st) nm \<and> map_of (handlers (svcs st)) nm = Some h)"

definition reaches :: "'w statement list \<Rightarrow> ('w example \<Rightarrow> bool) \<Rightarrow> ('w example \<Rightarrow> bool) \<Rightarrow> bool" where
  "reaches as P Q \<longleftrightarrow> (\<forall>st. P st \<longrightarrow> (\<exists>st'. run_main as st = Some (Inr st') \<and> Q st'))"

lemma reaches_Nil: "(\<And>st. P st \<Longrightarrow> Q st) \<Longrightarrow> reaches [] P Q"
  by (simp add: reaches_def)

lemma reaches_Cons:
  "(\<And>st. P st \<Longrightarrow> \<exists>st'. a st = Some (Inr st') \<and> R st') \<Longrightarrow> reaches as R Q \<Longrightarrow> reaches (a # as) P Q"
  by (fastforce simp: reaches_def)

lemma reachesD: "reaches as P Q \<Longrightarrow> P st \<Longrightarrow> \<exists>st'. run_main as st = Some (Inr st') \<and> Q st'"
  by (simp add: reaches_def)

lemma reaches_provide:
  assumes "reaches as (at ((nm, typed_handler dec enc func) # tbl) r rs) Q"
  shows "reaches (provide (registerServiceHandler dec enc nm func) # as) (at tbl r rs) Q"
  by (rule reaches_Cons [OF _ assms])
    (auto simp: provide_def at_def offers_def registerServiceHandler_def registerHandler_lookup registerLocalService_def Let_def)

lemma reaches_provide_member:
  assumes "reaches as (at ((nm, typed_handler dec enc (func inst)) # tbl) r rs) Q"
  shows "reaches (provide (registerServiceHandler_member dec enc nm func inst) # as) (at tbl r rs) Q"
  by (rule reaches_Cons [OF _ assms])
    (auto simp: provide_def at_def offers_def registerServiceHandler_member_def registerHandler_member_def
      registerLocalService_def Let_def)

lemma reaches_ask:
  fixes Q :: "'w example \<Rightarrow> bool"
  assumes "iter_order iter" and "platform_ok p ok l" and "serializer encq decq okq"
    and "map_of tbl nm = Some (typed_handler (\<lambda>v. decq v q0) (enc_str p) func)"
    and "okq q" and "fst (func q l) = Inr x" and "length x \<le> 64" and "length nm \<le> 1024" and "CHR 0x00 \<notin> set nm"
    and "reaches as (at tbl x (rs @ [x])) Q"
  shows "reaches (ask p iter encq nm q # as) (at tbl r rs) Q"
proof (rule reaches_Cons [OF _ assms(10)])
  fix st :: "'w example"
  assume "at tbl r rs st"
  then have st: "offers (reg st) nm" "map_of (handlers (svcs st)) nm = Some (typed_handler (\<lambda>v. decq v q0) (enc_str p) func)"
    and "at tbl x (rs @ [x]) (st\<lparr>response := x, seen := seen st @ [x]\<rparr>)"
    using assms(4) by (simp_all add: at_def)
  moreover have "ok x" using assms(2,7) by (simp add: platform_ok_def)
  ultimately show "\<exists>st'. ask p iter encq nm q st = Some (Inr st') \<and> at tbl x (rs @ [x]) st'"
    using ask_own [OF assms(1,2) st(1) assms(8,9,3,5) _ st(2) assms(6)] by blast
qed

lemma reaches_ask_Empty:
  fixes Q :: "'w example \<Rightarrow> bool"
  assumes "iter_order iter" and "platform_ok p ok l" and "serializer encq decq okq"
    and "map_of tbl nm = Some (typed_handler (\<lambda>v. decq v q0) (enc_empty p) func)"
    and "okq q" and "fst (func q l) = Inr Empty" and "length nm \<le> 1024" and "CHR 0x00 \<notin> set nm"
    and "reaches as (at tbl r (rs @ [r])) Q"
  shows "reaches (ask_Empty p iter encq nm q # as) (at tbl r rs) Q"
proof (rule reaches_Cons [OF _ assms(9)])
  fix st :: "'w example"
  assume "at tbl r rs st"
  then have st: "offers (reg st) nm" "map_of (handlers (svcs st)) nm = Some (typed_handler (\<lambda>v. decq v q0) (enc_empty p) func)"
    and "at tbl r (rs @ [r]) (st\<lparr>seen := seen st @ [response st]\<rparr>)"
    using assms(4) by (simp_all add: at_def)
  then show "\<exists>st'. ask_Empty p iter encq nm q st = Some (Inr st') \<and> at tbl r (rs @ [r]) st'"
    using ask_Empty_own [OF assms(1,2) st(1) assms(7,8,3,5) st(2) assms(6)] by blast
qed

text \<open>The codecs of a working platform.\<close>

lemma platform_codecs:
  "platform_ok p ok l \<Longrightarrow> serializer (enc_str p) (dec_str p) ok"
  "platform_ok p ok l \<Longrightarrow> serializer (enc_empty p) (dec_empty p) (\<lambda>_. True)"
  "platform_ok p ok l \<Longrightarrow> length s \<le> 64 \<Longrightarrow> ok s"
  by (simp_all add: platform_ok_def)

section \<open>Properties\<close>

text \<open>
  The service example runs through: on a node that knows no other node, over sockets that reach
  its own service, all eight requests return, each response is the one of its handler, and
  the requests without a result leave the variable \<^verbatim>\<open>response\<close> as it was.
\<close>

lemma service_example_responses:
  assumes "iter_order iter" and "platform_ok p ok l" and "nodes_info nim = []"
  shows "\<exists>st. service_example_main p render iter m nim = Some (Inr st) \<and>
     seen st = [''Response from CallbackTypeA'', ''Response from CallbackTypeB'', ''Response from CallbackTypeB'',
       ''Response from CallbackTypeB'', ''Response from memberFunctionHandler'', ''Response from memberFunctionHandlerB'',
       ''Response from memberFunctionHandlerB'', ''Response from memberFunctionHandlerB'']"
proof -
  note c = platform_codecs [OF assms(2)]
  note str = reaches_ask [OF assms(1,2) c(1), where ?q0.0 = "[]"] reaches_ask_Empty [OF assms(1,2) c(1), where ?q0.0 = "[]"]
  note emp = reaches_ask [OF assms(1,2) c(2), where ?q0.0 = Empty] reaches_ask_Empty [OF assms(1,2) c(2), where ?q0.0 = Empty]
  let ?c = ServiceHandlerClass
  note h = handler_defs c(3)
  let ?st = "\<lparr>svcs = m, reg = nim, response = [], seen = []\<rparr>"
  have init: "at [] [] [] ?st" using assms(3) by (simp add: at_def)
  show ?thesis
    unfolding service_example_main_def Let_def
    apply (rule reachesD [where P = "at [] [] []", rotated], rule init)
    apply (rule reaches_provide)+
    apply ((rule str(1) [where func = "callbackTypeA render"]; (simp add: h; fail)?), simp)
    apply ((rule emp(1) [where func = "callbackTypeB render"]; (simp add: h; fail)?), simp)
    apply (rule str(2) [where func = "callbackTypeC render"]; (simp add: h; fail)?)
    apply (rule emp(2) [where func = "callbackTypeD render"]; (simp add: h; fail)?)
    apply (rule reaches_provide_member)+
    apply ((rule str(1) [where func = "memberFunctionHandlerA render ?c"]; (simp add: h; fail)?), simp)
    apply ((rule emp(1) [where func = "memberFunctionHandlerB render ?c"]; (simp add: h; fail)?), simp)
    apply (rule str(2) [where func = "memberFunctionHandlerC render ?c"]; (simp add: h; fail)?)
    apply (rule emp(2) [where func = "memberFunctionHandlerD render ?c"]; (simp add: h; fail)?)
    apply (simp add: reaches_def at_def)
    done
qed

text \<open>A platform: one byte in front of the characters, and sockets that reach the own service.\<close>

definition platform_example :: platform where
  "platform_example =
     \<lparr>enc_str = (\<lambda>s. Inr (1 # bytes_of_string s)),
      dec_str = (\<lambda>v r. case bv_bytes v of [] \<Rightarrow> Inl (DecodeException ''parse error'') | b # bs \<Rightarrow> Inr (string_of_bytes bs)),
      enc_empty = (\<lambda>_. Inr [0xC0]), dec_empty = (\<lambda>v r. Inr r),
      net = (\<lambda>m. socket_to m \<lparr>initialized = False, spdlog = []\<rparr>)\<rparr>"

lemma platform_example_ok:
  "platform_ok platform_example (\<lambda>s. length s \<le> 64) \<lparr>initialized = False, spdlog = []\<rparr>"
proof -
  have "serializer (enc_str platform_example) (dec_str platform_example) (\<lambda>s. length s \<le> 64)"
    by unfold_locales (simp add: platform_example_def)
  moreover have "serializer (enc_empty platform_example) (dec_empty platform_example) (\<lambda>_. True)"
    by unfold_locales (auto simp: platform_example_def, metis Empty.exhaust)
  ultimately show ?thesis by (simp add: platform_ok_def platform_example_def connected_socket_to)
qed

lemma service_example_responses_witness:
  "\<exists>st. service_example_main platform_example (\<lambda>fmt args. fmt) rev \<lparr>handlers = [], sm_service_port = 4000\<rparr> nim_example =
     Some (Inr st) \<and> hd (seen st) = ''Response from CallbackTypeA''"
proof -
  have "nodes_info nim_example = []" by (simp add: nim_example_def NodeInfoManager_ctor_def)
  from service_example_responses [OF iter_order_rev platform_example_ok this,
      of "\<lambda>fmt args. fmt" "\<lparr>handlers = [], sm_service_port = 4000\<rparr>"] show ?thesis by auto
qed

text \<open>The echo of \<^verbatim>\<open>zerolancom_example.cpp\<close>.\<close>

lemma zerolancom_example_echo:
  assumes "iter_order iter" and "platform_ok p ok l" and "nodes_info nim = []"
  shows "\<exists>st. zerolancom_example_main p render iter m nim = Some (Inr st) \<and> response st = ''Echo: Hello Service''"
proof -
  note c = platform_codecs [OF assms(2)]
  let ?st = "\<lparr>svcs = m, reg = nim, response = [], seen = []\<rparr>"
  have init: "at [] [] [] ?st" using assms(3) by (simp add: at_def)
  have wait: "reaches ((\<lambda>st. map_option (\<lambda>_. Inr st) (waitForService iter (\<lambda>_. reg st) nm 1000 10)) # as) (at tbl r rs) Q"
    if "map_of tbl nm \<noteq> None" "reaches as (at tbl r rs) Q" for "as" tbl r rs nm and Q :: "'a example \<Rightarrow> bool"
    using that by (intro reaches_Cons [OF _ that(2)]) (auto simp: at_def offers_wait [OF assms(1)])
  show ?thesis
    unfolding zerolancom_example_main_def Let_def
    apply (rule reachesD [where P = "at [] [] []", rotated], rule init)
    apply (rule reaches_provide)+
    apply (rule wait, simp)
    apply ((rule reaches_ask [OF assms(1,2) c(1), where ?q0.0 = "[]" and func = "serviceHandler render"];
        (simp add: serviceHandler_def c(3); fail)?), simp)
    apply (simp add: reaches_def at_def)
    done
qed

lemma custom_loop_steps:
  assumes "\<And>c. enc (custom_message c) = Inr (b c)"
  shows "(\<And>j. j < n \<Longrightarrow> send (k + j) = None) \<Longrightarrow> 0 \<le> c \<Longrightarrow> c + int n < 2 ^ 31 \<Longrightarrow>
     custom_loop enc send k c pub =
     custom_loop enc send (k + n) (c + int n) (pub\<lparr>pub_sent := pub_sent pub @ map (\<lambda>i. b (c + int i)) [0 ..< n]\<rparr>)"
proof (induction n arbitrary: pub)
  case (Suc n)
  let ?pub = "pub\<lparr>pub_sent := pub_sent pub @ map (\<lambda>i. b (c + int i)) [0 ..< n]\<rparr>"
  have "custom_loop enc send k c pub = custom_loop enc send (k + n) (c + int n) ?pub" using Suc by simp
  also have "\<dots> = custom_loop enc send (Suc (k + n)) (c + int n + 1) (?pub\<lparr>pub_sent := pub_sent ?pub @ [b (c + int n)]\<rparr>)"
    using Suc.prems assms by (subst custom_loop.simps) (simp add: publish_def int_range_def)
  finally show ?case by (simp add: algebra_simps)
qed simp

text \<open>
  The messages of \<^verbatim>\<open>custom_message.cpp\<close> are numbered from 0 without gaps: when the \<open>n\<close>-th send
  is the first that fails, exactly the messages 0 to \<open>n - 1\<close> have been sent, in this order, and
  the program ends with that exception. If no send ever fails the program does not go on for
  ever: the 32-bit counter overflows after \<open>2 ^ 31\<close> messages, which is undefined behaviour.
\<close>

lemma custom_message_counts:
  assumes "\<And>c. enc (custom_message c) = Inr (b c)"
  shows "(n < 2 ^ 31 \<and> (\<forall>j < n. send j = None) \<and> send n = Some e \<longrightarrow>
      custom_loop enc send 0 0 pub =
        Some (Caught e, pub\<lparr>pub_sent := pub_sent pub @ map (\<lambda>i. b (int i)) [0 ..< n]\<rparr>)) \<and>
     ((\<forall>j. send j = None) \<longrightarrow>
        (\<exists>pub'. custom_loop enc send 0 0 pub = Some (CounterOverflow, pub') \<and>
           length (pub_sent pub') = length (pub_sent pub) + 2 ^ 31))"
proof (intro conjI impI)
  assume a: "n < 2 ^ 31 \<and> (\<forall>j < n. send j = None) \<and> send n = Some e"
  have "custom_loop enc send 0 0 pub =
      custom_loop enc send n (int n) (pub\<lparr>pub_sent := pub_sent pub @ map (\<lambda>i. b (int i)) [0 ..< n]\<rparr>)"
    using custom_loop_steps [of enc b n send 0 0 pub, OF assms] a by simp
  also have "\<dots> = Some (Caught e, pub\<lparr>pub_sent := pub_sent pub @ map (\<lambda>i. b (int i)) [0 ..< n]\<rparr>)"
    using a assms by (subst custom_loop.simps) (simp add: publish_def)
  finally show "custom_loop enc send 0 0 pub =
      Some (Caught e, pub\<lparr>pub_sent := pub_sent pub @ map (\<lambda>i. b (int i)) [0 ..< n]\<rparr>)" .
next
  assume a: "\<forall>j. send j = None"
  define k :: nat where "k = 2 ^ 31 - 1"
  have k: "int k + 1 = 2 ^ 31" "Suc k = 2 ^ 31" by (simp_all add: k_def)
  let ?pub = "pub\<lparr>pub_sent := pub_sent pub @ map (\<lambda>i. b (int i)) [0 ..< k]\<rparr>"
  have "custom_loop enc send 0 0 pub = custom_loop enc send k (int k) ?pub"
    using custom_loop_steps [of enc b k send 0 0 pub, OF assms] a k(1) by simp
  also have "\<dots> = Some (CounterOverflow, ?pub\<lparr>pub_sent := pub_sent ?pub @ [b (int k)]\<rparr>)"
    using a assms k(1) by (subst custom_loop.simps) (simp add: publish_def int_range_def)
  finally have "custom_loop enc send 0 0 pub = Some (CounterOverflow, ?pub\<lparr>pub_sent := pub_sent ?pub @ [b (int k)]\<rparr>)" .
  moreover have "length (pub_sent (?pub\<lparr>pub_sent := pub_sent ?pub @ [b (int k)]\<rparr>)) = length (pub_sent pub) + Suc k" by simp
  ultimately show "\<exists>pub'. custom_loop enc send 0 0 pub = Some (CounterOverflow, pub') \<and>
      length (pub_sent pub') = length (pub_sent pub) + 2 ^ 31" unfolding k(2) by blast
qed

lemma custom_message_counts_witness:
  "custom_loop (\<lambda>m. Inr [word_of_int (count m)]) (\<lambda>k. if k < 3 then None else Some BadAlloc) 0 0 \<lparr>pub_port = 1, pub_sent = []\<rparr> =
     Some (Caught BadAlloc, \<lparr>pub_port = 1, pub_sent = [[0], [1], [2]]\<rparr>)"
  using custom_message_counts [of "\<lambda>m. Inr [word_of_int (count m)]" "\<lambda>c. [word_of_int c]" 3
      "\<lambda>k. if k < 3 then None else Some BadAlloc" BadAlloc "\<lparr>pub_port = 1, pub_sent = []\<rparr>"]
  by (simp add: custom_message_def upt_rec)

end
