(* ===== verification/Python_Bindings.thy ===== *)
theory Python_Bindings
  imports Api Logger Publisher
begin

text \<open>
  \<^verbatim>\<open>python/lancom_pybind.cpp\<close>: the wrappers written there, around the logger, around the Python
  functions registered as handlers and callbacks, and around a request. pybind11 is an argument:
  what a call of the Python function gives or raises, and what the cast to \<^verbatim>\<open>std::string\<close> gives.
  The module itself is data: the names it exports and the members of the C++ classes they stand
  for, some of which the classes of this repository do not have.
\<close>

section \<open>The wrappers\<close>

definition py_init_logger :: "string \<Rightarrow> bool \<Rightarrow> Logger \<Rightarrow> Logger" where
  "py_init_logger ts to_file l = logger_init ts to_file ''logs'' l"

definition py_set_log_level :: "LogLevel \<Rightarrow> Logger \<Rightarrow> Logger" where
  "py_set_log_level level l = setLevel level l"

text \<open>The exported names of the levels.\<close>

fun py_LogLevel :: "string \<Rightarrow> LogLevel option" where
  "py_LogLevel s =
     (if s = ''TRACE'' then Some TRACE else if s = ''INFO'' then Some INFO else if s = ''WARN'' then Some WARN
      else if s = ''ERROR'' then Some ERROR else if s = ''FATAL'' then Some FATAL else None)"

definition py_service_handler ::
  "(string \<Rightarrow> 's \<Rightarrow> 'o result \<times> 's) \<Rightarrow> ('o \<Rightarrow> string result) \<Rightarrow> string \<Rightarrow> 's \<Rightarrow> string result \<times> 's" where
  "py_service_handler handler cast req s =
     (case handler req s of
        (Inl e, s') \<Rightarrow> (Inl e, s')
      | (Inr result, s') \<Rightarrow> (cast result, s'))"

definition py_subscriber_callback :: "(string \<Rightarrow> 's \<Rightarrow> 'o result \<times> 's) \<Rightarrow> string \<Rightarrow> 's \<Rightarrow> exn option \<times> 's" where
  "py_subscriber_callback callback msg s =
     (case callback msg s of (Inl e, s') \<Rightarrow> (Some e, s') | (Inr _, s') \<Rightarrow> (None, s'))"

text \<open>\<^verbatim>\<open>Client.request\<close>: a fresh response string, returned whatever happened to it.\<close>

definition py_request ::
  "(NodeInfo hash_map \<Rightarrow> NodeInfo hash_map) \<Rightarrow> 'w NodeInfoManager \<Rightarrow> 'w NodeInfoManager \<Rightarrow> req_socket
     \<Rightarrow> (string \<Rightarrow> bytes result) \<Rightarrow> (ByteView \<Rightarrow> string \<Rightarrow> string result) \<Rightarrow> string \<Rightarrow> string \<Rightarrow> string result" where
  "py_request iter nim nim' sock enc dec service_name req =
     zlcRequest iter nim nim' sock enc dec service_name req []"

text \<open>\<^verbatim>\<open>StringPublisher\<close>: the constructor with the topic alone, and \<^verbatim>\<open>publish\<close>.\<close>

definition py_StringPublisher ::
  "exn option \<Rightarrow> (string \<Rightarrow> string result) \<Rightarrow> string \<Rightarrow> 'w NodeInfoManager \<Rightarrow> (Publisher \<times> 'w NodeInfoManager) result" where
  "py_StringPublisher create zbind topic nim = Publisher_ctor create zbind topic False nim"

definition py_publish :: "(string \<Rightarrow> bytes result) \<Rightarrow> exn option \<Rightarrow> string \<Rightarrow> Publisher \<Rightarrow> exn option \<times> Publisher" where
  "py_publish enc send msg p = publish enc send msg p"

section \<open>The module\<close>

text \<open>
  A binding: the Python class it is in, empty for the module, its name, the names of its
  arguments, and the class and member of C++ that it refers to by pointer or calls.
\<close>

record binding =
  py_class :: string
  py_name :: string
  py_args :: "string list"
  cpp_class :: string
  cpp_member :: string

definition lancom_py :: "binding list" where
  "lancom_py =
     [\<lparr>py_class = [], py_name = ''init_logger'', py_args = [''to_file''], cpp_class = ''Logger'', cpp_member = ''init''\<rparr>,
      \<lparr>py_class = [], py_name = ''set_log_level'', py_args = [], cpp_class = ''Logger'', cpp_member = ''setLevel''\<rparr>,
      \<lparr>py_class = ''ZeroLanComNode'', py_name = ''init'', py_args = [''name'', ''ip''],
       cpp_class = ''ZeroLanComNode'', cpp_member = ''init''\<rparr>,
      \<lparr>py_class = ''ZeroLanComNode'', py_name = ''sleep'', py_args = [''ms''],
       cpp_class = ''ZeroLanComNode'', cpp_member = ''sleep''\<rparr>,
      \<lparr>py_class = ''ZeroLanComNode'', py_name = ''register_service_handler'', py_args = [''service_name'', ''handler''],
       cpp_class = ''ZeroLanComNode'', cpp_member = ''registerServiceHandler''\<rparr>,
      \<lparr>py_class = ''ZeroLanComNode'', py_name = ''register_subscriber'', py_args = [''topic'', ''callback''],
       cpp_class = ''ZeroLanComNode'', cpp_member = ''registerSubscriber''\<rparr>,
      \<lparr>py_class = ''StringPublisher'', py_name = ''__init__'', py_args = [''topic''],
       cpp_class = ''Publisher'', cpp_member = ''Publisher''\<rparr>,
      \<lparr>py_class = ''StringPublisher'', py_name = ''publish'', py_args = [''msg''],
       cpp_class = ''Publisher'', cpp_member = ''publish''\<rparr>,
      \<lparr>py_class = ''Client'', py_name = ''wait_for_service'', py_args = [''service_name''],
       cpp_class = ''Client'', cpp_member = ''waitForService''\<rparr>,
      \<lparr>py_class = ''Client'', py_name = ''request'', py_args = [''service_name'', ''request''],
       cpp_class = ''Client'', cpp_member = ''zlcRequest''\<rparr>]"

text \<open>The public members of the classes of the repository.\<close>

definition singleton_members :: "string list" where
  "singleton_members = [''destroy'', ''instancePtr'', ''instance'', ''isInitialized'', ''initManaged'', ''initExternal'']"

definition node_members :: "string list" where
  "node_members = [''ZeroLanComNode'', ''stop'', ''isRunning''] @ singleton_members"

definition client_members :: "string list" where
  "client_members = [''sendRequest'', ''receiveResponse'', ''zlcRequest'']"

definition publisher_members :: "string list" where
  "publisher_members = [''Publisher'', ''publish'']"

definition logger_members :: "string list" where
  "logger_members = [''init'', ''shutdown'', ''isInitialized'', ''setLevel'']"

fun public_members :: "string \<Rightarrow> string list" where
  "public_members c =
     (if c = ''ZeroLanComNode'' then node_members else if c = ''Client'' then client_members
      else if c = ''Publisher'' then publisher_members else if c = ''Logger'' then logger_members else [])"

text \<open>Half of the bindings have no counterpart, among them all of \<^verbatim>\<open>ZeroLanComNode\<close>.\<close>

lemma unresolved_bindings:
  "map (\<lambda>b. (py_class b, py_name b)) (filter (\<lambda>b. cpp_member b \<notin> set (public_members (cpp_class b))) lancom_py) =
     [(''ZeroLanComNode'', ''init''), (''ZeroLanComNode'', ''sleep''), (''ZeroLanComNode'', ''register_service_handler''),
      (''ZeroLanComNode'', ''register_subscriber''), (''Client'', ''wait_for_service'')]"
  by code_simp

text \<open>No two bindings share a name in their class.\<close>

lemma bindings_distinct: "distinct (map (\<lambda>b. (py_class b, py_name b)) lancom_py)"
  by code_simp

section \<open>What a Python caller sees\<close>

text \<open>
  A Python service that raises, or returns something that is no string, and a service nobody
  offers all look like a service that answered the empty string.
\<close>

lemma py_request_hides_failures:
  assumes "getServiceInfo iter nm nim = Some p" and "deref_socket nim p = Some t"
    and "connected sock (socket_url t) m s" and "enc q = Inr out" and "length out < 2 ^ 64"
    and "length nm \<le> 1024" and "CHR 0x00 \<notin> set nm" and "ds (view_of out) = Inr q"
    and "map_of (handlers m) nm = Some (typed_handler ds enc (py_service_handler handler cast))"
    and "fst (py_service_handler handler cast q s) = Inl e" and "is_std_exception e"
  shows "py_request iter nim nim sock enc dec nm q = Inr []"
proof -
  have "fst (typed_handler ds enc (py_service_handler handler cast) (view_of out) s) = Inl e"
    using assms(8,10) by (cases "py_service_handler handler cast q s") (simp add: typed_handler_def)
  then have "zlcRequest_url sock enc dec nm (socket_url t) q [] = Inr []"
    using assms(9,11) by (intro rpc_error_reply [of sock "socket_url t" m s enc q out nm dec, OF assms(3-7)]) auto
  then show ?thesis using assms(1,2) by (simp add: py_request_def zlcRequest_def socket_url_def tcp_url_def)
qed

lemma py_request_unknown: "getServiceInfo iter nm nim = None \<Longrightarrow> py_request iter nim nim' sock enc dec nm q = Inr []"
  by (simp add: py_request_def zlcRequest_def)

text \<open>A callback raises exactly when the Python function does; a handler also when the cast fails.\<close>

lemma py_wrappers_raise:
  "fst (py_subscriber_callback f msg s) = None \<longleftrightarrow> (\<exists>r. fst (f msg s) = Inr r)"
  "(\<exists>x. fst (py_service_handler f cast q s) = Inr x) \<longleftrightarrow> (\<exists>r x. fst (f q s) = Inr r \<and> cast r = Inr x)"
  by (cases "f msg s"; cases "fst (f msg s)"; auto simp: py_subscriber_callback_def)
    (cases "f q s"; cases "fst (f q s)"; auto simp: py_service_handler_def)

text \<open>A publisher made in Python announces its topic without the local prefix and sends what it is given.\<close>

lemma py_publisher_announces:
  assumes "nim_inv nim" and "zbind (''tcp://'' @ ni_ip (localNodeInfo nim) @ '':0'') =
     Inr (tcp_url (ni_ip (localNodeInfo nim)) p)" and "p < 65536" and "enc msg = Inr b"
  shows "\<exists>pub nim' t. py_StringPublisher None zbind topic nim = Inr (pub, nim') \<and>
     topics (localNodeInfo nim') = topics (localNodeInfo nim) @ [t] \<and> si_name t = topic \<and>
     py_publish enc None msg pub = (None, pub\<lparr>pub_sent := pub_sent pub @ [b]\<rparr>)"
  using publisher_announces [where zbind = zbind and nim = nim and p = p, OF assms(1-3), of topic False BadAlloc] assms(4)
  by (auto simp: py_StringPublisher_def py_publish_def publish_def)

end
