(* ===== verification/Network.thy ===== *)
theory Network
  imports Discovery Link_Interleaving "HOL-Library.Sublist"
begin

text \<open>
  A whole network: any number of nodes, each with its registry, its subscribers and its
  \<^verbatim>\<open>get_node_info\<close> service, and a multicast group that may lose, delay, reorder and repeat
  datagrams. An action is one call of a user, one run of a sender's task or one run of a
  receiver's task; a receiver's run touches only its own node and reads the description of the
  sender at the moment the sender answers, so it may stand as one action between those of the
  other nodes. Socket calls of subscribers do not throw.
\<close>

section \<open>The platform and the nodes\<close>

text \<open>
  What the nodes run on: their byte orders, \<^verbatim>\<open>inet_aton\<close>, the orders in which hash maps are
  visited, msgpack's codecs for the two messages of \<^verbatim>\<open>get_node_info\<close>, what an uninitialised
  variable holds, the descriptions the codecs can carry, and REQ sockets given the server they reach.
\<close>

record 'u lan =
  byte_order :: "nat \<Rightarrow> endian"
  inet :: "string \<Rightarrow> u32 option"
  iter_times :: "int hash_map \<Rightarrow> int hash_map"
  iter_infos :: "NodeInfo hash_map \<Rightarrow> NodeInfo hash_map"
  enc_empty :: "Empty \<Rightarrow> bytes result"
  dec_empty :: "ByteView \<Rightarrow> Empty \<Rightarrow> Empty result"
  enc_info :: "NodeInfo \<Rightarrow> bytes result"
  dec_info :: "ByteView \<Rightarrow> NodeInfo \<Rightarrow> NodeInfo result"
  stack_word :: u32
  packable :: "NodeInfo \<Rightarrow> bool"
  dial :: "'u registry ServiceManager \<Rightarrow> 'u registry \<Rightarrow> req_socket"

definition lan_ok :: "'u lan \<Rightarrow> bool" where
  "lan_ok l \<longleftrightarrow> iter_order (iter_times l) \<and> iter_order (iter_infos l) \<and>
     serializer (enc_empty l) (dec_empty l) (\<lambda>_. True) \<and> serializer (enc_info l) (dec_info l) (packable l) \<and>
     (\<forall>m nim url. connected (dial l m nim) url m nim)"

text \<open>A node: what its constructor builds, and the address its datagrams come from.\<close>

record 'u site =
  nim :: "'u registry"
  subs :: "'u SubscriberManager"
  rcv :: MulticastReceiver
  host :: string

text \<open>All datagrams sent so far, with their senders.\<close>

record 'u network =
  sites :: "'u site list"
  wire :: "(nat \<times> bytes) list"

definition new_site :: "(nat \<Rightarrow> u32) \<Rightarrow> string \<Rightarrow> string \<Rightarrow> string \<Rightarrow> u32 \<Rightarrow> 'u site" where
  "new_site draws nm ip grp port =
     \<lparr>nim = SubscriberManager_ctor quiet (setGroupName grp (setServicePort port (NodeInfoManager_ctor draws nm ip))),
      subs = sm_empty, rcv = MulticastReceiver_ctor ip grp, host = ip\<rparr>"

definition new_site_default :: "(nat \<Rightarrow> u32) \<Rightarrow> string \<Rightarrow> string \<Rightarrow> u32 \<Rightarrow> 'u site" where
  "new_site_default draws nm ip port = new_site draws nm ip ''zlc_default_group_name'' port"

definition me :: "'u site \<Rightarrow> NodeInfo" where
  "me x = localNodeInfo (nim x)"

definition server :: "'u lan \<Rightarrow> 'u registry ServiceManager" where
  "server l = registerGetNodeInfoService (\<lambda>v. dec_empty l v Empty) (enc_info l) \<lparr>handlers = [], sm_service_port = 0\<rparr>"

text \<open>
  The request a receiver makes for the description of \<open>x\<close>: it reaches \<open>x\<close> at the address and
  port of its service; otherwise, or when the network is down, it throws \<open>e\<close>.
\<close>

definition ask_site :: "'u lan \<Rightarrow> 'u site \<Rightarrow> bool \<Rightarrow> exn \<Rightarrow> string \<Rightarrow> string \<Rightarrow> NodeInfo result" where
  "ask_site l x net_up e nm url =
     (if net_up \<and> url = tcp_url_i32 (host x) (servicePort (nim x))
      then node_info_request (stack_word l) (dial l (server l) (nim x)) (enc_empty l) (dec_info l) nm url
      else Inl e)"

section \<open>Actions\<close>

datatype 'u net_action =
    Announce nat registration
  | Follow nat string "'u callback"
  | Beat nat
  | Deliver nat nat int int int bool exn

text \<open>Where a node announces itself; a bound port belongs to one node.\<close>

definition endpoints :: "NodeInfo \<Rightarrow> string set" where
  "endpoints n = socket_url ` set (topics n)"

definition may_announce :: "'u lan \<Rightarrow> nat \<Rightarrow> registration \<Rightarrow> 'u network \<Rightarrow> bool" where
  "may_announce l i r s \<longleftrightarrow> i < length (sites s) \<and>
     (let d = localNodeInfo (register_local (nim (sites s ! i)) r)
      in packable l d \<and> length (topics d) + length (services d) < 2 ^ 32 \<and>
         (\<forall>j < length (sites s). j \<noteq> i \<longrightarrow> endpoints d \<inter> endpoints (me (sites s ! j)) = {}))"

fun net_do :: "'u lan \<Rightarrow> 'u net_action \<Rightarrow> 'u network \<Rightarrow> 'u network option" where
  "net_do l (Announce i r) s =
     (if may_announce l i r s
      then Some (s\<lparr>sites := (sites s)[i := (sites s ! i)\<lparr>nim := register_local (nim (sites s ! i)) r\<rparr>]\<rparr>)
      else None)"
| "net_do l (Follow i topic cb) s =
     (if i < length (sites s)
      then Some (s\<lparr>sites := (sites s)[i := (sites s ! i)\<lparr>subs :=
             snd (register_subscriber quiet None (iter_infos l) (nim (sites s ! i)) topic cb (subs (sites s ! i)))\<rparr>]\<rparr>)
      else None)"
| "net_do l (Beat i) s =
     (if i < length (sites s)
      then Some (s\<lparr>wire := wire s @ map (Pair i) (snd (heartbeat_tick (byte_order l i) (nim (sites s ! i)) []))\<rparr>)
      else None)"
| "net_do l (Deliver i k now1 now2 now3 net_up e) s =
     (if i < length (sites s) \<and> k < length (wire s)
      then (let x = sites s ! i; (j, b) = wire s ! k; y = sites s ! j
            in case receive_once (byte_order l i) (inet l) (ask_site l y net_up e) (iter_times l) now1 now2 now3
                      (rcv x) (Some (b, host y)) (nim x) (subs x) of
                 (exc, nim', subs') \<Rightarrow> Some (s\<lparr>sites := (sites s)[i := x\<lparr>nim := nim', subs := subs'\<rparr>]\<rparr>))
      else None)"

fun net_run :: "'u lan \<Rightarrow> 'u net_action list \<Rightarrow> 'u network \<Rightarrow> 'u network option" where
  "net_run l [] s = Some s"
| "net_run l (a # as) s = Option.bind (net_do l a s) (net_run l as)"

text \<open>New nodes with their own ids and nothing announced yet.\<close>

definition net_start :: "'u lan \<Rightarrow> 'u network \<Rightarrow> bool" where
  "net_start l s \<longleftrightarrow> wire s = [] \<and> distinct (map (nodeID \<circ> me) (sites s)) \<and>
     (\<forall>x \<in> set (sites s). packable l (me x) \<and> (\<exists>draws nm ip grp port. x = new_site draws nm ip grp port))"

section \<open>Versions of a description\<close>

text \<open>An earlier description of a node: some of its later announcements are missing.\<close>

definition earlier :: "NodeInfo \<Rightarrow> NodeInfo \<Rightarrow> bool" where
  "earlier d n \<longleftrightarrow> nodeID d = nodeID n \<and> ni_name d = ni_name n \<and> ni_ip d = ni_ip n \<and>
     prefix (topics d) (topics n) \<and> prefix (services d) (services n) \<and>
     infoID d = word_of_nat (length (topics d) + length (services d))"

lemma earlier_refl: "local_inv n \<Longrightarrow> earlier n n"
  by (simp add: earlier_def local_inv_def)

lemma earlier_register: "earlier d (localNodeInfo s) \<Longrightarrow> earlier d (localNodeInfo (register_local s r))"
  by (cases r) (auto simp: earlier_def registerLocalTopic_def registerLocalService_def Let_def prefix_def)

lemma earlier_endpoints: "earlier d n \<Longrightarrow> endpoints d \<subseteq> endpoints n"
  by (auto simp: earlier_def endpoints_def prefix_def)

text \<open>With fewer than \<open>2 ^ 32\<close> announcements the version number identifies the description.\<close>

lemma same_version:
  assumes "earlier d n" and "local_inv n" and "length (topics n) + length (services n) < 2 ^ 32"
    and "infoID d = infoID n"
  shows "d = n"
proof -
  obtain ts ss where p: "topics n = topics d @ ts" "services n = services d @ ss"
    using assms(1) by (auto simp: earlier_def prefix_def)
  let ?a = "length (topics d) + length (services d)"
  have "(word_of_nat ?a :: u32) = word_of_nat (length (topics n) + length (services n))"
    using assms by (simp add: earlier_def local_inv_def)
  then have "unat (word_of_nat ?a :: u32) = unat (word_of_nat (length (topics n) + length (services n)) :: u32)"
    by (rule arg_cong)
  moreover have "?a < 2 ^ 32" using assms(3) p by simp
  ultimately have "?a = length (topics n) + length (services n)"
    using assms(3) by (simp add: unat_of_nat del: of_nat_add)
  with p assms show ?thesis by (cases d; cases n) (auto simp: earlier_def)
qed

section \<open>One node\<close>

text \<open>
  A node in order: its subscriber manager listens to its registry, what the registry holds under a
  key is among \<open>G\<close>, and every description in it is linked.
\<close>

definition tidy :: "(string \<Rightarrow> NodeInfo \<Rightarrow> bool) \<Rightarrow> 'u registry \<Rightarrow> 'u SubscriberManager \<Rightarrow> bool" where
  "tidy G s w \<longleftrightarrow> nim_inv s \<and>
     node_update_event s = subscribe (updateTopicSubscriber quiet) event_empty \<and>
     node_remove_event s = subscribe (removeTopicSubscriber quiet) event_empty \<and>
     (\<forall>k info. map_of (nodes_info s) k = Some info \<longrightarrow> G k info \<and> linked info w)"

text \<open>Descriptions under different keys announce different endpoints.\<close>

definition apart :: "(string \<Rightarrow> NodeInfo \<Rightarrow> bool) \<Rightarrow> bool" where
  "apart G \<longleftrightarrow> (\<forall>k k' i i'. G k i \<longrightarrow> G k' i' \<longrightarrow> k \<noteq> k' \<longrightarrow> endpoints i \<inter> endpoints i' = {})"

lemma tidy_mono: "tidy G s w \<Longrightarrow> (\<And>k i. G k i \<Longrightarrow> G' k i) \<Longrightarrow> tidy G' s w"
  by (simp add: tidy_def)

lemma tidy_frame:
  "tidy G s w \<Longrightarrow> nim_inv s' \<Longrightarrow> node_update_event s' = node_update_event s \<Longrightarrow>
   node_remove_event s' = node_remove_event s \<Longrightarrow> nodes_info s' = nodes_info s \<Longrightarrow> tidy G s' w"
  by (simp add: tidy_def)

lemma callbacks_quiet [simp]:
  "fst (removeTopicSubscriber quiet info w) = None" "fst (updateTopicSubscriber quiet info w) = None"
  by (simp_all add: remove_snd update_snd for_topics_never_throws)

lemma foldl_remove1_keeps: "u \<in> set us \<Longrightarrow> u \<notin> set vs \<Longrightarrow> u \<in> set (foldl (\<lambda>us u. remove1 u us) us vs)"
  by (induction vs arbitrary: us) auto

lemma linked_remove:
  assumes "linked i w" and "endpoints i \<inter> endpoints info = {}"
  shows "linked i (snd (removeTopicSubscriber quiet info w))"
proof -
  have "links (snd (removeTopicSubscriber quiet info w)) = map (link_remove info) (links w)"
    by (rule links_remove) simp
  moreover have "u \<notin> set (urls_for nm info)" if "u \<in> set (urls_for nm i)" for u nm
    using that assms(2) by (auto simp: urls_for_def endpoints_def)
  ultimately show ?thesis
    using assms(1) foldl_remove1_keeps by (fastforce simp: linked_def link_remove_def)
qed

lemma tidy_evict:
  assumes "tidy G s w" and "apart G"
  shows "fst (evict nids s w) = None \<and> tidy G (fst (snd (evict nids s w))) (snd (snd (evict nids s w)))"
  using assms(1)
proof (induction nids arbitrary: s w)
  case (Cons nid nids)
  let ?i = "info_or_default s nid" and ?s = "removeNode nid s"
  let ?w = "snd (removeTopicSubscriber quiet ?i w)"
  have "trigger (node_remove_event s) ?i w = (None, ?w)"
    using Cons.prems by (simp add: tidy_def prod_eq_iff)
  then have e: "evict (nid # nids) s w = evict nids ?s ?w" by (simp add: evict_Cons)
  have "G k info \<and> linked info ?w" if "map_of (nodes_info ?s) k = Some info" for k info
  proof -
    have k: "k \<noteq> nid" "map_of (nodes_info s) k = Some info"
      using that by (auto simp: removeNode_def split: if_splits)
    then have g: "G k info" "linked info w" using Cons.prems by (auto simp: tidy_def)
    have "endpoints info \<inter> endpoints ?i = {}"
    proof (cases "map_of (nodes_info s) nid")
      case None
      then show ?thesis by (simp add: info_or_default_def endpoints_def NodeInfo_default_def)
    next
      case (Some i)
      then have "G nid i" using Cons.prems by (simp add: tidy_def)
      with Some g(1) k(1) assms(2) show ?thesis unfolding apart_def info_or_default_def by auto
    qed
    with g show ?thesis by (simp add: linked_remove)
  qed
  then have "tidy G ?s ?w" using Cons.prems by (auto simp: tidy_def nim_inv_removeNode) (simp_all add: removeNode_def)
  from Cons.IH [OF this] show ?case by (simp add: e)
qed (use assms in simp)

text \<open>A heartbeat after the fetch, before silent nodes are looked for: \<open>a\<close> is the answer.\<close>

definition noted ::
  "int \<Rightarrow> int \<Rightarrow> HeartbeatMessage \<Rightarrow> NodeInfo result \<Rightarrow> 'u registry \<Rightarrow> 'u SubscriberManager
     \<Rightarrow> 'u registry \<times> 'u SubscriberManager" where
  "noted now1 now2 m a s w =
     (if map_option infoID (map_of (nodes_info s) (node_id m)) = Some (info_id m) then (touched now1 m s, w)
      else case a of
             Inl e \<Rightarrow> (touched now1 m s, w)
           | Inr d \<Rightarrow> (updateNodeUnlocked now2 (node_id m) d (touched now1 m s), snd (updateTopicSubscriber quiet d w)))"

lemma receive_noted:
  assumes t: "tidy G s w" and adm: "admitted e aton r s data ip"
    and m: "m = hb_parse (take recv_buf_size data)"
    and a: "a = request ''get_node_info'' (tcp_url_i32 ip (service_port m))"
    and n: "noted now1 now2 m a s w = (s1, w1)"
  shows "snd (receive_once e aton request iter now1 now2 now3 r (Some (data, ip)) s w) = (s1, w1) \<and> (\<exists>x. a = Inl x) \<or>
     snd (receive_once e aton request iter now1 now2 now3 r (Some (data, ip)) s w) = snd (checkHeartbeats iter now3 s1 w1)"
proof -
  have inv: "nim_inv s" and ev: "node_update_event s = subscribe (updateTopicSubscriber quiet) event_empty"
    using t by (simp_all add: tidy_def)
  let ?p = "processHeartbeat request now1 now2 m ip s w"
  have r: "receive_once e aton request iter now1 now2 now3 r (Some (data, ip)) s w =
      (case ?p of (Some ex, nim1, w1) \<Rightarrow> (swallow_std (Some ex), nim1, w1)
        | (None, nim1, w1) \<Rightarrow> (case checkHeartbeats iter now3 nim1 w1 of (exc, nim2, w2) \<Rightarrow> (swallow_std exc, nim2, w2)))"
    using adm m by (simp add: receive_once_eq)
  have "?p = (None, s1, w1) \<or> (\<exists>x. ?p = (Some x, s1, w1) \<and> a = Inl x)"
  proof (cases "map_option infoID (map_of (nodes_info s) (node_id m)) = Some (info_id m)")
    case True
    then show ?thesis using n by (simp add: noted_def processHeartbeat_current [OF inv])
  next
    case False
    note st = processHeartbeat_stale [OF inv this, of request now1 now2 ip w]
    note nn = n [unfolded noted_def if_not_P [OF False]]
    show ?thesis
    proof (cases a)
      case (Inl x)
      with nn a [symmetric] show ?thesis unfolding st by (auto simp: fetchNodeInfo_def)
    next
      case (Inr d)
      moreover have "updateTopicSubscriber quiet d w = (None, w1)" using nn Inr by (auto simp: prod_eq_iff)
      ultimately show ?thesis using nn a [symmetric] ev unfolding st by (auto simp: fetchNodeInfo_def swallow_std_def)
    qed
  qed
  then show ?thesis by (auto simp: r split: prod.splits)
qed

lemma tidy_noted:
  assumes "tidy G s w" and "\<And>d. a = Inr d \<Longrightarrow> G (node_id m) d" and "noted now1 now2 m a s w = (s1, w1)"
  shows "tidy G s1 w1"
proof -
  have t: "tidy G (touched now1 m s) w"
    using assms(1) by (rule tidy_frame) (use assms(1) in \<open>simp_all add: tidy_def nim_inv_touched\<close>)
  have "tidy G (updateNodeUnlocked now2 (node_id m) d (touched now1 m s)) (snd (updateTopicSubscriber quiet d w))"
    if "a = Inr d" for d
    using t assms(2) [OF that] unfolding tidy_def
    by (auto simp: nim_inv_updateNode linked_update split: if_splits) (auto simp: updateNodeUnlocked_def linked_update split: if_splits)
  with t assms(3) show ?thesis by (auto simp: noted_def split: if_splits sum.splits)
qed

lemma tidy_check:
  assumes "tidy G s w" and "apart G" and "iter_order iter"
  shows "tidy G (fst (snd (checkHeartbeats iter now s w))) (snd (snd (checkHeartbeats iter now s w)))"
    and "map_of (nodes_info (fst (snd (checkHeartbeats iter now s w)))) k =
      (if \<exists>t. map_of (nodes_heartbeat s) k = Some t \<and> expired now t then None else map_of (nodes_info s) k)"
proof -
  have "hm_ok (nodes_heartbeat s)" using assms(1) by (simp add: tidy_def nim_inv_def)
  note r = to_remove_set [OF assms(3) this, of now]
  note e = tidy_evict [OF assms(1,2), of "to_remove iter now s"]
  then show "tidy G (fst (snd (checkHeartbeats iter now s w))) (snd (snd (checkHeartbeats iter now s w)))"
    by (simp add: checkHeartbeats_def)
  show "map_of (nodes_info (fst (snd (checkHeartbeats iter now s w)))) k =
      (if \<exists>t. map_of (nodes_heartbeat s) k = Some t \<and> expired now t then None else map_of (nodes_info s) k)"
    using evict_state [OF conjunct1 [OF e], of k] r by (simp add: checkHeartbeats_def)
qed

text \<open>What the receiver's task leaves alone.\<close>

definition same_self :: "'u registry \<Rightarrow> 'u registry \<Rightarrow> bool" where
  "same_self s s' \<longleftrightarrow> localNodeInfo s' = localNodeInfo s \<and> groupName s' = groupName s \<and> servicePort s' = servicePort s"

lemma evict_self: "same_self s (fst (snd (evict nids s w)))"
proof (induction nids arbitrary: s w)
  case (Cons nid nids)
  have "same_self (removeNode nid s) (fst (snd (evict nids (removeNode nid s) w')))" for w' by (rule Cons)
  then show ?case by (auto simp: evict_Cons same_self_def removeNode_def split: prod.splits option.splits)
qed (simp add: same_self_def)

lemma noted_self: "noted now1 now2 m a s w = (s1, w1) \<Longrightarrow> same_self s s1"
  by (auto simp: noted_def same_self_def updateNodeUnlocked_def split: if_splits sum.splits)

lemma receive_stage:
  assumes "tidy G s w" and "admitted e aton r s data ip"
    and "\<And>d. request ''get_node_info'' (tcp_url_i32 ip (service_port (told data))) = Inr d \<Longrightarrow> G (node_id (told data)) d"
    and "receive_once e aton request iter now1 now2 now3 r (Some (data, ip)) s w = (exc, s', w')"
  obtains s1 w1 where
    "noted now1 now2 (told data) (request ''get_node_info'' (tcp_url_i32 ip (service_port (told data)))) s w = (s1, w1)"
    "tidy G s1 w1"
    "(s', w') = (s1, w1) \<and> (\<exists>x. request ''get_node_info'' (tcp_url_i32 ip (service_port (told data))) = Inl x) \<or>
     (s', w') = snd (checkHeartbeats iter now3 s1 w1)"
proof -
  let ?a = "request ''get_node_info'' (tcp_url_i32 ip (service_port (told data)))"
  obtain s1 w1 where n: "noted now1 now2 (told data) ?a s w = (s1, w1)" by fastforce
  have "tidy G s1 w1" using assms(1,3) n by (rule tidy_noted)
  then show ?thesis
    using that [OF n] receive_noted [where request = request, OF assms(1,2) refl refl n, of iter now3] assms(4) by simp
qed

lemma receive_tidy:
  assumes "tidy G s w" and "apart G" and "iter_order iter"
    and "\<And>d. admitted e aton r s data ip \<Longrightarrow>
      request ''get_node_info'' (tcp_url_i32 ip (service_port (told data))) = Inr d \<Longrightarrow> G (node_id (told data)) d"
    and "receive_once e aton request iter now1 now2 now3 r (Some (data, ip)) s w = (exc, s', w')"
  shows "tidy G s' w' \<and> same_self s s'"
proof (cases "admitted e aton r s data ip")
  case True
  let ?a = "request ''get_node_info'' (tcp_url_i32 ip (service_port (told data)))"
  obtain s1 w1 where n: "noted now1 now2 (told data) ?a s w = (s1, w1)" and t1: "tidy G s1 w1"
    and "(s', w') = (s1, w1) \<or> (s', w') = snd (checkHeartbeats iter now3 s1 w1)"
    using receive_stage [OF assms(1) True assms(4) [OF True] assms(5)] by blast
  moreover have "same_self s1 (fst (snd (checkHeartbeats iter now3 s1 w1)))"
    unfolding checkHeartbeats_def by (rule evict_self)
  ultimately show ?thesis
    using t1 tidy_check(1) [OF t1 assms(2,3), of now3] noted_self [OF n] by (auto simp: same_self_def prod_eq_iff)
next
  case False
  with assms(1,5) show ?thesis by (simp add: receive_once_eq same_self_def)
qed

text \<open>
  What it makes of one entry: it is kept, dropped, or, under the sender's id, replaced by the
  answer.
\<close>

lemma receive_view:
  assumes "tidy G s w" and "apart G" and "iter_order iter"
    and "receive_once e aton request iter now1 now2 now3 r (Some (data, ip)) s w = (exc, s', w')"
    and g: "\<And>d. admitted e aton r s data ip \<Longrightarrow>
      request ''get_node_info'' (tcp_url_i32 ip (service_port (told data))) = Inr d \<Longrightarrow> G (node_id (told data)) d"
  shows "map_of (nodes_info s') k = None \<or> map_of (nodes_info s') k = map_of (nodes_info s) k \<or>
     (admitted e aton r s data ip \<and> k = node_id (told data) \<and>
       (\<exists>d. request ''get_node_info'' (tcp_url_i32 ip (service_port (told data))) = Inr d \<and> map_of (nodes_info s') k = Some d))"
proof (cases "admitted e aton r s data ip")
  case True
  let ?a = "request ''get_node_info'' (tcp_url_i32 ip (service_port (told data)))"
  obtain s1 w1 where n: "noted now1 now2 (told data) ?a s w = (s1, w1)" and t1: "tidy G s1 w1"
    and "(s', w') = (s1, w1) \<or> (s', w') = snd (checkHeartbeats iter now3 s1 w1)"
    using receive_stage [OF assms(1) True g [OF True] assms(4)] by blast
  then have "map_of (nodes_info s') k = map_of (nodes_info s1) k \<or> map_of (nodes_info s') k = None"
    using tidy_check(2) [OF t1 assms(2,3), of now3 k] by (auto simp: prod_eq_iff)
  moreover have "map_of (nodes_info s1) k = map_of (nodes_info s) k \<or>
      k = node_id (told data) \<and> (\<exists>d. ?a = Inr d \<and> map_of (nodes_info s1) k = Some d)"
    using n by (auto simp: noted_def updateNodeUnlocked_def split: if_splits sum.splits)
  ultimately show ?thesis using True by auto
next
  case False
  with assms(4) show ?thesis by (simp add: receive_once_eq)
qed

text \<open>With a successful fetch the sender's entry is the answer, or the old one with the told version.\<close>

lemma receive_learns:
  assumes "tidy G s w" and "apart G" and "iter_order iter"
    and "receive_once e aton request iter now1 now2 now3 r (Some (data, ip)) s w = (exc, s', w')"
    and adm: "admitted e aton r s data ip"
    and a: "request ''get_node_info'' (tcp_url_i32 ip (service_port (told data))) = Inr d" "G (node_id (told data)) d"
  defines "old \<equiv> map_of (nodes_info s) (node_id (told data))"
  defines "new \<equiv> (if map_option infoID old = Some (info_id (told data)) then old else Some d)"
  shows "map_of (nodes_info s') (node_id (told data)) \<in> {None, new}"
    and "now1 \<le> now2 \<Longrightarrow> now2 \<le> now3 \<Longrightarrow> now3 < now1 + 3000000000 \<Longrightarrow> map_of (nodes_info s') (node_id (told data)) = new"
proof -
  let ?k = "node_id (told data)"
  have g: "G ?k d'" if "request ''get_node_info'' (tcp_url_i32 ip (service_port (told data))) = Inr d'" for d'
    using that a by simp
  obtain s1 w1 where n: "noted now1 now2 (told data) (Inr d) s w = (s1, w1)" and t1: "tidy G s1 w1"
    and c: "(s', w') = snd (checkHeartbeats iter now3 s1 w1)"
    using receive_stage [OF assms(1) adm g assms(4), unfolded a(1)] by (metis Inl_Inr_False)
  have v: "map_of (nodes_info s1) ?k = new"
    using n by (auto simp: noted_def updateNodeUnlocked_def new_def old_def split: if_splits)
  have h: "map_of (nodes_heartbeat s1) ?k \<in> {Some now1, Some now2}"
    using n by (auto simp: noted_def updateNodeUnlocked_def split: if_splits)
  have k: "map_of (nodes_info s') ?k = (if \<exists>t. map_of (nodes_heartbeat s1) ?k = Some t \<and> expired now3 t then None else new)"
    using tidy_check(2) [OF t1 assms(2,3), of now3 ?k] c v by (auto simp: prod_eq_iff)
  then show "map_of (nodes_info s') ?k \<in> {None, new}" by auto
  assume "now1 \<le> now2" "now2 \<le> now3" "now3 < now1 + 3000000000"
  then have "\<not> expired now3 now1" "\<not> expired now3 now2" by (auto simp: expired_iff)
  with k h show "map_of (nodes_info s') ?k = new" by auto
qed

section \<open>The network\<close>

lemma site_answers:
  assumes "lan_ok l" and "packable l (me y)"
  shows "node_info_request u (dial l (server l) (nim y)) (enc_empty l) (dec_info l) ''get_node_info'' url = Inr (me y)"
proof -
  let ?func = "\<lambda>_ s. (Inr (getLocalNodeInfo s), s)"
  have l: "serializer (enc_empty l) (dec_empty l) (\<lambda>_. True)" "serializer (enc_info l) (dec_info l) (packable l)"
    "connected (dial l (server l) (nim y)) url (server l) (nim y)"
    using assms(1) by (simp_all add: lan_ok_def)
  have h: "map_of (handlers (server l)) ''get_node_info'' =
      Some (typed_handler (\<lambda>v. dec_empty l v Empty) (enc_info l) ?func)"
    by (simp add: server_def registerGetNodeInfoService_def registerHandler_lookup)
  from rpc_serializer [OF l(1,2) _ assms(2) _ _ h _ l(3), where q = Empty and s' = "nim y" and r = "NodeInfo_uninit u"] show ?thesis
    by (simp add: node_info_request_def getLocalNodeInfo_def me_def)
qed

text \<open>What node \<open>i\<close> may hold of the others: their descriptions, present or past.\<close>

definition seen_by :: "'u network \<Rightarrow> nat \<Rightarrow> string \<Rightarrow> NodeInfo \<Rightarrow> bool" where
  "seen_by s i k info \<longleftrightarrow>
     (\<exists>j < length (sites s). j \<noteq> i \<and> k = nodeID (me (sites s ! j)) \<and> earlier info (me (sites s ! j)))"

text \<open>A datagram on the wire is a heartbeat of its sender.\<close>

definition genuine :: "'u lan \<Rightarrow> 'u network \<Rightarrow> nat \<Rightarrow> bytes \<Rightarrow> bool" where
  "genuine l s j b \<longleftrightarrow> j < length (sites s) \<and>
     (\<exists>m. hb_encode (byte_order l j) m = Inr b \<and> node_id m = nodeID (me (sites s ! j)) \<and>
        service_port m = servicePort (nim (sites s ! j)) \<and> group_name m = groupName (nim (sites s ! j)))"

definition net_inv :: "'u lan \<Rightarrow> 'u network \<Rightarrow> bool" where
  "net_inv l s \<longleftrightarrow> distinct (map (nodeID \<circ> me) (sites s)) \<and>
     (\<forall>i < length (sites s). tidy (seen_by s i) (nim (sites s ! i)) (subs (sites s ! i)) \<and>
        packable l (me (sites s ! i)) \<and> length (topics (me (sites s ! i))) + length (services (me (sites s ! i))) < 2 ^ 32) \<and>
     (\<forall>i < length (sites s). \<forall>j < length (sites s). i \<noteq> j \<longrightarrow> endpoints (me (sites s ! i)) \<inter> endpoints (me (sites s ! j)) = {}) \<and>
     (\<forall>(j, b) \<in> set (wire s). genuine l s j b)"

lemma net_invD:
  assumes "net_inv l s"
  shows "i < length (sites s) \<Longrightarrow> tidy (seen_by s i) (nim (sites s ! i)) (subs (sites s ! i))"
    and "i < length (sites s) \<Longrightarrow> packable l (me (sites s ! i))"
    and "i < length (sites s) \<Longrightarrow> length (topics (me (sites s ! i))) + length (services (me (sites s ! i))) < 2 ^ 32"
    and "i < length (sites s) \<Longrightarrow> local_inv (me (sites s ! i))"
    and "i < length (sites s) \<Longrightarrow> j < length (sites s) \<Longrightarrow> nodeID (me (sites s ! i)) = nodeID (me (sites s ! j)) \<longleftrightarrow> i = j"
    and "k < length (wire s) \<Longrightarrow> wire s ! k = (j, b) \<Longrightarrow> genuine l s j b"
proof -
  show "tidy (seen_by s i) (nim (sites s ! i)) (subs (sites s ! i))" "packable l (me (sites s ! i))"
    "length (topics (me (sites s ! i))) + length (services (me (sites s ! i))) < 2 ^ 32" if "i < length (sites s)"
    using assms that by (simp_all add: net_inv_def)
  then show "local_inv (me (sites s ! i))" if "i < length (sites s)"
    using that by (simp add: tidy_def nim_inv_def me_def)
  show "nodeID (me (sites s ! i)) = nodeID (me (sites s ! j)) \<longleftrightarrow> i = j" if "i < length (sites s)" "j < length (sites s)"
    using assms that nth_eq_iff_index_eq [of "map (nodeID \<circ> me) (sites s)" i j] by (simp add: net_inv_def)
  show "genuine l s j b" if "k < length (wire s)" "wire s ! k = (j, b)"
    using assms that nth_mem [OF that(1)] by (auto simp: net_inv_def)
qed

lemma net_inv_apart:
  assumes "net_inv l s"
  shows "apart (seen_by s i)"
proof -
  have "endpoints i1 \<inter> endpoints i2 = {}" if "seen_by s i k1 i1" "seen_by s i k2 i2" "k1 \<noteq> k2" for k1 k2 i1 i2
  proof -
    obtain j1 j2 where "j1 < length (sites s)" "j2 < length (sites s)" "j1 \<noteq> j2"
      "earlier i1 (me (sites s ! j1))" "earlier i2 (me (sites s ! j2))"
      using \<open>seen_by s i k1 i1\<close> \<open>seen_by s i k2 i2\<close> \<open>k1 \<noteq> k2\<close> unfolding seen_by_def by blast
    then have "endpoints (me (sites s ! j1)) \<inter> endpoints (me (sites s ! j2)) = {}"
      "endpoints i1 \<subseteq> endpoints (me (sites s ! j1))" "endpoints i2 \<subseteq> endpoints (me (sites s ! j2))"
      using assms by (auto simp: net_inv_def dest: earlier_endpoints)
    then show ?thesis by blast
  qed
  then show ?thesis unfolding apart_def by blast
qed

text \<open>A node whose own description stays may change the rest of its state.\<close>

lemma net_inv_replace:
  assumes inv: "net_inv l s" and i: "i < length (sites s)" and self: "same_self (nim (sites s ! i)) (nim x)"
    and x: "tidy (seen_by s i) (nim x) (subs x)"
  shows "net_inv l (s\<lparr>sites := (sites s)[i := x]\<rparr>)"
proof -
  let ?xs = "(sites s)[i := x]"
  let ?s = "s\<lparr>sites := ?xs\<rparr>"
  have me: "me (?xs ! j) = me (sites s ! j)" "groupName (nim (?xs ! j)) = groupName (nim (sites s ! j))"
    "servicePort (nim (?xs ! j)) = servicePort (nim (sites s ! j))" for j
    using self i by (cases "j = i"; simp add: me_def same_self_def)+
  have seen: "seen_by ?s = seen_by s" by (simp add: seen_by_def fun_eq_iff me)
  have gen: "genuine l ?s = genuine l s" by (simp add: genuine_def fun_eq_iff me)
  have "map (nodeID \<circ> me) ?xs = map (nodeID \<circ> me) (sites s)"
    by (rule nth_equalityI) (use me(1) in simp_all)
  moreover have "tidy (seen_by s j) (nim (?xs ! j)) (subs (?xs ! j))" if "j < length (sites s)" for j
    using that x inv i by (cases "j = i") (simp_all add: net_inv_def)
  ultimately show ?thesis using inv unfolding net_inv_def seen gen by (simp add: me)
qed

text \<open>A receiver's run, with what it can learn.\<close>

lemma told_genuine:
  assumes "genuine l s j b"
  shows "node_id (told b) = nodeID (me (sites s ! j)) \<and> service_port (told b) = servicePort (nim (sites s ! j))"
proof -
  obtain m where m: "hb_encode (byte_order l j) m = Inr b" "node_id m = nodeID (me (sites s ! j))"
    "service_port m = servicePort (nim (sites s ! j))"
    using assms by (auto simp: genuine_def)
  then have "told b = m\<lparr>group_name := take 968 (group_name m)\<rparr>"
    by (auto simp: hb_encode_Inr_iff hb_parse_take_layout)
  with m show ?thesis by simp
qed

lemma ask_sender:
  assumes "lan_ok l" and "net_inv l s" and "genuine l s j b"
  shows "ask_site l (sites s ! j) net_up e ''get_node_info'' (tcp_url_i32 (host (sites s ! j)) (service_port (told b))) =
     (if net_up then Inr (me (sites s ! j)) else Inl e)"
  using assms told_genuine [OF assms(3)] site_answers [OF assms(1) net_invD(2) [OF assms(2)], of j]
  by (simp add: ask_site_def genuine_def)

lemma deliver_answer:
  assumes lan: "lan_ok l" and inv: "net_inv l s" and i: "i < length (sites s)" and g: "genuine l s j b"
    and "admitted e aton r (nim (sites s ! i)) b ip"
    and d: "ask_site l (sites s ! j) net_up x ''get_node_info'' (tcp_url_i32 (host (sites s ! j)) (service_port (told b))) = Inr d"
  shows "d = me (sites s ! j) \<and> seen_by s i (node_id (told b)) d"
proof -
  have "node_id (told b) \<noteq> nodeID (me (sites s ! i))"
    using assms(5) by (simp add: admitted_def nim_nodeID_def me_def)
  moreover have "d = me (sites s ! j)" using ask_sender [OF lan inv g, of net_up x] d by (simp split: if_splits)
  moreover have "j < length (sites s)" using g by (simp add: genuine_def)
  ultimately show ?thesis
    using told_genuine [OF g] earlier_refl [OF net_invD(4) [OF inv]] by (auto simp: seen_by_def)
qed

lemma register_local_frame:
  "nodes_info (register_local s r) = nodes_info s" "node_update_event (register_local s r) = node_update_event s"
  "node_remove_event (register_local s r) = node_remove_event s" "groupName (register_local s r) = groupName s"
  "servicePort (register_local s r) = servicePort s"
  by (cases r; simp add: registerLocalTopic_def registerLocalService_def Let_def)+

lemma net_inv_announce:
  assumes inv: "net_inv l s" and may: "may_announce l i r s"
  shows "net_inv l (s\<lparr>sites := (sites s)[i := (sites s ! i)\<lparr>nim := register_local (nim (sites s ! i)) r\<rparr>]\<rparr>)"
proof -
  let ?x = "(sites s ! i)\<lparr>nim := register_local (nim (sites s ! i)) r\<rparr>"
  let ?xs = "(sites s)[i := ?x]"
  let ?s = "s\<lparr>sites := ?xs\<rparr>"
  have i: "i < length (sites s)" using may by (simp add: may_announce_def)
  have own: "nodeID (me (?xs ! j)) = nodeID (me (sites s ! j))" "groupName (nim (?xs ! j)) = groupName (nim (sites s ! j))"
    "servicePort (nim (?xs ! j)) = servicePort (nim (sites s ! j))" for j
    using i by (cases "j = i"; simp add: me_def register_local_local register_local_frame)+
  have later: "earlier d (me (?xs ! j))" if "earlier d (me (sites s ! j))" for d j
    using that i by (cases "j = i") (simp_all add: me_def earlier_register)
  have seen: "seen_by ?s j k info" if "seen_by s j k info" for j k info
    using that later unfolding seen_by_def by (fastforce simp: own)
  have gen: "genuine l ?s = genuine l s" by (simp add: genuine_def fun_eq_iff own)
  have "map (nodeID \<circ> me) ?xs = map (nodeID \<circ> me) (sites s)"
    by (rule nth_equalityI) (use own(1) in simp_all)
  then have "distinct (map (nodeID \<circ> me) ?xs)" using inv by (simp add: net_inv_def)
  moreover have "tidy (seen_by ?s j) (nim (?xs ! j)) (subs (?xs ! j))" if j: "j < length (sites s)" for j
  proof -
    have "nim_inv (register_local (nim (sites s ! j)) r)"
      using net_invD(1) [OF inv j] by (cases r) (auto simp: tidy_def intro: inv_intros)
    then have "tidy (seen_by s j) (nim (?xs ! j)) (subs (?xs ! j))"
      using net_invD(1) [OF inv j] j by (cases "j = i") (auto intro: tidy_frame simp: register_local_frame)
    then show ?thesis by (rule tidy_mono) (rule seen)
  qed
  moreover have "packable l (me (?xs ! j))" "length (topics (me (?xs ! j))) + length (services (me (?xs ! j))) < 2 ^ 32"
    if "j < length (sites s)" for j
    using that net_invD(2,3) [OF inv, of j] may by (cases "j = i"; auto simp: may_announce_def Let_def me_def)+
  moreover have "endpoints (me (?xs ! a)) \<inter> endpoints (me (?xs ! b)) = {}"
    if "a < length (sites s)" "b < length (sites s)" "a \<noteq> b" for a b
    using that inv may i by (cases "a = i"; cases "b = i") (auto simp: net_inv_def may_announce_def Let_def me_def)
  ultimately show ?thesis using inv unfolding net_inv_def gen by simp
qed

lemma net_inv_follow:
  assumes lan: "lan_ok l" and inv: "net_inv l s" and i: "i < length (sites s)"
  shows "net_inv l (s\<lparr>sites := (sites s)[i := (sites s ! i)\<lparr>subs :=
     snd (register_subscriber quiet None (iter_infos l) (nim (sites s ! i)) topic cb (subs (sites s ! i)))\<rparr>]\<rparr>)"
proof (rule net_inv_replace [OF inv i])
  have t: "tidy (seen_by s i) (nim (sites s ! i)) (subs (sites s ! i))" using net_invD(1) [OF inv i] .
  have "linked info (snd (register_subscriber quiet None (iter_infos l) (nim (sites s ! i)) topic cb (subs (sites s ! i))))"
    if "map_of (nodes_info (nim (sites s ! i))) k = Some info" for k info
    using that t lan by (intro linked_register) (auto simp: tidy_def lan_ok_def known_def ran_def)
  with t show "tidy (seen_by s i) (nim ((sites s ! i)\<lparr>subs :=
      snd (register_subscriber quiet None (iter_infos l) (nim (sites s ! i)) topic cb (subs (sites s ! i)))\<rparr>))
      (subs ((sites s ! i)\<lparr>subs :=
      snd (register_subscriber quiet None (iter_infos l) (nim (sites s ! i)) topic cb (subs (sites s ! i)))\<rparr>))"
    by (simp add: tidy_def)
qed (simp add: same_self_def)

lemma beat_sends:
  assumes "net_inv l s" and "i < length (sites s)"
  shows "\<exists>b. snd (heartbeat_tick (byte_order l i) (nim (sites s ! i)) []) = [b] \<and>
     hb_encode (byte_order l i) (createHeartbeat (nim (sites s ! i))) = Inr b"
proof -
  have "nim_inv (nim (sites s ! i))" using net_invD(1) [OF assms] by (simp add: tidy_def)
  from heartbeat_of_node [OF this, of "byte_order l i"] show ?thesis by auto
qed

lemma net_inv_beat:
  assumes inv: "net_inv l s" and i: "i < length (sites s)"
  shows "net_inv l (s\<lparr>wire := wire s @ map (Pair i) (snd (heartbeat_tick (byte_order l i) (nim (sites s ! i)) []))\<rparr>)"
proof -
  obtain b where b: "snd (heartbeat_tick (byte_order l i) (nim (sites s ! i)) []) = [b]"
    "hb_encode (byte_order l i) (createHeartbeat (nim (sites s ! i))) = Inr b"
    using beat_sends [OF assms] by blast
  have "genuine l s i b" unfolding genuine_def using i b(2)
    by (intro conjI exI [of _ "createHeartbeat (nim (sites s ! i))"]) (simp_all add: createHeartbeat_def me_def)
  moreover have "seen_by (s\<lparr>wire := w\<rparr>) = seen_by s" "genuine l (s\<lparr>wire := w\<rparr>) = genuine l s" for w
    by (simp_all add: seen_by_def genuine_def fun_eq_iff)
  ultimately show ?thesis using inv by (simp add: net_inv_def b(1))
qed

lemma deliver_elim:
  assumes "lan_ok l" and "net_inv l s" and "net_do l (Deliver i k now1 now2 now3 net_up e) s = Some s'"
  obtains j b exc nim' subs' where "i < length (sites s)" "k < length (wire s)" "wire s ! k = (j, b)"
    "receive_once (byte_order l i) (inet l) (ask_site l (sites s ! j) net_up e) (iter_times l)
      now1 now2 now3 (rcv (sites s ! i)) (Some (b, host (sites s ! j))) (nim (sites s ! i)) (subs (sites s ! i)) = (exc, nim', subs')"
    "s' = s\<lparr>sites := (sites s)[i := (sites s ! i)\<lparr>nim := nim', subs := subs'\<rparr>]\<rparr>"
    "tidy (seen_by s i) nim' subs'" "same_self (nim (sites s ! i)) nim'"
proof -
  obtain j b where w: "wire s ! k = (j, b)" by fastforce
  obtain exc nim' subs' where r: "receive_once (byte_order l i) (inet l) (ask_site l (sites s ! j) net_up e) (iter_times l)
      now1 now2 now3 (rcv (sites s ! i)) (Some (b, host (sites s ! j))) (nim (sites s ! i)) (subs (sites s ! i)) = (exc, nim', subs')"
    using prod_cases3 by blast
  have ik: "i < length (sites s)" "k < length (wire s)" using assms(3) by (auto split: if_splits)
  then have s': "s' = s\<lparr>sites := (sites s)[i := (sites s ! i)\<lparr>nim := nim', subs := subs'\<rparr>]\<rparr>"
    using assms(3) by (simp add: w r Let_def)
  have "iter_order (iter_times l)" using assms(1) by (simp add: lan_ok_def)
  note t = receive_tidy [OF net_invD(1) [OF assms(2) ik(1)] net_inv_apart [OF assms(2)] this _ r]
  have "tidy (seen_by s i) nim' subs' \<and> same_self (nim (sites s ! i)) nim'"
    by (rule t) (use deliver_answer [OF assms(1,2) ik(1) net_invD(6) [OF assms(2) ik(2) w]] in blast)
  then show ?thesis using that [OF ik w r s'] by blast
qed

lemma net_inv_do:
  assumes "lan_ok l" and "net_inv l s" and "net_do l a s = Some s'"
  shows "net_inv l s'"
proof (cases a)
  case (Deliver i k now1 now2 now3 net_up e)
  from assms(3) [unfolded Deliver] show ?thesis
    by (rule deliver_elim [OF assms(1,2)]) (simp add: net_inv_replace [OF assms(2)])
qed (use assms in \<open>auto split: if_splits intro: net_inv_announce net_inv_follow net_inv_beat\<close>)

lemma net_inv_run: "lan_ok l \<Longrightarrow> net_inv l s \<Longrightarrow> net_run l as s = Some s' \<Longrightarrow> net_inv l s'"
proof (induction as arbitrary: s)
  case (Cons a as)
  then obtain t where t: "net_do l a s = Some t" "net_run l as t = Some s'" by (cases "net_do l a s") auto
  with Cons show ?case using net_inv_do by blast
qed simp

lemma new_site_simps [simp]:
  "nodes_info (nim (new_site draws nm ip grp port)) = []"
  "topics (me (new_site draws nm ip grp port)) = []" "services (me (new_site draws nm ip grp port)) = []"
  "node_update_event (nim (new_site draws nm ip grp port)) = subscribe (updateTopicSubscriber quiet) event_empty"
  "node_remove_event (nim (new_site draws nm ip grp port)) = subscribe (removeTopicSubscriber quiet) event_empty"
  by (simp_all add: new_site_def me_def SubscriberManager_ctor_def setGroupName_def setServicePort_def NodeInfoManager_ctor_def)

lemma tidy_new_site: "tidy G (nim (new_site draws nm ip grp port)) w"
proof -
  have "nim_inv (nim (new_site draws nm ip grp port) :: 'u registry)"
    unfolding new_site_def by (simp add: nim_inv_SubscriberManager_ctor nim_inv_setters nim_inv_ctor)
  then show ?thesis by (simp add: tidy_def)
qed

lemma net_run_append: "net_run l (as @ bs) s = Option.bind (net_run l as s) (net_run l bs)"
  by (induction as arbitrary: s) (simp_all add: bind_assoc del: net_do.simps split: bind_splits)

lemma net_inv_start:
  assumes "net_start l s"
  shows "net_inv l s"
proof -
  have new: "\<exists>draws nm ip grp port. sites s ! i = new_site draws nm ip grp port" "packable l (me (sites s ! i))"
    if "i < length (sites s)" for i
    using assms nth_mem [OF that] by (auto simp: net_start_def)
  have "tidy (seen_by s i) (nim (sites s ! i)) (subs (sites s ! i)) \<and> topics (me (sites s ! i)) = [] \<and>
      services (me (sites s ! i)) = []" if "i < length (sites s)" for i
    using new(1) [OF that] tidy_new_site by auto
  with assms new(2) show ?thesis by (simp add: net_inv_def net_start_def endpoints_def)
qed

section \<open>What changes in an action\<close>

lemma net_do_frame:
  assumes "lan_ok l" and "net_inv l s" and "net_do l a s = Some s'"
  shows "length (sites s') = length (sites s)" and "\<exists>ds. wire s' = wire s @ ds"
    and "rcv (sites s' ! j) = rcv (sites s ! j)" and "host (sites s' ! j) = host (sites s ! j)"
    and "groupName (nim (sites s' ! j)) = groupName (nim (sites s ! j))"
    and "nodeID (me (sites s' ! j)) = nodeID (me (sites s ! j))"
    and "(\<And>r. a \<noteq> Announce j r) \<Longrightarrow> me (sites s' ! j) = me (sites s ! j)"
proof -
  have "length (sites s') = length (sites s) \<and> (\<exists>ds. wire s' = wire s @ ds) \<and>
     rcv (sites s' ! j) = rcv (sites s ! j) \<and> host (sites s' ! j) = host (sites s ! j) \<and>
     groupName (nim (sites s' ! j)) = groupName (nim (sites s ! j)) \<and>
     nodeID (me (sites s' ! j)) = nodeID (me (sites s ! j)) \<and>
     ((\<forall>r. a \<noteq> Announce j r) \<longrightarrow> me (sites s' ! j) = me (sites s ! j))"
  proof (cases a)
    case (Deliver i k now1 now2 now3 net_up e)
    from assms(3) [unfolded Deliver] show ?thesis
      by (rule deliver_elim [OF assms(1,2)]) (cases "j = i"; simp add: me_def same_self_def)
  next
    case (Announce i r)
    with assms(3) show ?thesis
      by (cases "j = i") (auto simp: me_def may_announce_def register_local_frame register_local_local split: if_splits)
  next
    case (Follow i topic cb)
    with assms(3) show ?thesis by (cases "j = i") (auto simp: me_def split: if_splits)
  qed (use assms(3) in \<open>auto split: if_splits\<close>)
  then show "length (sites s') = length (sites s)" "\<exists>ds. wire s' = wire s @ ds" "rcv (sites s' ! j) = rcv (sites s ! j)"
    "host (sites s' ! j) = host (sites s ! j)" "groupName (nim (sites s' ! j)) = groupName (nim (sites s ! j))"
    "nodeID (me (sites s' ! j)) = nodeID (me (sites s ! j))"
    "(\<And>r. a \<noteq> Announce j r) \<Longrightarrow> me (sites s' ! j) = me (sites s ! j)"
    by auto
qed

text \<open>What node \<open>i\<close> holds of node \<open>j\<close>.\<close>

definition view :: "'u network \<Rightarrow> nat \<Rightarrow> nat \<Rightarrow> NodeInfo option" where
  "view s i j = map_of (nodes_info (nim (sites s ! i))) (nodeID (me (sites s ! j)))"

definition up_to_date :: "'u network \<Rightarrow> nat \<Rightarrow> nat \<Rightarrow> bool" where
  "up_to_date s i j \<longleftrightarrow> view s i j \<in> {None, Some (me (sites s ! j))}"

text \<open>Whatever the datagrams say, a fetch gives the present description: nothing makes a view outdated.\<close>

lemma up_to_date_do:
  assumes lan: "lan_ok l" and inv: "net_inv l s" and do: "net_do l a s = Some s'" and a: "\<And>r. a \<noteq> Announce j r"
    and ij: "i < length (sites s)" "j < length (sites s)" and u: "up_to_date s i j"
  shows "up_to_date s' i j"
proof -
  note f = net_do_frame [OF lan inv do]
  have me: "me (sites s' ! j) = me (sites s ! j)" using f(7) a by blast
  have keep: ?thesis if "nodes_info (nim (sites s' ! i)) = nodes_info (nim (sites s ! i))"
    using u that by (simp add: up_to_date_def view_def me)
  show ?thesis
  proof (cases a)
    case (Deliver i' k now1 now2 now3 net_up e)
    from do [unfolded Deliver] show ?thesis
    proof (rule deliver_elim [OF lan inv])
      fix j' b exc nim' subs'
      assume k: "k < length (wire s)" "wire s ! k = (j', b)" and s': "s' = s\<lparr>sites := (sites s)[i' := (sites s ! i')\<lparr>nim := nim', subs := subs'\<rparr>]\<rparr>"
        and i': "i' < length (sites s)"
        and r: "receive_once (byte_order l i') (inet l) (ask_site l (sites s ! j') net_up e) (iter_times l) now1 now2 now3
          (rcv (sites s ! i')) (Some (b, host (sites s ! j'))) (nim (sites s ! i')) (subs (sites s ! i')) = (exc, nim', subs')"
      show ?thesis
      proof (cases "i' = i")
        case False
        with s' show ?thesis by (intro keep) simp
      next
        case True
        have "iter_order (iter_times l)" using lan by (simp add: lan_ok_def)
        note g = net_invD(6) [OF inv k]
        note ans = deliver_answer [OF lan inv i' g]
        note v = receive_view [OF net_invD(1) [OF inv i'] net_inv_apart [OF inv] \<open>iter_order (iter_times l)\<close> r]
        let ?n = "nodeID (me (sites s ! j))"
        have "map_of (nodes_info nim') ?n \<in> {None, view s i j} \<or>
            ?n = node_id (told b) \<and> map_of (nodes_info nim') ?n = Some (me (sites s ! j'))"
          using v [of ?n] ans True unfolding view_def by blast
        moreover have "j' = j" if "?n = node_id (told b)"
          using that told_genuine [OF g] net_invD(5) [OF inv, of j j'] ij g by (simp add: genuine_def)
        moreover have "view s' i j = map_of (nodes_info nim') ?n" using s' True i' me by (simp add: view_def)
        ultimately show ?thesis using u me by (auto simp: up_to_date_def)
      qed
    qed
  next
    case (Announce i' r)
    with do show ?thesis
      by (intro keep) (cases "i' = i"; auto simp: register_local_frame may_announce_def split: if_splits)
  next
    case (Follow i' topic cb)
    with do show ?thesis by (intro keep) (cases "i' = i"; auto split: if_splits)
  next
    case (Beat i')
    with do show ?thesis by (intro keep) (auto split: if_splits)
  qed
qed

text \<open>Node \<open>i\<close> listens to node \<open>j\<close>: the same group, a name that fits the buffer, the same subnet.\<close>

definition hears :: "'u lan \<Rightarrow> 'u network \<Rightarrow> nat \<Rightarrow> nat \<Rightarrow> bool" where
  "hears l s i j \<longleftrightarrow> groupName (nim (sites s ! j)) = mr_groupName (rcv (sites s ! i)) \<and>
     length (groupName (nim (sites s ! j))) \<le> 968 \<and>
     isInSameSubnet (byte_order l i) (inet l) (mr_localIP (rcv (sites s ! i))) (host (sites s ! j)) DEFAULT_SUBNET_MASK"

text \<open>Nodes of the same subnet that name no group hear each other.\<close>

lemma hears_default:
  assumes "sites s ! i = new_site_default draws nm ip port" and "sites s ! j = new_site_default draws' nm' ip' port'"
    and "isInSameSubnet (byte_order l i) (inet l) ip ip' DEFAULT_SUBNET_MASK"
  shows "hears l s i j"
  using assms by (simp add: hears_def new_site_default_def new_site_def SubscriberManager_ctor_def setGroupName_def
      setServicePort_def NodeInfoManager_ctor_def MulticastReceiver_ctor_def)

lemma net_run_frame:
  assumes "lan_ok l" and "net_inv l s" and "net_run l as s = Some s'" and "\<And>r. Announce j r \<notin> set as"
  shows "length (sites s') = length (sites s) \<and> (\<exists>ds. wire s' = wire s @ ds) \<and> me (sites s' ! j) = me (sites s ! j) \<and>
     hears l s' i j = hears l s i j \<and> groupName (nim (sites s' ! j)) = groupName (nim (sites s ! j)) \<and>
     (i < length (sites s) \<longrightarrow> j < length (sites s) \<longrightarrow> up_to_date s i j \<longrightarrow> up_to_date s' i j)"
  using assms(2-4)
proof (induction as arbitrary: s)
  case (Cons a as)
  then obtain t where t: "net_do l a s = Some t" "net_run l as t = Some s'" by (cases "net_do l a s") auto
  have a: "a \<noteq> Announce j r" for r using Cons.prems(3) [of r] by auto
  note f = net_do_frame [OF assms(1) Cons.prems(1) t(1)]
  have "hears l t i j = hears l s i j" by (simp add: hears_def f(3,4,5))
  moreover have "me (sites t ! j) = me (sites s ! j)" using f(7) a by blast
  moreover have "\<exists>ds. wire t = wire s @ ds" by (rule f(2))
  moreover have "i < length (sites s) \<longrightarrow> j < length (sites s) \<longrightarrow> up_to_date s i j \<longrightarrow> up_to_date t i j"
    using up_to_date_do [OF assms(1) Cons.prems(1) t(1) a] by blast
  moreover note Cons.IH [OF net_inv_do [OF assms(1) Cons.prems(1) t(1)] t(2)]
  moreover have "groupName (nim (sites t ! j)) = groupName (nim (sites s ! j))" by (rule f(5))
  ultimately show ?case using Cons.prems(3) f(1) by (metis append.assoc list.set_intros(2))
qed simp

lemma known_version:
  assumes inv: "net_inv l s" and ij: "i < length (sites s)" "j < length (sites s)"
    and "map_of (nodes_info (nim (sites s ! i))) (nodeID (me (sites s ! j))) = Some d" and "infoID d = infoID (me (sites s ! j))"
  shows "d = me (sites s ! j)"
proof -
  have "seen_by s i (nodeID (me (sites s ! j))) d" using net_invD(1) [OF inv ij(1)] assms(4) by (simp add: tidy_def)
  then obtain j' where "j' < length (sites s)" "nodeID (me (sites s ! j)) = nodeID (me (sites s ! j'))" "earlier d (me (sites s ! j'))"
    unfolding seen_by_def by blast
  moreover from this have "j' = j" using net_invD(5) [OF inv ij(2)] by blast
  ultimately show ?thesis using same_version net_invD(3,4) [OF inv ij(2)] assms(5) by blast
qed

lemma deliver_current:
  assumes lan: "lan_ok l" and inv: "net_inv l s" and ij: "j < length (sites s)" "i \<noteq> j" and h: "hears l s i j"
    and k: "wire s ! k = (j, b)" and m: "hb_encode (byte_order l j) m = Inr b" "node_id m = nodeID (me (sites s ! j))"
      "info_id m = infoID (me (sites s ! j))" "group_name m = groupName (nim (sites s ! j))"
    and do: "net_do l (Deliver i k now1 now2 now3 True e) s = Some s'"
  shows "up_to_date s' i j"
    and "now1 \<le> now2 \<Longrightarrow> now2 \<le> now3 \<Longrightarrow> now3 < now1 + 3000000000 \<Longrightarrow> view s' i j = Some (me (sites s' ! j))"
proof -
  have told: "told b = m" using m h by (auto simp: hb_encode_Inr_iff hb_parse_take_layout hears_def)
  let ?n = "node_id (told b)"
  let ?old = "map_of (nodes_info (nim (sites s ! i))) ?n"
  from do have "up_to_date s' i j \<and>
    (now1 \<le> now2 \<longrightarrow> now2 \<le> now3 \<longrightarrow> now3 < now1 + 3000000000 \<longrightarrow> view s' i j = Some (me (sites s' ! j)))"
  proof (rule deliver_elim [OF lan inv])
    fix j' b' exc nim' subs'
    assume i: "i < length (sites s)" and k': "k < length (wire s)" "wire s ! k = (j', b')"
      and r': "receive_once (byte_order l i) (inet l) (ask_site l (sites s ! j') True e) (iter_times l) now1 now2 now3
          (rcv (sites s ! i)) (Some (b', host (sites s ! j'))) (nim (sites s ! i)) (subs (sites s ! i)) = (exc, nim', subs')"
      and s': "s' = s\<lparr>sites := (sites s)[i := (sites s ! i)\<lparr>nim := nim', subs := subs'\<rparr>]\<rparr>"
      and self: "same_self (nim (sites s ! i)) nim'"
    have eq: "j' = j" "b' = b" using k k'(2) by simp_all
    note r = r' [unfolded eq] and g = net_invD(6) [OF inv k' [unfolded eq]]
    have t: "tidy (seen_by s i) (nim (sites s ! i)) (subs (sites s ! i))" using net_invD(1) [OF inv i] .
    have adm: "admitted (byte_order l i) (inet l) (rcv (sites s ! i)) (nim (sites s ! i)) b (host (sites s ! j))"
      using h m net_invD(5) [OF inv ij(1) i] ij(2)
      by (auto simp: admitted_heartbeat [OF m(1)] hears_def nim_nodeID_def me_def)
    have a: "ask_site l (sites s ! j) True e ''get_node_info'' (tcp_url_i32 (host (sites s ! j)) (service_port (told b))) =
        Inr (me (sites s ! j))" using ask_sender [OF lan inv g] by simp
    have it: "iter_order (iter_times l)" using lan by (simp add: lan_ok_def)
    note learns = receive_learns [OF t net_inv_apart [OF inv] it r adm a conjunct2 [OF deliver_answer [OF lan inv i g adm a]]]
    have new: "(if map_option infoID ?old = Some (info_id (told b)) then ?old else Some (me (sites s ! j))) = Some (me (sites s ! j))"
      using known_version [OF inv i ij(1)] m(2,3) told by auto
    have "view s' i j = map_of (nodes_info nim') ?n" "me (sites s' ! j) = me (sites s ! j)"
      using s' i ij m(2) told by (simp_all add: view_def)
    then show ?thesis using learns [unfolded new] unfolding up_to_date_def by metis
  qed
  then show "up_to_date s' i j"
    "now1 \<le> now2 \<Longrightarrow> now2 \<le> now3 \<Longrightarrow> now3 < now1 + 3000000000 \<Longrightarrow> view s' i j = Some (me (sites s' ! j))" by blast+
qed

text \<open>A heartbeat that is sent now and delivered before anything new is announced.\<close>

lemma heartbeat_follows:
  assumes "lan_ok l" and inv1: "net_inv l s1" and bs: "net_run l (Beat j # bs) s1 = Some s2"
    and do: "net_do l (Deliver i (length (wire s1)) now1 now2 now3 True e) s2 = Some s3"
    and quiet: "\<And>r. Announce j r \<notin> set bs" and ij: "i \<noteq> j" and h: "hears l s1 i j"
  shows "up_to_date s3 i j"
    and "now1 \<le> now2 \<Longrightarrow> now2 \<le> now3 \<Longrightarrow> now3 < now1 + 3000000000 \<Longrightarrow> view s3 i j = Some (me (sites s3 ! j))"
    and "i < length (sites s3)" and "j < length (sites s3)"
proof -
  have inv2: "net_inv l s2" using net_inv_run [OF assms(1) inv1 bs] .
  have j: "j < length (sites s1)" using bs by (auto split: if_splits)
  obtain b where b: "snd (heartbeat_tick (byte_order l j) (nim (sites s1 ! j)) []) = [b]"
    "hb_encode (byte_order l j) (createHeartbeat (nim (sites s1 ! j))) = Inr b"
    using beat_sends [OF inv1 j] by blast
  let ?t = "s1\<lparr>wire := wire s1 @ [(j, b)]\<rparr>" and ?m = "createHeartbeat (nim (sites s1 ! j))"
  have run: "net_run l bs ?t = Some s2" using bs j b(1) by simp
  have inv_t: "net_inv l ?t" using net_inv_do [OF assms(1) inv1, of "Beat j" ?t] j b(1) by simp
  note f = net_run_frame [OF assms(1) inv_t run quiet, of i]
  have "hears l ?t i j" using h by (auto simp: hears_def)
  with f have h2: "hears l s2 i j" by simp
  have w: "wire s2 ! length (wire s1) = (j, b)" using f by (auto simp: nth_append)
  have m: "node_id ?m = nodeID (me (sites s2 ! j))" "info_id ?m = infoID (me (sites s2 ! j))"
    "group_name ?m = groupName (nim (sites s2 ! j))" "j < length (sites s2)"
    using f j by (simp_all add: createHeartbeat_def me_def)
  note c = deliver_current [OF assms(1) inv2 m(4) ij h2 w b(2) m(1-3) do]
  show "up_to_date s3 i j" by (rule c(1))
  show "view s3 i j = Some (me (sites s3 ! j))" if "now1 \<le> now2" "now2 \<le> now3" "now3 < now1 + 3000000000"
    using that by (rule c(2))
  show "i < length (sites s3)" "j < length (sites s3)"
    using net_do_frame(1) [OF assms(1) inv2 do] do m(4) by (auto split: if_splits)
qed

section \<open>A network of two\<close>

text \<open>A codec for the descriptions of a short list: their places in it.\<close>

definition place :: "NodeInfo list \<Rightarrow> NodeInfo \<Rightarrow> nat" where
  "place book d = length (takeWhile (\<lambda>x. x \<noteq> d) book)"

definition book_lan :: "NodeInfo list \<Rightarrow> 'u lan" where
  "book_lan book =
     \<lparr>byte_order = (\<lambda>i. if even i then LittleEndian else BigEndian), inet = (\<lambda>_. Some 0), iter_times = rev, iter_infos = rev,
      enc_empty = (\<lambda>_. Inr [0xC0]), dec_empty = (\<lambda>_ _. Inr Empty),
      enc_info = (\<lambda>d. Inr [word_of_nat (place book d)]), dec_info = (\<lambda>v _. Inr (book ! unat (hd (bv_bytes v)))),
      stack_word = 0, packable = (\<lambda>d. d \<in> set book), dial = socket_to\<rparr>"

lemma place_lookup: "d \<in> set book \<Longrightarrow> place book d < length book \<and> book ! place book d = d"
  by (induction book) (auto simp: place_def)

lemma book_lan_ok:
  assumes "length book \<le> 256"
  shows "lan_ok (book_lan book :: 'u lan)"
proof -
  have "serializer (\<lambda>d. Inr [word_of_nat (place book d)]) (\<lambda>v _. Inr (book ! unat (hd (bv_bytes v)))) (\<lambda>d. d \<in> set book)"
  proof
    fix x d assume "x \<in> set book"
    then have "unat (word_of_nat (place book x) :: u8) = place book x" "book ! place book x = x"
      using place_lookup [of x book] assms by (auto simp: unat_of_nat)
    then show "\<exists>b. Inr [word_of_nat (place book x)] = Inr b \<and> b \<noteq> [] \<and> length b < 2 ^ 64 \<and>
        Inr (book ! unat (hd (bv_bytes (view_of b)))) = Inr x" by simp
  qed
  moreover have "serializer (\<lambda>_. Inr [0xC0]) (\<lambda>_ _. Inr Empty) (\<lambda>_. True)"
    proof
    fix x d show "\<exists>b. Inr [0xC0] = Inr b \<and> b \<noteq> [] \<and> length b < 2 ^ 64 \<and> Inr Empty = Inr x" by (cases x) simp
  qed
  ultimately show ?thesis by (simp add: lan_ok_def book_lan_def connected_socket_to)
qed

text \<open>The second node announces a topic that the first one follows.\<close>

definition site_a :: "unit site" where
  "site_a = new_site (\<lambda>_. 0) ''a'' ''10.0.0.1'' ''grp'' 4000"

definition site_b :: "unit site" where
  "site_b = new_site (\<lambda>_. 1) ''b'' ''10.0.0.2'' ''grp'' 4001"

definition lan_ab :: "unit lan" where
  "lan_ab = book_lan [me site_a, me site_b, localNodeInfo (register_local (nim site_b) (RegTopic ''t'' 9))]"

definition start_ab :: "unit network" where
  "start_ab = \<lparr>sites = [site_a, site_b], wire = []\<rparr>"

definition acts_ab :: "unit net_action list" where
  "acts_ab = [Announce 1 (RegTopic ''t'' 9), Follow 0 ''t'' (\<lambda>_ u. (None, u))]"

lemma lan_ab_ok: "lan_ok lan_ab" unfolding lan_ab_def by (rule book_lan_ok) simp

lemma start_ab_ok: "net_start lan_ab start_ab"
proof -
  have "generateUUID (\<lambda>_. 1) \<noteq> generateUUID (\<lambda>_. 0)" by code_simp
  then have "nodeID (me site_a) \<noteq> nodeID (me site_b)"
    by (simp add: site_a_def site_b_def new_site_def me_def SubscriberManager_ctor_def setGroupName_def setServicePort_def
        NodeInfoManager_ctor_def)
  moreover have "\<exists>draws nm ip grp port. site_a = new_site draws nm ip grp port" unfolding site_a_def by blast
  moreover have "\<exists>draws nm ip grp port. site_b = new_site draws nm ip grp port" unfolding site_b_def by blast
  ultimately show ?thesis by (simp add: net_start_def start_ab_def lan_ab_def book_lan_def)
qed

lemma run_ab:
  "\<exists>s1 s2 s3. net_run lan_ab acts_ab start_ab = Some s1 \<and> wire s1 = [] \<and> net_run lan_ab [Beat 1] s1 = Some s2 \<and>
     net_do lan_ab (Deliver 0 0 1 2 3 True BadAlloc) s2 = Some s3 \<and> hears lan_ab s1 0 1 \<and>
     topics (me (sites s3 ! 1)) = [\<lparr>si_name = ''t'', si_ip = ''10.0.0.2'', si_port = 9\<rparr>]"
proof -
  let ?b = "site_b\<lparr>nim := register_local (nim site_b) (RegTopic ''t'' 9)\<rparr>"
  let ?a = "site_a\<lparr>subs := snd (register_subscriber quiet None (iter_infos lan_ab) (nim site_a) ''t'' (\<lambda>_ u. (None, u)) (subs site_a))\<rparr>"
  let ?s = "\<lparr>sites = [?a, ?b], wire = []\<rparr> :: unit network"
  have new: "topics (me site_a) = []" "topics (me site_b) = []" "services (me site_b) = []"
    by (simp_all add: site_a_def site_b_def)
  have "may_announce lan_ab 1 (RegTopic ''t'' 9) start_ab"
    using new by (auto simp: may_announce_def start_ab_def lan_ab_def book_lan_def endpoints_def less_Suc_eq
        registerLocalTopic_def me_def Let_def)
  then have r1: "net_run lan_ab acts_ab start_ab = Some ?s" by (simp add: acts_ab_def start_ab_def)
  have inv: "net_inv lan_ab ?s" using net_inv_run [OF lan_ab_ok net_inv_start [OF start_ab_ok] r1] .
  obtain b where b: "snd (heartbeat_tick (byte_order lan_ab 1) (nim (sites ?s ! 1)) []) = [b]"
    using beat_sends [OF inv, of 1] by auto
  let ?s2 = "?s\<lparr>wire := [(1, b)]\<rparr>"
  have r2: "net_run lan_ab [Beat 1] ?s = Some ?s2" using b by simp
  have inv2: "net_inv lan_ab ?s2" using net_inv_run [OF lan_ab_ok inv r2] .
  have "\<exists>s3. net_do lan_ab (Deliver 0 0 1 2 3 True BadAlloc) ?s2 = Some s3"
    by (simp add: Let_def split: prod.split)
  then obtain s3 where r3: "net_do lan_ab (Deliver 0 0 1 2 3 True BadAlloc) ?s2 = Some s3" by blast
  have "me (sites s3 ! 1) = me ?b" using net_do_frame(7) [OF lan_ab_ok inv2 r3, of 1] by simp
  moreover have "topics (me ?b) = [\<lparr>si_name = ''t'', si_ip = ''10.0.0.2'', si_port = 9\<rparr>]"
    by (simp add: site_b_def new_site_def me_def SubscriberManager_ctor_def setGroupName_def setServicePort_def
        NodeInfoManager_ctor_def registerLocalTopic_def Let_def)
  moreover have "hears lan_ab ?s 0 1"
    by (simp add: hears_def lan_ab_def book_lan_def site_a_def site_b_def new_site_def SubscriberManager_ctor_def setGroupName_def
        setServicePort_def NodeInfoManager_ctor_def registerLocalTopic_def MulticastReceiver_ctor_def isInSameSubnet_def Let_def)
  ultimately show ?thesis using r1 r2 r3 by (intro exI [of _ ?s] exI [of _ ?s2] exI [of _ s3]) simp
qed

section \<open>Properties\<close>

text \<open>
  C6: Nobody believes anything that was never true: in every state a network reaches, whatever
  datagrams are lost, delayed, repeated or reordered, an entry of a node's registry is a
  description that another node really had, under that node's id, and every subscriber is
  linked to all endpoints of its topic in it.
\<close>

theorem network_view_sound:
  assumes "lan_ok l" and "net_start l s0" and "net_run l as s0 = Some s"
    and "i < length (sites s)" and "map_of (nodes_info (nim (sites s ! i))) k = Some info"
  shows "(\<exists>j < length (sites s). j \<noteq> i \<and> k = nodeID (me (sites s ! j)) \<and> earlier info (me (sites s ! j))) \<and>
     (\<forall>sub \<in> set (subscribers (subs (sites s ! i))). \<forall>t \<in> set (topics info).
        si_name t = topicName sub \<longrightarrow> socket_url t \<in> set (publisherURLs sub))"
proof -
  have "net_inv l s" using net_inv_run [OF assms(1) net_inv_start [OF assms(2)] assms(3)] .
  then have "tidy (seen_by s i) (nim (sites s ! i)) (subs (sites s ! i))" using assms(4) by (rule net_invD(1))
  then have "seen_by s i k info" "linked info (subs (sites s ! i))" using assms(5) by (simp_all add: tidy_def)
  then show ?thesis by (fastforce simp: seen_by_def linked_def links_def urls_for_def)
qed

theorem network_view_sound_witness:
  "\<exists>s j. net_run lan_ab (acts_ab @ [Beat 1, Deliver 0 0 1 2 3 True BadAlloc]) start_ab = Some s \<and>
     view s 0 1 = Some (me (sites s ! 1)) \<and> j < length (sites s) \<and> j \<noteq> 0 \<and> nodeID (me (sites s ! 1)) = nodeID (me (sites s ! j))"
proof -
  obtain s1 s2 s3 where r: "net_run lan_ab acts_ab start_ab = Some s1" "wire s1 = []" "net_run lan_ab [Beat 1] s1 = Some s2"
    "net_do lan_ab (Deliver 0 0 1 2 3 True BadAlloc) s2 = Some s3" "hears lan_ab s1 0 1"
    using run_ab by blast
  have inv: "net_inv lan_ab s1" using net_inv_run [OF lan_ab_ok net_inv_start [OF start_ab_ok] r(1)] .
  have run: "net_run lan_ab (acts_ab @ [Beat 1, Deliver 0 0 1 2 3 True BadAlloc]) start_ab = Some s3"
    using r by (auto simp: net_run_append simp del: net_do.simps split: bind_splits)
  note h = heartbeat_follows [OF lan_ab_ok inv r(3) _ _ _ r(5), of 1 2 3 BadAlloc s3]
  have v: "view s3 0 1 = Some (me (sites s3 ! 1))" "0 < length (sites s3)" using h(2,3) r(2,4) by simp_all
  then have "map_of (nodes_info (nim (sites s3 ! 0))) (nodeID (me (sites s3 ! 1))) = Some (me (sites s3 ! 1))"
    by (simp add: view_def)
  from network_view_sound [OF lan_ab_ok start_ab_ok run v(2) this] v(1) run show ?thesis by blast
qed

text \<open>
  C2: The network converges: when a node has announced its last topic or service, the first
  heartbeat it sends afterwards that reaches a listening node and is followed up brings that
  node up to date, and nothing that happens later, old heartbeats still under way and evictions
  included, makes its entry wrong again: it is the node's present description or, after an
  eviction, absent until the next heartbeat. While it is there all subscribers of the
  listening node are linked to all endpoints of their topics at the announcing node, no matter
  when they subscribed.
\<close>

theorem network_converges:
  assumes "lan_ok l" and "net_start l s0" and "net_run l as s0 = Some s1"
    and "net_run l (Beat j # bs) s1 = Some s2"
    and "net_do l (Deliver i (length (wire s1)) now1 now2 now3 True e) s2 = Some s3"
    and "net_run l cs s3 = Some s4" and "\<And>r. Announce j r \<notin> set (bs @ cs)"
    and "i \<noteq> j" and "hears l s1 i j"
  shows "(now1 \<le> now2 \<longrightarrow> now2 \<le> now3 \<longrightarrow> now3 < now1 + 3000000000 \<longrightarrow> view s3 i j = Some (me (sites s3 ! j))) \<and>
     view s4 i j \<in> {None, Some (me (sites s4 ! j))} \<and>
     (view s4 i j \<noteq> None \<longrightarrow> (\<forall>sub \<in> set (subscribers (subs (sites s4 ! i))). \<forall>t \<in> set (topics (me (sites s4 ! j))).
        si_name t = topicName sub \<longrightarrow> socket_url t \<in> set (publisherURLs sub)))"
proof -
  have inv1: "net_inv l s1" using net_inv_run [OF assms(1) net_inv_start [OF assms(2)] assms(3)] .
  have inv3: "net_inv l s3" using net_inv_do [OF assms(1) net_inv_run [OF assms(1) inv1 assms(4)] assms(5)] .
  have inv4: "net_inv l s4" using net_inv_run [OF assms(1) inv3 assms(6)] .
  have quiet: "Announce j r \<notin> set bs" "Announce j r \<notin> set cs" for r using assms(7) by auto
  note d = heartbeat_follows [OF assms(1) inv1 assms(4,5) quiet(1) assms(8,9)]
  have u: "up_to_date s4 i j" and i: "i < length (sites s4)"
    using net_run_frame [OF assms(1) inv3 assms(6) quiet(2), of i] d(1,3,4) by simp_all
  have "linked (me (sites s4 ! j)) (subs (sites s4 ! i))" if "view s4 i j \<noteq> None"
    using that u net_invD(1) [OF inv4 i] by (auto simp: up_to_date_def view_def tidy_def)
  then have "\<forall>sub \<in> set (subscribers (subs (sites s4 ! i))). \<forall>t \<in> set (topics (me (sites s4 ! j))).
      si_name t = topicName sub \<longrightarrow> socket_url t \<in> set (publisherURLs sub)" if "view s4 i j \<noteq> None"
    using that by (fastforce simp: linked_def links_def urls_for_def)
  then show ?thesis using d(2) u unfolding up_to_date_def by blast
qed

theorem network_converges_witness:
  "\<exists>s. net_run lan_ab (acts_ab @ [Beat 1, Deliver 0 0 1 2 3 True BadAlloc]) start_ab = Some s \<and>
     view s 0 1 = Some (me (sites s ! 1)) \<and>
     (\<forall>sub \<in> set (subscribers (subs (sites s ! 0))). topicName sub = ''t'' \<longrightarrow> ''tcp://10.0.0.2:9'' \<in> set (publisherURLs sub))"
proof -
  obtain s1 s2 s3 where r: "net_run lan_ab acts_ab start_ab = Some s1" "wire s1 = []" "net_run lan_ab [Beat 1] s1 = Some s2"
    "net_do lan_ab (Deliver 0 0 1 2 3 True BadAlloc) s2 = Some s3" "hears lan_ab s1 0 1"
    and t: "topics (me (sites s3 ! 1)) = [\<lparr>si_name = ''t'', si_ip = ''10.0.0.2'', si_port = 9\<rparr>]"
    using run_ab by blast
  have run: "net_run lan_ab (acts_ab @ [Beat 1, Deliver 0 0 1 2 3 True BadAlloc]) start_ab = Some s3"
    using r by (auto simp: net_run_append simp del: net_do.simps split: bind_splits)
  have "socket_url \<lparr>si_name = ''t'', si_ip = ''10.0.0.2'', si_port = 9\<rparr> = ''tcp://10.0.0.2:9''"
    by (simp add: socket_url_def tcp_url_def dec_eval)
  moreover have "net_run lan_ab [] s3 = Some s3" by simp
  ultimately show ?thesis
    using network_converges [OF lan_ab_ok start_ab_ok r(1,3), of 0 1 2 3 BadAlloc s3 "[]" s3] r(2,4,5) t run by auto
qed

end
