(* ===== verification/Membership.thy ===== *)
theory Membership
  imports Multicast
begin

text \<open>
  How long a node stays in the registry of another: the receiver's task run after run, with the
  clock readings of its three critical sections. Time is in nanoseconds.
\<close>

section \<open>Runs of the receiver's task\<close>

text \<open>One run: the datagram with its source address, the answer to a request, the clock.\<close>

record rx =
  dgram :: "bytes \<times> string"
  answer :: "string \<Rightarrow> string \<Rightarrow> NodeInfo result"
  clock1 :: int
  clock2 :: int
  clock3 :: int

text \<open>The periodic task goes on after an exception.\<close>

fun receive_all ::
  "endian \<Rightarrow> (string \<Rightarrow> u32 option) \<Rightarrow> (int hash_map \<Rightarrow> int hash_map) \<Rightarrow> MulticastReceiver \<Rightarrow> rx list
     \<Rightarrow> 'w NodeInfoManager \<Rightarrow> 'w \<Rightarrow> 'w NodeInfoManager \<times> 'w" where
  "receive_all e aton iter r [] s w = (s, w)"
| "receive_all e aton iter r (x # xs) s w =
     (case receive_once e aton (answer x) iter (clock1 x) (clock2 x) (clock3 x) r (Some (dgram x)) s w of
        (exc, s', w') \<Rightarrow> receive_all e aton iter r xs s' w')"

text \<open>A steady clock, from \<open>t\<close> on.\<close>

fun steady :: "int \<Rightarrow> rx list \<Rightarrow> bool" where
  "steady t [] = True"
| "steady t (x # xs) = (t \<le> clock1 x \<and> clock1 x \<le> clock2 x \<and> clock2 x \<le> clock3 x \<and> steady (clock3 x) xs)"

text \<open>The datagrams the receiver of \<open>s\<close> follows up, and those among them that come from \<open>k\<close>.\<close>

definition accepts :: "endian \<Rightarrow> (string \<Rightarrow> u32 option) \<Rightarrow> MulticastReceiver \<Rightarrow> 'w NodeInfoManager \<Rightarrow> rx \<Rightarrow> bool" where
  "accepts e aton r s x \<longleftrightarrow> admitted e aton r s (fst (dgram x)) (snd (dgram x))"

definition beat_of ::
  "endian \<Rightarrow> (string \<Rightarrow> u32 option) \<Rightarrow> MulticastReceiver \<Rightarrow> 'w NodeInfoManager \<Rightarrow> string \<Rightarrow> rx \<Rightarrow> bool" where
  "beat_of e aton r s k x \<longleftrightarrow> accepts e aton r s x \<and> node_id (told (fst (dgram x))) = k"

section \<open>One run\<close>

text \<open>A heartbeat renews the time of its sender and adds at most a description of it.\<close>

lemma processHeartbeat_times:
  assumes "nim_inv s" and "processHeartbeat request now1 now2 hb ip s w = (exc, s', w')"
  shows "map_of (nodes_heartbeat s') k \<in>
       (if k = node_id hb then {Some now1, Some now2} else {map_of (nodes_heartbeat s) k})"
    and "k \<in> keys (nodes_info s) \<Longrightarrow> k \<in> keys (nodes_info s')"
    and "k \<in> keys (nodes_info s') \<Longrightarrow> k \<noteq> node_id hb \<Longrightarrow> k \<in> keys (nodes_info s)"
    and "nim_nodeID s' = nim_nodeID s" and "node_remove_event s' = node_remove_event s"
    and "node_update_event s' = node_update_event s"
proof -
  have "s' = touched now1 hb s \<or> (\<exists>d. s' = updateNodeUnlocked now2 (node_id hb) d (touched now1 hb s))"
  proof (cases "map_option infoID (map_of (nodes_info s) (node_id hb)) = Some (info_id hb)")
    case True
    then show ?thesis using assms by (simp add: processHeartbeat_current)
  next
    case False
    then show ?thesis using assms(2) unfolding processHeartbeat_stale [OF assms(1) False]
      by (auto split: sum.splits option.splits prod.splits)
  qed
  then show "map_of (nodes_heartbeat s') k \<in>
       (if k = node_id hb then {Some now1, Some now2} else {map_of (nodes_heartbeat s) k})"
    "k \<in> keys (nodes_info s) \<Longrightarrow> k \<in> keys (nodes_info s')"
    "k \<in> keys (nodes_info s') \<Longrightarrow> k \<noteq> node_id hb \<Longrightarrow> k \<in> keys (nodes_info s)"
    "nim_nodeID s' = nim_nodeID s" "node_remove_event s' = node_remove_event s" "node_update_event s' = node_update_event s"
    by (auto simp: updateNodeUnlocked_def keys_iff_lookup nim_nodeID_def split: if_splits)
qed

text \<open>Nodes that are not on the list stay, whatever the callbacks throw.\<close>

lemma evict_keeps:
  assumes "k \<notin> set nids"
  shows "map_of (nodes_info (fst (snd (evict nids s w)))) k = map_of (nodes_info s) k"
    and "map_of (nodes_heartbeat (fst (snd (evict nids s w)))) k = map_of (nodes_heartbeat s) k"
  using assms
proof (induction nids arbitrary: s w)
  case (Cons nid nids)
  {
    case 1
    then show ?case using Cons.IH(1) [of "removeNode nid s"]
      by (auto simp: evict_Cons removeNode_def split: prod.splits option.splits)
  next
    case 2
    then show ?case using Cons.IH(2) [of "removeNode nid s"]
      by (auto simp: evict_Cons removeNode_def split: prod.splits option.splits)
  }
qed simp_all

lemma evict_events:
  "node_remove_event (fst (snd (evict nids s w))) = node_remove_event s \<and>
   node_update_event (fst (snd (evict nids s w))) = node_update_event s \<and>
   nim_nodeID (fst (snd (evict nids s w))) = nim_nodeID s"
proof (induction nids arbitrary: s w)
  case (Cons nid nids)
  from Cons [of "removeNode nid s"] show ?case
    by (auto simp: evict_Cons removeNode_def nim_nodeID_def split: prod.splits option.splits)
qed simp

lemma accepts_eq: "nim_nodeID s' = nim_nodeID s \<Longrightarrow> accepts e aton r s' = accepts e aton r s"
  by (simp add: accepts_def admitted_def fun_eq_iff)

text \<open>The stages of a run that is followed up.\<close>

lemma receive_stages:
  assumes "receive_once e aton (answer x) iter (clock1 x) (clock2 x) (clock3 x) r (Some (dgram x)) s w = (exc, s', w')"
    and "accepts e aton r s x"
  obtains exc1 s1 w1 where
    "processHeartbeat (answer x) (clock1 x) (clock2 x) (told (fst (dgram x))) (snd (dgram x)) s w = (exc1, s1, w1)"
    "s' = (if exc1 = None then fst (snd (checkHeartbeats iter (clock3 x) s1 w1)) else s1)"
proof -
  obtain data ip where d: "dgram x = (data, ip)" by fastforce
  obtain exc1 s1 w1 where "processHeartbeat (answer x) (clock1 x) (clock2 x) (told data) ip s w = (exc1, s1, w1)"
    using prod_cases3 by blast
  moreover have "s' = (if exc1 = None then fst (snd (checkHeartbeats iter (clock3 x) s1 w1)) else s1)"
    using assms d calculation by (auto simp: receive_once_eq accepts_def split: option.splits prod.splits)
  ultimately show ?thesis using that d by simp
qed

lemma receive_rejected:
  "\<not> accepts e aton r s x \<Longrightarrow>
   receive_once e aton (answer x) iter (clock1 x) (clock2 x) (clock3 x) r (Some (dgram x)) s w = (None, s, w)"
  by (cases "dgram x") (simp add: receive_once_eq accepts_def)

lemma receive_own:
  assumes "nim_inv s"
    and "receive_once e aton (answer (x :: rx)) iter (clock1 x) (clock2 x) (clock3 x) r (Some (dgram x)) s w = (exc, s', w')"
  shows "nim_nodeID s' = nim_nodeID s \<and> node_remove_event s' = node_remove_event s \<and> node_update_event s' = node_update_event s"
proof (cases "accepts e aton r s x")
  case True
  from assms(2) True show ?thesis
    by (rule receive_stages) (auto simp: processHeartbeat_times(4-6) [OF assms(1)] checkHeartbeats_def evict_events)
next
  case False
  with assms(2) show ?thesis by (simp add: receive_rejected)
qed

text \<open>A node heard of less than three seconds ago stays.\<close>

lemma receive_keeps:
  assumes inv: "nim_inv s" and it: "iter_order iter"
    and c: "T \<le> clock1 x" "clock1 x \<le> clock2 x" "clock2 x \<le> clock3 x" and k: "map_of (nodes_heartbeat s) k = Some T"
    and r: "receive_once e aton (answer x) iter (clock1 x) (clock2 x) (clock3 x) r (Some (dgram x)) s w = (exc, s', w')"
    and fresh: "clock3 x < T + 3000000000 \<or> beat_of e aton r s k x \<and> clock3 x < clock1 x + 3000000000"
  shows "\<exists>T'. map_of (nodes_heartbeat s') k = Some T' \<and> T \<le> T' \<and> T' \<le> clock3 x \<and>
     (beat_of e aton r s k x \<longrightarrow> clock1 x \<le> T') \<and> (k \<in> keys (nodes_info s) \<longrightarrow> k \<in> keys (nodes_info s'))"
proof (cases "accepts e aton r s x")
  case True
  from r True obtain exc1 s1 w1 where
    p: "processHeartbeat (answer x) (clock1 x) (clock2 x) (told (fst (dgram x))) (snd (dgram x)) s w = (exc1, s1, w1)"
    and s': "s' = (if exc1 = None then fst (snd (checkHeartbeats iter (clock3 x) s1 w1)) else s1)" by (rule receive_stages)
  let ?b = "beat_of e aton r s k x"
  have b: "?b \<longleftrightarrow> k = node_id (told (fst (dgram x)))" using True by (auto simp: beat_of_def)
  obtain T' where T': "map_of (nodes_heartbeat s1) k = Some T'" "T \<le> T'" "T' \<le> clock3 x" "?b \<longrightarrow> clock1 x \<le> T'"
    using processHeartbeat_times(1) [OF inv p, of k] k c b by (cases ?b) auto
  then have "\<not> expired (clock3 x) T'" using fresh by (auto simp: expired_iff)
  moreover have "nim_inv s1" using nim_inv_processHeartbeat [OF inv] p by (metis fst_conv snd_conv)
  then have "hm_ok (nodes_heartbeat s1)" by (simp add: nim_inv_def)
  ultimately have "k \<notin> set (to_remove iter (clock3 x) s1)" using T'(1) it by (simp add: to_remove_set)
  from evict_keeps [OF this, of s1 w1]
  have "map_of (nodes_heartbeat s') k = Some T' \<and> (k \<in> keys (nodes_info s) \<longrightarrow> k \<in> keys (nodes_info s'))"
    using s' T'(1) processHeartbeat_times(2) [OF inv p, of k] by (auto simp: checkHeartbeats_def keys_iff_lookup)
  with T' show ?thesis by blast
next
  case False
  with r k c show ?thesis by (auto simp: receive_rejected beat_of_def)
qed

text \<open>No callback and no request throws anything but what the code handles.\<close>

definition calm :: "'w NodeInfoManager \<Rightarrow> rx \<Rightarrow> bool" where
  "calm s x \<longleftrightarrow> (\<forall>a w. fst (trigger (node_update_event s) a w) = None \<and> fst (trigger (node_remove_event s) a w) = None) \<and>
     (\<forall>nm url ex. answer x nm url = Inl ex \<longrightarrow> is_std_exception ex)"

lemma calm_process:
  assumes "nim_inv s" and "calm s x"
  shows "fst (processHeartbeat (answer x) now1 now2 hb ip s w) = None"
proof (cases "map_option infoID (map_of (nodes_info s) (node_id hb)) = Some (info_id hb)")
  case True
  then show ?thesis using assms(1) by (simp add: processHeartbeat_current)
next
  case False
  note stale = processHeartbeat_stale [OF assms(1) False, of "answer x" now1 now2 ip w]
  show ?thesis
  proof (cases "answer x ''get_node_info'' (tcp_url_i32 ip (service_port hb))")
    case (Inl ex)
    then have "is_std_exception ex" using assms(2) by (auto simp: calm_def)
    with Inl show ?thesis unfolding stale by (simp add: fetchNodeInfo_def)
  next
    case (Inr d)
    have "fst (trigger (node_update_event s) d w) = None" using assms(2) by (simp add: calm_def)
    with Inr show ?thesis unfolding stale
      by (cases "trigger (node_update_event s) d w") (simp add: fetchNodeInfo_def swallow_std_def)
  qed
qed

lemma calm_evict:
  assumes "\<And>a w. fst (trigger (node_remove_event s) a w) = None"
  shows "fst (evict nids s w) = None"
  using assms
proof (induction nids arbitrary: s w)
  case (Cons nid nids)
  have "fst (evict nids (removeNode nid s) w') = None" for w' using Cons by (simp add: removeNode_def)
  with Cons.prems show ?case
    by (auto simp: evict_Cons split: prod.splits option.splits) (metis fst_conv option.distinct(1))
qed simp

text \<open>A silent node is dropped by the first heartbeat of another one that comes late enough.\<close>

lemma receive_drops:
  assumes inv: "nim_inv s" and it: "iter_order iter" and calm: "calm s x"
    and c: "T0 \<le> clock3 x" and k: "\<And>T. map_of (nodes_heartbeat s) k = Some T \<Longrightarrow> T \<le> T0" and b: "\<not> beat_of e aton r s k x"
    and r: "receive_once e aton (answer x) iter (clock1 x) (clock2 x) (clock3 x) r (Some (dgram x)) s w = (exc, s', w')"
  shows "map_of (nodes_heartbeat s') k \<in> {None, map_of (nodes_heartbeat s) k}"
    and "accepts e aton r s x \<Longrightarrow> T0 + 3000000000 \<le> clock3 x \<Longrightarrow> map_of (nodes_heartbeat s') k = None"
proof -
  have "map_of (nodes_heartbeat s') k \<in> {None, map_of (nodes_heartbeat s) k} \<and>
    (T0 + 3000000000 \<le> clock3 x \<longrightarrow> map_of (nodes_heartbeat s') k = None)" if acc: "accepts e aton r s x"
  proof -
    from r acc obtain exc1 s1 w1 where
      p: "processHeartbeat (answer x) (clock1 x) (clock2 x) (told (fst (dgram x))) (snd (dgram x)) s w = (exc1, s1, w1)"
      and s': "s' = (if exc1 = None then fst (snd (checkHeartbeats iter (clock3 x) s1 w1)) else s1)" by (rule receive_stages)
    have "exc1 = None" using calm_process [OF inv calm] p by (metis fst_conv)
    moreover have h: "map_of (nodes_heartbeat s1) k = map_of (nodes_heartbeat s) k"
      using processHeartbeat_times(1) [OF inv p, of k] b acc by (auto simp: beat_of_def)
    moreover have "fst (evict nids s1 w1) = None" for nids
      using calm processHeartbeat_times(5) [OF inv p] by (intro calm_evict) (simp add: calm_def)
    note st = evict_state [OF this, of "to_remove iter (clock3 x) s1" k]
    moreover have "nim_inv s1" using nim_inv_processHeartbeat [OF inv] p by (metis fst_conv snd_conv)
    then have "hm_ok (nodes_heartbeat s1)" by (simp add: nim_inv_def)
    note rem = to_remove_set [OF it this, of "clock3 x"]
    moreover have "expired (clock3 x) T" if "map_of (nodes_heartbeat s) k = Some T" "T0 + 3000000000 \<le> clock3 x" for T
      using k [OF that(1)] that(2) c by (simp add: expired_iff)
    ultimately show ?thesis using s' by (cases "map_of (nodes_heartbeat s) k") (auto simp: checkHeartbeats_def)
  qed
  then show "accepts e aton r s x \<Longrightarrow> T0 + 3000000000 \<le> clock3 x \<Longrightarrow> map_of (nodes_heartbeat s') k = None"
    "map_of (nodes_heartbeat s') k \<in> {None, map_of (nodes_heartbeat s) k}"
    using r by (blast, cases "accepts e aton r s x") (simp_all add: receive_rejected)
qed

section \<open>Run after run\<close>

lemma steady_mono: "steady t xs \<Longrightarrow> t' \<le> t \<Longrightarrow> steady t' xs"
  by (cases xs) auto

lemma nim_inv_receive_rx:
  "nim_inv s \<Longrightarrow> receive_once e aton (answer x) iter (clock1 x) (clock2 x) (clock3 x) r (Some (dgram x)) s w = (exc, s', w') \<Longrightarrow>
   nim_inv s'"
  using nim_inv_receive_once [of s e aton "answer x" iter "clock1 x" "clock2 x" "clock3 x" r "Some (dgram x)" w] by simp

lemma heard_stays:
  assumes "nim_inv s" and "iter_order iter" and "map_of (nodes_heartbeat s) k = Some T" and "steady T xs"
    and "receive_all e aton iter r xs s w = (s', w')" and "k \<in> keys (nodes_info s)"
    and "\<forall>n < length xs. clock3 (xs ! n) < T + 3000000000 \<or>
      (\<exists>m \<le> n. beat_of e aton r s k (xs ! m) \<and> clock3 (xs ! n) < clock1 (xs ! m) + 3000000000)"
  shows "k \<in> keys (nodes_info s')"
  using assms
proof (induction xs arbitrary: s w T)
  case (Cons x xs)
  obtain exc s1 w1 where r: "receive_once e aton (answer x) iter (clock1 x) (clock2 x) (clock3 x) r (Some (dgram x)) s w = (exc, s1, w1)"
    using prod_cases3 by blast
  have "clock3 x < T + 3000000000 \<or> beat_of e aton r s k x \<and> clock3 x < clock1 x + 3000000000"
    using Cons.prems(7) by force
  with Cons.prems obtain T' where T': "map_of (nodes_heartbeat s1) k = Some T'" "T \<le> T'" "T' \<le> clock3 x"
    "beat_of e aton r s k x \<longrightarrow> clock1 x \<le> T'" "k \<in> keys (nodes_info s1)"
    using receive_keeps [OF Cons.prems(1,2) _ _ _ Cons.prems(3) r] by auto
  have b: "beat_of e aton r s1 = beat_of e aton r s"
    using receive_own [OF Cons.prems(1) r] accepts_eq [of s1 s] by (simp add: beat_of_def fun_eq_iff)
  have "clock3 (xs ! n) < T' + 3000000000 \<or> (\<exists>m \<le> n. beat_of e aton r s k (xs ! m) \<and> clock3 (xs ! n) < clock1 (xs ! m) + 3000000000)"
    if n: "n < length xs" for n
  proof -
    have "Suc n < length (x # xs)" using n by simp
    with Cons.prems(7) consider "clock3 (xs ! n) < T + 3000000000"
      | m where "m \<le> Suc n" "beat_of e aton r s k ((x # xs) ! m)" "clock3 (xs ! n) < clock1 ((x # xs) ! m) + 3000000000"
      by fastforce
    then show ?thesis
    proof cases
      case (2 m)
      then show ?thesis using T'(4) by (cases m) auto
    qed (use T'(2) in simp)
  qed
  moreover have "receive_all e aton iter r xs s1 w1 = (s', w')" using Cons.prems(5) r by simp
  moreover have "steady T' xs" using Cons.prems(4) T'(3) by (auto intro: steady_mono)
  ultimately show ?case using Cons.IH [OF nim_inv_receive_rx [OF Cons.prems(1) r] assms(2) T'(1)] T'(5) b by simp
qed simp

lemma silent_goes:
  assumes "nim_inv s" and "iter_order iter" and "\<And>T. map_of (nodes_heartbeat s) k = Some T \<Longrightarrow> T \<le> T0" and "steady T0 xs"
    and "receive_all e aton iter r xs s w = (s', w')" and "\<forall>x \<in> set xs. \<not> beat_of e aton r s k x \<and> calm s x"
    and "map_of (nodes_heartbeat s) k = None \<or> (\<exists>x \<in> set xs. accepts e aton r s x \<and> T0 + 3000000000 \<le> clock3 x)"
  shows "nim_inv s' \<and> map_of (nodes_heartbeat s') k = None"
  using assms
proof (induction xs arbitrary: s w)
  case (Cons x xs)
  obtain exc s1 w1 where r: "receive_once e aton (answer x) iter (clock1 x) (clock2 x) (clock3 x) r (Some (dgram x)) s w = (exc, s1, w1)"
    using prod_cases3 by blast
  note own = receive_own [OF Cons.prems(1) r]
  have "accepts e aton r s1 = accepts e aton r s" using own by (intro accepts_eq) simp
  moreover have "calm s1 = calm s" using own unfolding calm_def by simp
  ultimately have eq: "accepts e aton r s1 = accepts e aton r s" "calm s1 = calm s" by blast+
  then have b: "beat_of e aton r s1 = beat_of e aton r s" by (simp add: beat_of_def fun_eq_iff)
  have le: "T0 \<le> clock3 x" using Cons.prems(4) by simp
  have x: "calm s x" "\<not> beat_of e aton r s k x" using Cons.prems(6) by simp_all
  note d = receive_drops [OF Cons.prems(1,2) x(1) le Cons.prems(3) x(2) r]
  have old: "T \<le> T0" if "map_of (nodes_heartbeat s1) k = Some T" for T
    using d(1) Cons.prems(3) that by auto
  have "map_of (nodes_heartbeat s1) k = None \<or> (\<exists>x \<in> set xs. accepts e aton r s x \<and> T0 + 3000000000 \<le> clock3 x)"
  proof -
    consider "map_of (nodes_heartbeat s) k = None" | "accepts e aton r s x" "T0 + 3000000000 \<le> clock3 x"
      | "\<exists>x \<in> set xs. accepts e aton r s x \<and> T0 + 3000000000 \<le> clock3 x"
      using Cons.prems(7) by force
    then show ?thesis using d(1) d(2) by cases simp_all
  qed
  moreover have "steady T0 xs" using Cons.prems(4) le by (auto intro: steady_mono)
  moreover have "receive_all e aton iter r xs s1 w1 = (s', w')" using Cons.prems(5) r by simp
  ultimately show ?case
    using Cons.IH [OF nim_inv_receive_rx [OF Cons.prems(1) r] assms(2) old] Cons.prems(6) by (simp add: eq b)
qed auto

section \<open>Properties\<close>

text \<open>
  C18: Three seconds decide about membership. A node stays in the registry as long as at the end of
  every run of the receiver's task less than three seconds have passed since some heartbeat of
  it was accepted, so one lost heartbeat out of one a second does no harm. A node that sends
  nothing is out after the first accepted heartbeat of any other node that comes three seconds
  or more after its last one; until such a heartbeat comes it stays.
\<close>

theorem membership_timing:
  assumes "nim_inv s" and "iter_order iter" and "map_of (nodes_heartbeat s) k = Some T0" and "steady T0 xs"
    and "receive_all e aton iter r xs s w = (s', w')"
  shows "(k \<in> keys (nodes_info s) \<and>
      (\<forall>n < length xs. clock3 (xs ! n) < T0 + 3000000000 \<or>
         (\<exists>m \<le> n. beat_of e aton r s k (xs ! m) \<and> clock3 (xs ! n) < clock1 (xs ! m) + 3000000000))
      \<longrightarrow> k \<in> keys (nodes_info s')) \<and>
     ((\<forall>x \<in> set xs. \<not> beat_of e aton r s k x \<and> calm s x) \<and>
      (\<exists>x \<in> set xs. accepts e aton r s x \<and> T0 + 3000000000 \<le> clock3 x)
      \<longrightarrow> k \<notin> keys (nodes_info s') \<and> k \<notin> keys (nodes_heartbeat s')) \<and>
     ((\<forall>x \<in> set xs. \<not> accepts e aton r s x) \<longrightarrow> s' = s)"
proof (intro conjI impI)
  assume "k \<in> keys (nodes_info s) \<and> (\<forall>n < length xs. clock3 (xs ! n) < T0 + 3000000000 \<or>
      (\<exists>m \<le> n. beat_of e aton r s k (xs ! m) \<and> clock3 (xs ! n) < clock1 (xs ! m) + 3000000000))"
  then show "k \<in> keys (nodes_info s')" using heard_stays [OF assms] by blast
next
  assume h: "(\<forall>x \<in> set xs. \<not> beat_of e aton r s k x \<and> calm s x) \<and>
      (\<exists>x \<in> set xs. accepts e aton r s x \<and> T0 + 3000000000 \<le> clock3 x)"
  have T: "T \<le> T0" if "map_of (nodes_heartbeat s) k = Some T" for T using that assms(3) by simp
  from silent_goes [OF assms(1,2) T assms(4,5)] h
  have g: "nim_inv s'" "map_of (nodes_heartbeat s') k = None" by blast+
  then show "k \<notin> keys (nodes_heartbeat s')" by (simp add: keys_iff_lookup)
  then show "k \<notin> keys (nodes_info s')" using g(1) by (auto simp: nim_inv_def)
next
  assume "\<forall>x \<in> set xs. \<not> accepts e aton r s x"
  with assms(5) show "s' = s" by (induction xs) (auto simp: receive_rejected)
qed

text \<open>One node heard of at time 0 and silent since, and a heartbeat of another three seconds later.\<close>

definition registry_of_one :: "unit NodeInfoManager" where
  "registry_of_one = updateNodeUnlocked 0 ''k'' NodeInfo_default nim_example"

definition late_beat :: rx where
  "late_beat = \<lparr>dgram = (hb_layout hb_example, ''10.0.0.7''), answer = (\<lambda>_ _. Inl BadAlloc),
     clock1 = 3000000000, clock2 = 3000000000, clock3 = 3000000000\<rparr>"

lemma late_beat_accepted:
  "accepts LittleEndian (\<lambda>_. Some 0) receiver_example registry_of_one late_beat"
  "node_id (told (fst (dgram late_beat))) = replicate 36 (CHR ''a'')"
proof -
  have enc: "hb_encode BigEndian hb_example = Inr (hb_layout hb_example)"
    by (simp add: hb_encode_Inr_iff hb_valid_def hb_example_def)
  have "nim_nodeID registry_of_one = generateUUID (\<lambda>_. 0)"
    by (simp add: registry_of_one_def updateNodeUnlocked_def nim_nodeID_def nim_example_def NodeInfoManager_ctor_def)
  moreover have "CHR ''-'' \<in> set (generateUUID (\<lambda>_. 0))" by code_simp
  moreover have "CHR ''-'' \<notin> set (node_id hb_example)" by (simp add: hb_example_def)
  ultimately have "node_id hb_example \<noteq> nim_nodeID registry_of_one" by metis
  then show "accepts LittleEndian (\<lambda>_. Some 0) receiver_example registry_of_one late_beat"
    by (simp add: accepts_def late_beat_def admitted_heartbeat [OF enc] isInSameSubnet_def receiver_example_def MulticastReceiver_ctor_def)
      (simp add: hb_example_def)
  show "node_id (told (fst (dgram late_beat))) = replicate 36 (CHR ''a'')"
    using hb_parse_take_layout [of hb_example] enc
    by (simp add: late_beat_def hb_encode_Inr_iff) (simp add: hb_example_def)
qed

theorem membership_timing_witness:
  "''k'' \<in> keys (nodes_info registry_of_one) \<and>
   ''k'' \<notin> keys (nodes_info (fst (receive_all LittleEndian (\<lambda>_. Some 0) rev receiver_example [late_beat] registry_of_one ())))"
proof -
  obtain s' w' where run: "receive_all LittleEndian (\<lambda>_. Some 0) rev receiver_example [late_beat] registry_of_one () = (s', w')"
    by (rule prod.exhaust)
  have inv: "nim_inv registry_of_one"
    unfolding registry_of_one_def nim_example_def by (intro nim_inv_updateNode nim_inv_ctor)
  have k: "map_of (nodes_heartbeat registry_of_one) ''k'' = Some 0" "''k'' \<in> keys (nodes_info registry_of_one)"
    by (simp_all add: registry_of_one_def updateNodeUnlocked_def keys_iff_lookup)
  have "\<not> beat_of LittleEndian (\<lambda>_. Some 0) receiver_example registry_of_one ''k'' late_beat"
    using late_beat_accepted(2) by (auto simp: beat_of_def dest: arg_cong [where f = length])
  moreover have "calm registry_of_one late_beat"
    by (simp add: calm_def late_beat_def registry_of_one_def updateNodeUnlocked_def nim_example_def NodeInfoManager_ctor_def)
  moreover have "steady 0 [late_beat]" "0 + 3000000000 \<le> clock3 late_beat" by (simp_all add: late_beat_def)
  ultimately show ?thesis
    using membership_timing [OF inv iter_order_rev k(1) _ run] late_beat_accepted(1) k(2) run by simp
qed

end
