(* ===== verification/Hash_Order.thy ===== *)
theory Hash_Order
  imports Network
begin

text \<open>
  The registry visits its hash maps in an order that depends on the platform. What a node does
  is the same for every order: which nodes are evicted, what its subscribers are linked to
  afterwards, which endpoints a new subscriber gets, up to their order, and whether a service is
  found. Which of several providers of a service is chosen depends on it; one alone is found at
  the same place.
\<close>

section \<open>Removals commute\<close>

lemma fold_remove1_mset:
  assumes "mset xs = mset ys"
  shows "fold remove1 xs us = fold remove1 ys us"
proof -
  have "fold remove1 xs = fold remove1 ys"
    using assms by (intro fold_multiset_equiv) (auto simp: fun_eq_iff remove1_commute)
  then show ?thesis by simp
qed

lemma link_remove_fold: "link_remove i l = (fst l, fold remove1 (urls_for (fst l) i) (snd l))"
  by (simp add: link_remove_def foldl_conv_fold)

lemma link_remove_commute: "link_remove i \<circ> link_remove j = link_remove j \<circ> link_remove i"
proof -
  have "fold remove1 (urls_for nm i) (fold remove1 (urls_for nm j) us) =
      fold remove1 (urls_for nm j) (fold remove1 (urls_for nm i) us)" for nm us
    using fold_remove1_mset [of "urls_for nm j @ urls_for nm i" "urls_for nm i @ urls_for nm j" us] by simp
  then show ?thesis by (simp add: fun_eq_iff link_remove_fold)
qed

text \<open>The links after a list of remove events.\<close>

lemma links_trigger_all:
  "fst (trigger_all (subscribe (removeTopicSubscriber quiet) event_empty) infos w) = None \<and>
   links (snd (trigger_all (subscribe (removeTopicSubscriber quiet) event_empty) infos w)) =
     fold (\<lambda>i. map (link_remove i)) infos (links w)"
proof (induction infos arbitrary: w)
  case (Cons i infos)
  obtain w' where r: "removeTopicSubscriber quiet i w = (None, w')"
    using callbacks_quiet(1) [of i w] by (cases "removeTopicSubscriber quiet i w") simp
  moreover have "links w' = map (link_remove i) (links w)"
    using links_remove [of quiet i w] r by simp
  ultimately show ?case using Cons [of w'] by simp
qed simp

lemma to_remove_mset:
  assumes "iter_order iter"
  shows "mset (to_remove iter now s) = mset (to_remove (\<lambda>m. m) now s)"
  using assms by (simp add: to_remove_def iter_order_def)

text \<open>An eviction, compared with the one that visits the entries as they are stored.\<close>

lemma eviction_order:
  assumes "iter_order iter" and inv: "nim_inv s"
    and ev: "node_remove_event s = subscribe (removeTopicSubscriber quiet) event_empty"
  shows "case checkHeartbeats iter now s w of (exc, s1, w1) \<Rightarrow>
     case checkHeartbeats (\<lambda>m. m) now s w of (exc', s2, w2) \<Rightarrow>
       exc = None \<and> exc' = None \<and> map_of (nodes_info s1) = map_of (nodes_info s2) \<and>
       map_of (nodes_info_id s1) = map_of (nodes_info_id s2) \<and>
       map_of (nodes_heartbeat s1) = map_of (nodes_heartbeat s2) \<and> links w1 = links w2"
proof -
  let ?xs = "to_remove iter now s" and ?ys = "to_remove (\<lambda>m. m) now s"
  have "hm_ok (nodes_heartbeat s)" using inv by (simp add: nim_inv_def)
  then have d: "distinct ?xs" "distinct ?ys" using assms(1) by (auto intro: to_remove_distinct)
  have m: "mset ?xs = mset ?ys" using assms(1) by (rule to_remove_mset)
  then have st: "set ?xs = set ?ys" by (rule mset_eq_setD)
  note w1 = evict_world [OF d(1), of s w, unfolded ev] and w2 = evict_world [OF d(2), of s w, unfolded ev]
  have ok: "fst (evict ?xs s w) = None" "fst (evict ?ys s w) = None" using w1 w2 links_trigger_all by metis+
  have "fold (\<lambda>i. map (link_remove i)) (map (info_or_default s) ?xs) =
      fold (\<lambda>i. map (link_remove i)) (map (info_or_default s) ?ys)"
  proof (rule fold_multiset_equiv)
    show "mset (map (info_or_default s) ?xs) = mset (map (info_or_default s) ?ys)" using m by simp
  qed (simp add: fun_eq_iff link_remove_commute flip: map_map comp_apply [of "map _" "map _"])
  then have "links (snd (snd (evict ?xs s w))) = links (snd (snd (evict ?ys s w)))"
    using w1 w2 links_trigger_all by metis
  moreover note evict_state [OF ok(1)] evict_state [OF ok(2)]
  ultimately show ?thesis using ok st unfolding checkHeartbeats_def by (auto simp: fun_eq_iff split: prod.splits)
qed

section \<open>Lookups\<close>

definition provides :: "'w NodeInfoManager \<Rightarrow> string \<Rightarrow> string \<Rightarrow> bool" where
  "provides s nm k \<longleftrightarrow> (\<exists>n. map_of (nodes_info s) k = Some n \<and> nm \<in> si_name ` set (services n))"

lemma find_service_choice:
  "find_service nm ns = Some p \<Longrightarrow> \<exists>k n i. (k, n) \<in> set ns \<and> find_socket nm (services n) = Some i \<and> p = RemoteSocket k i"
  by (induction nm ns rule: find_service.induct) (auto split: option.splits)

text \<open>A lookup that finds a remote service finds the first socket of that name of a provider.\<close>

lemma getServiceInfo_choice:
  assumes "iter_order iter" and "hm_ok (nodes_info s)" and "find_service nm (iter (nodes_info s)) = Some p"
  shows "\<exists>k n i. provides s nm k \<and> map_of (nodes_info s) k = Some n \<and> find_socket nm (services n) = Some i \<and> p = RemoteSocket k i"
proof -
  obtain k n i where k: "(k, n) \<in> set (nodes_info s)" "find_socket nm (services n) = Some i" "p = RemoteSocket k i"
    using find_service_choice [OF assms(3)] by (auto simp: iter_order_set [OF assms(1)])
  moreover have "map_of (nodes_info s) k = Some n" using k(1) hm_ok_lookup [OF assms(2)] by simp
  moreover have "nm \<in> si_name ` set (services n)" using k(2) find_socket_None [of nm "services n"] by force
  ultimately show ?thesis by (auto simp: provides_def)
qed

lemma unique_provider:
  assumes "iter_order iter" and "iter_order iter'" and "hm_ok (nodes_info s)"
    and one: "\<And>k k'. provides s nm k \<Longrightarrow> provides s nm k' \<Longrightarrow> k = k'"
  shows "getServiceInfo iter nm s = getServiceInfo iter' nm s"
proof -
  let ?f = "find_service nm (iter (nodes_info s))" and ?g = "find_service nm (iter' (nodes_info s))"
  have n: "?f = None \<longleftrightarrow> ?g = None"
    by (simp add: find_service_None iter_order_set [OF assms(1)] iter_order_set [OF assms(2)])
  have "?f = ?g"
  proof (cases ?f)
    case (Some p)
    then obtain q where q: "?g = Some q" using n by auto
    from getServiceInfo_choice [OF assms(1,3) Some] getServiceInfo_choice [OF assms(2,3) q] one
    have "p = q" by (metis option.inject)
    with Some q show ?thesis by simp
  qed (use n in simp)
  then show ?thesis by (simp add: getServiceInfo_def)
qed

section \<open>Properties\<close>

text \<open>
  C23: What a node does depends on the order in which the hash maps are visited only in the order
  of its connections and in the choice between several providers. For any two orders a round of
  evictions leaves the same nodes, versions and times and links every subscriber to the same
  endpoints in the same order; a subscription finds the same endpoints, equally often, in some
  order; a service is found under one order exactly when it is found under the other, and at the
  same place when at most one other node offers it.
\<close>

theorem hash_order_irrelevant:
  assumes "iter_order iter" and "iter_order iter'" and "iter_order jter" and "iter_order jter'" and "nim_inv s"
    and "node_remove_event s = subscribe (removeTopicSubscriber quiet) event_empty"
  shows "(case checkHeartbeats iter now s w of (exc, s1, w1) \<Rightarrow>
      case checkHeartbeats iter' now s w of (exc', s2, w2) \<Rightarrow>
        exc = exc' \<and> map_of (nodes_info s1) = map_of (nodes_info s2) \<and>
        map_of (nodes_info_id s1) = map_of (nodes_info_id s2) \<and>
        map_of (nodes_heartbeat s1) = map_of (nodes_heartbeat s2) \<and> links w1 = links w2) \<and>
     mset (findTopicURLs jter s topic) = mset (findTopicURLs jter' s topic) \<and>
     (getServiceInfo jter nm s = None \<longleftrightarrow> getServiceInfo jter' nm s = None) \<and>
     ((\<forall>k k'. provides s nm k \<and> provides s nm k' \<longrightarrow> k = k') \<longrightarrow> getServiceInfo jter nm s = getServiceInfo jter' nm s)"
proof -
  have "mset (findTopicURLs jter s topic) = mset (findTopicURLs jter' s topic)"
    using getPublisherInfo_mset [OF assms(3), of topic s] getPublisherInfo_mset [OF assms(4), of topic s]
    by (simp add: findTopicURLs_def)
  moreover have hm: "hm_ok (nodes_info s)" using assms(5) by (simp add: nim_inv_def)
  then have "getServiceInfo jter nm s = None \<longleftrightarrow> getServiceInfo jter' nm s = None"
    by (simp add: getServiceInfo_None [OF assms(3)] getServiceInfo_None [OF assms(4)])
  moreover have "(\<forall>k k'. provides s nm k \<and> provides s nm k' \<longrightarrow> k = k') \<longrightarrow> getServiceInfo jter nm s = getServiceInfo jter' nm s"
    using unique_provider [OF assms(3,4) hm] by blast
  ultimately show ?thesis
    using eviction_order [OF assms(1,5,6), of now w] eviction_order [OF assms(2,5,6), of now w]
    by (simp add: case_prod_unfold)
qed

theorem hash_order_irrelevant_witness:
  "map_of (nodes_info (fst (snd (checkHeartbeats rev 5000000000 (updateNodeUnlocked 0 ''k'' node_example node_A) sm_example)))) =
   map_of (nodes_info (fst (snd (checkHeartbeats (\<lambda>m. m) 5000000000 (updateNodeUnlocked 0 ''k'' node_example node_A) sm_example))))"
proof -
  let ?s = "updateNodeUnlocked 0 ''k'' node_example node_A"
  have "nim_inv ?s" using nodes_AB(1) by (rule nim_inv_updateNode)
  moreover have "node_remove_event ?s = subscribe (removeTopicSubscriber quiet) event_empty"
    by (simp add: updateNodeUnlocked_def node_A_def SubscriberManager_ctor_def NodeInfoManager_ctor_def)
  ultimately show ?thesis
    using hash_order_irrelevant [OF iter_order_rev iter_order_id iter_order_rev iter_order_id, of ?s 5000000000 sm_example "''t''" "''t''"]
    by (simp add: case_prod_unfold)
qed

end
