(* ===== verification/Pubsub.thy ===== *)
theory Pubsub
  imports Examples Link_Interleaving "HOL-Library.Sublist"
begin

text \<open>
  Topics from one end to the other: the frames a publisher sends, the queue of every SUB socket,
  the polling passes of \<^verbatim>\<open>SubscriberManager\<close> one after the other, and the calls of the
  callbacks. ZeroMQ may lose frames on their way to a queue but neither changes nor reorders
  the frames of one publisher. At the end the two example programs that follow a topic of their own.
\<close>

section \<open>Queues and passes\<close>

text \<open>The subscribers with the frames that wait at their sockets.\<close>

type_synonym 'u inbox = "('u Subscriber \<times> bytes list) list"

fun answer_of :: "bytes list \<Rightarrow> recv_result" where
  "answer_of [] = NotReady"
| "answer_of (b # q) = Received b"

text \<open>
  The loop of \<^verbatim>\<open>pollOnce\<close> over the subscribers, from number \<open>i\<close> on: the frames handed to
  callbacks, with the number of the subscriber, the exception, what still waits. After an
  exception the sockets that follow are not read.
\<close>

fun drain :: "nat \<Rightarrow> 'u inbox \<Rightarrow> 'u \<Rightarrow> (nat \<times> bytes) list \<times> exn option \<times> 'u inbox \<times> 'u" where
  "drain i [] u = ([], None, [], u)"
| "drain i ((sub, []) # ps) u =
     (case drain (Suc i) ps u of (tr, exc, ps', u') \<Rightarrow> (tr, exc, (sub, []) # ps', u'))"
| "drain i ((sub, b # q) # ps) u =
     (case sub_callback sub (view_of b) u of
        (Some e, u') \<Rightarrow> ([(i, b)], Some e, (sub, q) # ps, u')
      | (None, u') \<Rightarrow>
          (case drain (Suc i) ps u' of (tr, exc, ps', u'') \<Rightarrow> ((i, b) # tr, exc, (sub, q) # ps', u'')))"

text \<open>A pass; \<open>poll_exc\<close> is what \<^verbatim>\<open>zmq::poll\<close> throws.\<close>

definition poll_pass :: "exn option \<Rightarrow> 'u inbox \<Rightarrow> 'u \<Rightarrow> (nat \<times> bytes) list \<times> exn option \<times> 'u inbox \<times> 'u" where
  "poll_pass poll_exc ps u =
     (case poll_exc of
        Some e \<Rightarrow> ([], swallow_std (Some e), ps, u)
      | None \<Rightarrow> (case drain 0 ps u of (tr, exc, ps', u') \<Rightarrow> (tr, swallow_std exc, ps', u')))"

text \<open>Pass after pass: before each of them frames arrive, \<open>f i\<close> at subscriber \<open>i\<close>.\<close>

definition arrive :: "(nat \<Rightarrow> bytes list) \<Rightarrow> 'u inbox \<Rightarrow> 'u inbox" where
  "arrive f ps = map (\<lambda>i. (fst (ps ! i), snd (ps ! i) @ f i)) [0 ..< length ps]"

fun poll_run :: "(exn option \<times> (nat \<Rightarrow> bytes list)) list \<Rightarrow> 'u inbox \<Rightarrow> 'u \<Rightarrow> (nat \<times> bytes) list \<times> 'u inbox \<times> 'u" where
  "poll_run [] ps u = ([], ps, u)"
| "poll_run ((poll_exc, f) # xs) ps u =
     (case poll_pass poll_exc (arrive f ps) u of
        (tr, Some e, ps', u') \<Rightarrow> (tr, ps', u')
      | (tr, None, ps', u') \<Rightarrow> (case poll_run xs ps' u' of (tr', ps'', u'') \<Rightarrow> (tr @ tr', ps'', u'')))"

text \<open>This is \<^verbatim>\<open>pollOnce\<close> on sockets that answer from their queues.\<close>

lemma drain_dispatch:
  "dispatch (map (\<lambda>(sub, q). (sub, answer_of q)) ps) u = (fst (snd (drain i ps u)), snd (snd (snd (drain i ps u))))"
  by (induction i ps u rule: drain.induct) (auto split: prod.splits option.splits)

lemma poll_pass_pollOnce:
  assumes "subscribers m = map fst ps"
  shows "sm_pollOnce poll_exc (map (answer_of \<circ> snd) ps) m u =
     (fst (snd (poll_pass poll_exc ps u)), snd (snd (snd (poll_pass poll_exc ps u))))"
proof -
  have z: "zip (subscribers m) (map (answer_of \<circ> snd) ps) = map (\<lambda>(sub, q). (sub, answer_of q)) ps"
    by (simp add: assms zip_map_map zip_same_conv_map case_prod_unfold)
  show ?thesis
    using drain_dispatch [of ps u 0] by (cases poll_exc) (auto simp: sm_pollOnce_def poll_pass_def z split: prod.splits)
qed

section \<open>What a run does\<close>

definition handled :: "nat \<Rightarrow> (nat \<times> bytes) list \<Rightarrow> bytes list" where
  "handled i tr = map snd (filter (\<lambda>p. fst p = i) tr)"

definition waiting :: "'u inbox \<Rightarrow> nat" where
  "waiting ps = sum_list (map (length \<circ> snd) ps)"

text \<open>The effect of the callbacks of a trace.\<close>

definition effect :: "'u Subscriber list \<Rightarrow> (nat \<times> bytes) list \<Rightarrow> 'u \<Rightarrow> 'u" where
  "effect ss tr = fold (\<lambda>(i, b) u. snd (sub_callback (ss ! i) (view_of b) u)) tr"

definition standard :: "'u inbox \<Rightarrow> bool" where
  "standard ps \<longleftrightarrow> (\<forall>sub \<in> set (map fst ps). \<forall>v u e. fst (sub_callback sub v u) = Some e \<longrightarrow> is_std_exception e)"

lemma handled_simps [simp]:
  "handled i [] = []" "handled i (p # tr) = (if fst p = i then snd p # handled i tr else handled i tr)"
  "handled i (tr @ tr') = handled i tr @ handled i tr'"
  by (simp_all add: handled_def)

lemma effect_append: "effect ss (tr @ tr') u = effect ss tr' (effect ss tr u)"
  by (simp add: effect_def)

lemma drain_facts:
  "drain i ps u = (tr, exc, ps', u') \<Longrightarrow> i = length ss \<Longrightarrow>
   map fst ps' = map fst ps \<and> (\<forall>j < length ps. handled (i + j) tr @ snd (ps' ! j) = snd (ps ! j)) \<and>
   (\<forall>p \<in> set tr. i \<le> fst p) \<and> u' = effect (ss @ map fst ps) tr u \<and> length tr + waiting ps' = waiting ps \<and>
   (waiting ps \<noteq> 0 \<longrightarrow> tr \<noteq> []) \<and> (\<forall>e. exc = Some e \<and> standard ps \<longrightarrow> is_std_exception e)"
proof (induction i ps u arbitrary: ss tr exc ps' u' rule: drain.induct)
  case (1 i u)
  then show ?case by (simp add: effect_def waiting_def)
next
  case (2 i sub ps u)
  obtain ps1 where d: "drain (Suc i) ps u = (tr, exc, ps1, u')" and ps': "ps' = (sub, []) # ps1"
    using 2(2) by (auto split: prod.splits)
  have IH: "map fst ps1 = map fst ps" "\<forall>j < length ps. handled (Suc i + j) tr @ snd (ps1 ! j) = snd (ps ! j)"
    "\<forall>p \<in> set tr. Suc i \<le> fst p" "u' = effect (ss @ sub # map fst ps) tr u" "length tr + waiting ps1 = waiting ps"
    "waiting ps \<noteq> 0 \<longrightarrow> tr \<noteq> []" "\<forall>e. exc = Some e \<and> standard ps \<longrightarrow> is_std_exception e"
    using 2(1) [OF d, of "ss @ [sub]"] 2(3) by simp_all
  have "handled i tr = []" using IH(3) by (fastforce simp: handled_def filter_empty_conv)
  then have "handled (i + j) tr @ snd (ps' ! j) = snd (((sub, []) # ps) ! j)" if "j < length ((sub, []) # ps)" for j
    using that IH(2) ps' by (cases j) auto
  with IH ps' show ?case by (auto simp: waiting_def standard_def)
next
  case (3 i sub b q ps u)
  obtain x u1 where c: "sub_callback sub (view_of b) u = (x, u1)" by fastforce
  show ?case
  proof (cases x)
    case (Some e)
    then have tr: "tr = [(i, b)]" "exc = Some e" "ps' = (sub, q) # ps" "u' = u1" using 3(2) c by auto
    moreover have "(handled (i + j) tr @ snd (ps' ! j) = snd (((sub, b # q) # ps) ! j))" for j
      using tr by (cases j) auto
    moreover have "is_std_exception e" if "standard ((sub, b # q) # ps)"
      using that c Some unfolding standard_def by (metis fst_conv list.set_intros(1) list.simps(9))
    ultimately show ?thesis using c 3(3) by (simp add: effect_def waiting_def)
  next
    case None
    obtain tr1 ps1 where d: "drain (Suc i) ps u1 = (tr1, exc, ps1, u')" and r: "ps' = (sub, q) # ps1" "tr = (i, b) # tr1"
      using 3(2) c None by (auto split: prod.splits)
    have IH: "map fst ps1 = map fst ps" "\<forall>j < length ps. handled (Suc i + j) tr1 @ snd (ps1 ! j) = snd (ps ! j)"
      "\<forall>p \<in> set tr1. Suc i \<le> fst p" "u' = effect (ss @ sub # map fst ps) tr1 u1" "length tr1 + waiting ps1 = waiting ps"
      "\<forall>e. exc = Some e \<and> standard ps \<longrightarrow> is_std_exception e"
      using 3(1) [OF c [symmetric] None d, of "ss @ [sub]"] 3(3) by simp_all
    have "handled i tr1 = []" using IH(3) by (fastforce simp: handled_def filter_empty_conv)
    then have "handled (i + j) tr @ snd (ps' ! j) = snd (((sub, b # q) # ps) ! j)" if "j < length ((sub, b # q) # ps)" for j
      using that IH(2) r by (cases j) auto
    moreover have "u' = effect (ss @ map fst ((sub, b # q) # ps)) tr u"
      using IH(4) r(2) c 3(3) by (simp add: effect_def)
    ultimately show ?thesis using IH r by (auto simp: waiting_def standard_def)
  qed
qed

lemma arrive_simps [simp]:
  "map fst (arrive f ps) = map fst ps" "length (arrive f ps) = length ps"
  "j < length ps \<Longrightarrow> snd (arrive f ps ! j) = snd (ps ! j) @ f j"
  by (auto simp: arrive_def intro: nth_equalityI)

lemma arrive_nothing [simp]: "arrive (\<lambda>_. []) ps = ps"
  by (auto simp: arrive_def intro: nth_equalityI)

lemma standard_cong: "map fst ps' = map fst ps \<Longrightarrow> standard ps' \<longleftrightarrow> standard ps"
  by (simp add: standard_def del: set_map)

text \<open>Polling throws standard exceptions only.\<close>

definition polls_ok :: "exn option list \<Rightarrow> bool" where
  "polls_ok xs \<longleftrightarrow> (\<forall>e. Some e \<in> set xs \<longrightarrow> is_std_exception e)"

lemma poll_pass_facts:
  assumes "poll_pass x ps u = (tr, exc, ps', u')" and "standard ps" and "polls_ok [x]"
  shows "exc = None" and "map fst ps' = map fst ps"
    and "\<And>j. j < length ps \<Longrightarrow> handled j tr @ snd (ps' ! j) = snd (ps ! j)"
    and "u' = effect (map fst ps) tr u" and "waiting ps' \<le> waiting ps"
    and "x = None \<Longrightarrow> waiting ps' \<le> waiting ps - 1"
proof -
  have "exc = None \<and> map fst ps' = map fst ps \<and> (\<forall>j < length ps. handled j tr @ snd (ps' ! j) = snd (ps ! j)) \<and>
    u' = effect (map fst ps) tr u \<and> waiting ps' \<le> waiting ps \<and> (x = None \<longrightarrow> waiting ps' \<le> waiting ps - 1)"
  proof (cases x)
    case (Some e)
    with assms show ?thesis by (auto simp: poll_pass_def swallow_std_def polls_ok_def effect_def)
  next
    case None
    then obtain exc1 where d: "drain 0 ps u = (tr, exc1, ps', u')" and e: "exc = swallow_std exc1"
      using assms(1) by (auto simp: poll_pass_def split: prod.splits)
    note f = drain_facts [OF d, of "[]"]
    have "exc = None" using f assms(2) e by (cases exc1) (auto simp: swallow_std_def)
    moreover have "length tr \<ge> 1 \<or> waiting ps = 0" using f by (cases tr) auto
    ultimately show ?thesis using f by auto
  qed
  then show "exc = None" "map fst ps' = map fst ps" "\<And>j. j < length ps \<Longrightarrow> handled j tr @ snd (ps' ! j) = snd (ps ! j)"
    "u' = effect (map fst ps) tr u" "waiting ps' \<le> waiting ps" "x = None \<Longrightarrow> waiting ps' \<le> waiting ps - 1" by blast+
qed

definition arrivals :: "nat \<Rightarrow> (exn option \<times> (nat \<Rightarrow> bytes list)) list \<Rightarrow> bytes list" where
  "arrivals i xs = concat (map (\<lambda>x. snd x i) xs)"

text \<open>Every frame is handed over once and in order, or still waits; the callbacks are all that happens.\<close>

lemma poll_run_facts:
  "poll_run xs ps u = (tr, ps', u') \<Longrightarrow> standard ps \<Longrightarrow> polls_ok (map fst xs) \<Longrightarrow>
   map fst ps' = map fst ps \<and> (\<forall>j < length ps. handled j tr @ snd (ps' ! j) = snd (ps ! j) @ arrivals j xs) \<and>
   u' = effect (map fst ps) tr u"
proof (induction xs arbitrary: ps u tr)
  case Nil
  then show ?case by (simp add: arrivals_def effect_def)
next
  case (Cons x xs)
  obtain pe f where x: "x = (pe, f)" by fastforce
  obtain tr1 exc ps1 u1 where p: "poll_pass pe (arrive f ps) u = (tr1, exc, ps1, u1)" using prod_cases4 by blast
  have st: "standard (arrive f ps)" "polls_ok [pe]" "polls_ok (map fst xs)"
    using Cons.prems(2,3) standard_cong [of "arrive f ps" ps] by (auto simp: polls_ok_def x)
  note h = poll_pass_facts [OF p st(1,2)]
  obtain tr2 where r: "poll_run xs ps1 u1 = (tr2, ps', u')" "tr = tr1 @ tr2"
    using Cons.prems(1) p h(1) by (auto simp: x split: prod.splits)
  have m: "map fst ps1 = map fst ps" using h(2) by simp
  then have len: "length ps1 = length ps" by (metis length_map)
  have "standard ps1" using m Cons.prems(2) standard_cong by blast
  note IH = Cons.IH [OF r(1) this st(3)]
  have "handled j tr @ snd (ps' ! j) = snd (ps ! j) @ arrivals j (x # xs)" if "j < length ps" for j
  proof -
    have "handled j tr2 @ snd (ps' ! j) = snd (ps1 ! j) @ arrivals j xs" using IH that len by simp
    moreover have "handled j tr1 @ snd (ps1 ! j) = snd (ps ! j) @ f j" using h(3) [of j] that by simp
    ultimately show ?thesis using r(2) x by (simp add: arrivals_def)
  qed
  with IH m h(4) r(2) show ?case by (simp add: effect_append)
qed

text \<open>As many successful passes as frames wait empty all queues.\<close>

lemma poll_run_empties:
  "poll_run (map (\<lambda>x. (x, \<lambda>_. [])) zs) ps u = (tr, ps', u') \<Longrightarrow> standard ps \<Longrightarrow> polls_ok zs \<Longrightarrow>
   waiting ps \<le> count_list zs None \<Longrightarrow> waiting ps' = 0"
proof (induction zs arbitrary: ps u tr)
  case (Cons z zs)
  obtain tr1 exc ps1 u1 where p: "poll_pass z ps u = (tr1, exc, ps1, u1)" using prod_cases4 by blast
  have st: "polls_ok [z]" "polls_ok zs" using Cons.prems(3) by (auto simp: polls_ok_def)
  note h = poll_pass_facts [OF p Cons.prems(2) st(1)]
  obtain tr2 where r: "poll_run (map (\<lambda>x. (x, \<lambda>_. [])) zs) ps1 u1 = (tr2, ps', u')"
    using Cons.prems(1) p h(1) by (auto split: prod.splits)
  have "standard ps1" using h(2) Cons.prems(2) standard_cong by blast
  moreover have "waiting ps1 \<le> count_list zs None" using h(5,6) Cons.prems(4) by (cases z) auto
  ultimately show ?case using Cons.IH [OF r] st(2) by simp
qed simp

lemma waiting_0: "waiting ps = 0 \<Longrightarrow> i < length ps \<Longrightarrow> snd (ps ! i) = []"
  by (auto simp: waiting_def)

section \<open>From publisher to callback\<close>

lemma publish_all_encodes:
  assumes "serializer enc dec ok" and "\<forall>msg \<in> set ms. ok msg"
  shows "\<exists>bs. list_all2 (\<lambda>msg b. dec (view_of b) d = Inr msg) ms bs \<and>
     publish_all enc ms pub = (None, pub\<lparr>pub_sent := pub_sent pub @ bs\<rparr>)"
  using assms(2)
proof (induction ms arbitrary: pub)
  case (Cons m ms)
  then obtain b where b: "enc m = Inr b" "dec (view_of b) d = Inr m"
    using serializer.enc_dec [OF assms(1), of m d] by auto
  from Cons.prems have "\<forall>msg \<in> set ms. ok msg" by simp
  from Cons.IH [OF this, of "pub\<lparr>pub_sent := pub_sent pub @ [b]\<rparr>"] obtain bs where
    "list_all2 (\<lambda>msg b. dec (view_of b) d = Inr msg) ms bs"
    "publish_all enc ms (pub\<lparr>pub_sent := pub_sent pub @ [b]\<rparr>) = (None, pub\<lparr>pub_sent := pub_sent pub @ b # bs\<rparr>)"
    by auto
  with b show ?case by (intro exI [of _ "b # bs"]) (simp add: publish_def)
qed simp

lemma subseq_related:
  "subseq fs bs \<Longrightarrow> list_all2 P ms bs \<Longrightarrow> \<exists>ms'. subseq ms' ms \<and> list_all2 P ms' fs"
proof (induction arbitrary: ms rule: list_emb.induct)
  case (list_emb_Nil ys)
  then show ?case by (intro exI [of _ "[]"]) simp
next
  case (list_emb_Cons xs ys y)
  then obtain m ms1 where m: "ms = m # ms1" "list_all2 P ms1 ys" by (auto simp: list_all2_Cons2)
  obtain ms' where "subseq ms' ms1" "list_all2 P ms' xs" using list_emb_Cons.IH [OF m(2)] by blast
  with m(1) show ?case by (auto intro: list_emb.list_emb_Cons)
next
  case (list_emb_Cons2 x y xs ys)
  then obtain m ms1 where m: "ms = m # ms1" "P m y" "list_all2 P ms1 ys" by (auto simp: list_all2_Cons2)
  obtain ms' where "subseq ms' ms1" "list_all2 P ms' xs" using list_emb_Cons2.IH [OF m(3)] by blast
  with m list_emb_Cons2.hyps show ?case by (intro exI [of _ "m # ms'"]) simp
qed

lemma typed_calls:
  "list_all2 (\<lambda>msg b. dec (view_of b) d = Inr msg) ms fs \<Longrightarrow>
   map (\<lambda>b. typed_callback (\<lambda>v. dec v d) cb (view_of b)) fs = map cb ms"
  by (induction rule: list_all2_induct) (auto simp: typed_callback_def fun_eq_iff)

text \<open>
  C5: Publishing end to end: whatever frames ZeroMQ loses between a publisher and a queue, and
  whatever standard exceptions polling, decoding and the callbacks of this or other subscribers
  throw, a callback is called with published messages only, each at most once and in the order
  they were published; with all of them when no frame is lost. Nothing but the callbacks changes
  the program's state, and as many further passes as frames wait leave no queue with anything in
  it: an exception in one subscriber's callback only puts the others off.
\<close>

theorem pubsub_end_to_end:
  assumes "serializer enc dec ok" and "\<forall>msg \<in> set ms. ok msg" and "pub_sent pub = []"
    and "i < length ps" and "sub_callback (fst (ps ! i)) = typed_callback (\<lambda>v. dec v d) cb"
    and "subseq (snd (ps ! i) @ arrivals i xs) (pub_sent (snd (publish_all enc ms pub)))"
    and "standard ps" and "polls_ok (map fst xs)" and "poll_run xs ps u = (tr, ps', u')"
  shows "(\<exists>ms'. subseq ms' ms \<and>
        map (\<lambda>b. sub_callback (fst (ps ! i)) (view_of b)) (handled i tr) = map cb ms' \<and>
        (snd (ps ! i) @ arrivals i xs = pub_sent (snd (publish_all enc ms pub)) \<and> snd (ps' ! i) = [] \<longrightarrow> ms' = ms)) \<and>
     u' = effect (map fst ps) tr u \<and>
     (\<forall>zs tr2 ps2 u2. polls_ok zs \<and> waiting ps' \<le> count_list zs None \<and>
        poll_run (map (\<lambda>x. (x, \<lambda>_. [])) zs) ps' u' = (tr2, ps2, u2) \<longrightarrow> waiting ps2 = 0)"
proof -
  note f = poll_run_facts [OF assms(9,7,8)]
  have h: "handled i tr @ snd (ps' ! i) = snd (ps ! i) @ arrivals i xs" using f assms(4) by blast
  obtain bs where bs: "list_all2 (\<lambda>msg b. dec (view_of b) d = Inr msg) ms bs"
    "pub_sent (snd (publish_all enc ms pub)) = bs"
    using publish_all_encodes [OF assms(1,2), of d pub] assms(3) by auto
  have "subseq (handled i tr) bs"
    using assms(6) bs(2) h by (metis subseq_order.trans subseq_append_le_same_iff list_emb_prefix subseq_order.refl)
  then obtain ms1 where ms1: "subseq ms1 ms" "list_all2 (\<lambda>msg b. dec (view_of b) d = Inr msg) ms1 (handled i tr)"
    using subseq_related [where P = "\<lambda>msg b. dec (view_of b) d = Inr msg", OF _ bs(1)] by blast
  let ?ms = "if handled i tr = bs then ms else ms1"
  have "list_all2 (\<lambda>msg b. dec (view_of b) d = Inr msg) ?ms (handled i tr)" using ms1 bs by simp
  then have "map (\<lambda>b. sub_callback (fst (ps ! i)) (view_of b)) (handled i tr) = map cb ?ms"
    unfolding assms(5) by (rule typed_calls)
  moreover have "subseq ?ms ms" using ms1 by simp
  moreover have "?ms = ms" if "snd (ps ! i) @ arrivals i xs = pub_sent (snd (publish_all enc ms pub))" "snd (ps' ! i) = []"
    using that h bs(2) by simp
  moreover have "standard ps'" using f assms(7) standard_cong by blast
  note poll_run_empties [OF _ this]
  ultimately show ?thesis using f by blast
qed

text \<open>Two subscribers of the two strings published; the callback of the first always throws.\<close>

definition follower :: "(string \<Rightarrow> string list \<Rightarrow> exn option \<times> string list) \<Rightarrow> string list Subscriber" where
  "follower cb = \<lparr>topicName = ''t'', publisherURLs = [],
     sub_callback = typed_callback (\<lambda>v. dec_str platform_example v []) cb, sub_socket = []\<rparr>"

definition throwing :: "string \<Rightarrow> string list \<Rightarrow> exn option \<times> string list" where
  "throwing msg u = (Some (RuntimeError msg), u)"

definition keeping :: "string \<Rightarrow> string list \<Rightarrow> exn option \<times> string list" where
  "keeping msg u = (None, u @ [msg])"

theorem pubsub_end_to_end_witness:
  "\<exists>tr ps'. poll_run ((None, \<lambda>_. pub_sent (snd (publish_all (enc_str platform_example) [''a'', ''b''] \<lparr>pub_port = 1, pub_sent = []\<rparr>)))
        # replicate 3 (None, \<lambda>_. [])) [(follower throwing, []), (follower keeping, [])] [] = (tr, ps', [''a'', ''b'']) \<and>
     map (\<lambda>b. sub_callback (follower keeping) (view_of b)) (handled 1 tr) = map keeping [''a'', ''b'']"
proof -
  let ?pub = "\<lparr>pub_port = 1, pub_sent = []\<rparr>" and ?ms = "[''a'', ''b'']"
  let ?fs = "pub_sent (snd (publish_all (enc_str platform_example) ?ms ?pub))"
  let ?ps = "[(follower throwing, []), (follower keeping, [])]"
  let ?xs = "(None, \<lambda>_. ?fs) # replicate 3 (None, \<lambda>_. []) :: (exn option \<times> (nat \<Rightarrow> bytes list)) list"
  have fs: "?fs = [1 # bytes_of_string ''a'', 1 # bytes_of_string ''b'']"
    by (simp add: publish_def platform_example_def)
  have run: "\<exists>tr. poll_run ?xs ?ps [] = (tr, ?ps, ?ms)"
    unfolding fs by (simp add: numeral_3_eq_3 poll_pass_def arrive_def follower_def throwing_def keeping_def typed_callback_def
        platform_example_def swallow_std_def)
  then obtain tr where r: "poll_run ?xs ?ps [] = (tr, ?ps, ?ms)" by blast
  have ser: "serializer (enc_str platform_example) (dec_str platform_example) (\<lambda>s. length s \<le> 64)"
    using platform_codecs(1) [OF platform_example_ok] .
  have std: "standard ?ps"
    by (auto simp: standard_def follower_def throwing_def keeping_def typed_callback_def platform_example_def
        split: sum.splits list.splits)
  have arr: "arrivals 1 ?xs = ?fs" by (simp add: arrivals_def numeral_3_eq_3)
  have polls: "polls_ok (map fst ?xs)" by (auto simp: polls_ok_def)
  have cb: "sub_callback (fst (?ps ! 1)) = typed_callback (\<lambda>v. dec_str platform_example v []) keeping"
    by (simp add: follower_def)
  have "snd (?ps ! 1) @ arrivals 1 ?xs = ?fs" using arr by simp
  then have "\<exists>ms'. subseq ms' ?ms \<and> map (\<lambda>b. sub_callback (fst (?ps ! 1)) (view_of b)) (handled 1 tr) = map keeping ms' \<and>
      (?fs = ?fs \<and> snd (?ps ! 1) = [] \<longrightarrow> ms' = ?ms)"
    using pubsub_end_to_end [OF ser _ _ _ cb _ std polls r, of ?ms ?pub, THEN conjunct1] by simp
  then have "map (\<lambda>b. sub_callback (follower keeping) (view_of b)) (handled 1 tr) = map keeping ?ms" by auto
  with r show ?thesis by blast
qed

section \<open>Topics of the node itself: the examples\<close>

text \<open>
  \<^verbatim>\<open>zerolancom_example.cpp\<close> subscribes before it creates its publisher,
  \<^verbatim>\<open>custom_message.cpp\<close> the other way round.
\<close>

definition zerolancom_example_topics ::
  "zmq_answer \<Rightarrow> exn option \<Rightarrow> exn option \<Rightarrow> (string \<Rightarrow> string result) \<Rightarrow> (NodeInfo hash_map \<Rightarrow> NodeInfo hash_map)
     \<Rightarrow> (ByteView \<Rightarrow> string result) \<Rightarrow> string renderer \<Rightarrow> 'w NodeInfoManager \<Rightarrow> Logger SubscriberManager
     \<Rightarrow> (Publisher \<times> 'w NodeInfoManager) result \<times> Logger SubscriberManager" where
  "zerolancom_example_topics zmq sub_exc pub_exc zbind iter dec render nim m =
     (case registerSubscriberHandler zmq sub_exc iter nim dec ''TestTopic'' (ze_topicCallback render) m of
        (Some e, m') \<Rightarrow> (Inl e, m')
      | (None, m') \<Rightarrow> (Publisher_ctor pub_exc zbind ''TestTopic'' False nim, m'))"

definition custom_message_topics ::
  "zmq_answer \<Rightarrow> exn option \<Rightarrow> exn option \<Rightarrow> (string \<Rightarrow> string result) \<Rightarrow> (NodeInfo hash_map \<Rightarrow> NodeInfo hash_map)
     \<Rightarrow> (ByteView \<Rightarrow> CustomMessage result) \<Rightarrow> string renderer \<Rightarrow> 'w NodeInfoManager \<Rightarrow> Logger SubscriberManager
     \<Rightarrow> (Publisher \<times> 'w NodeInfoManager) result \<times> Logger SubscriberManager" where
  "custom_message_topics zmq sub_exc pub_exc zbind iter dec render nim m =
     (case Publisher_ctor pub_exc zbind ''CustomMessage'' False nim of
        Inl e \<Rightarrow> (Inl e, m)
      | Inr (pub, nim') \<Rightarrow>
          (case registerSubscriberHandler zmq sub_exc iter nim' dec ''CustomMessage'' (cm_topicCallback render) m of
             (Some e, m') \<Rightarrow> (Inl e, m')
           | (None, m') \<Rightarrow> (Inr (pub, nim'), m')))"

lemma register_subscriber_quiet: "fst (register_subscriber quiet None iter nim topic cb m) = None"
proof -
  let ?sub = "\<lparr>topicName = topic, publisherURLs = [], sub_callback = cb, sub_socket = [SetSubscribe []]\<rparr>"
  obtain sub' where "connect_urls quiet (findTopicURLs iter nim topic) ?sub = (None, sub')"
    using connect_urls_quiet [of "findTopicURLs iter nim topic" ?sub] by auto
  then show ?thesis by (simp add: register_subscriber_def sock_do_def)
qed

text \<open>
  So the second program follows itself and the first does not, unless the endpoint was already
  announced by someone else.
\<close>

lemma example_topics_linked:
  assumes "iter_order iter" and "nim_inv nim"
    and "zbind (''tcp://'' @ ni_ip (localNodeInfo nim) @ '':0'') = Inr (tcp_url (ni_ip (localNodeInfo nim)) p)" and "p < 65536"
  shows "\<exists>r m'. zerolancom_example_topics quiet None None zbind iter dec render nim m = (Inr r, m') \<and>
       links m' = links m @ [(''TestTopic'', findTopicURLs iter nim ''TestTopic'')]"
    and "\<exists>r m' us. custom_message_topics quiet None None zbind iter dec' render nim m = (Inr r, m') \<and>
       links m' = links m @ [(''CustomMessage'', us)] \<and> tcp_url (ni_ip (localNodeInfo nim)) p \<in> set us"
proof -
  obtain pub nim' where z: "Publisher_ctor None zbind ''TestTopic'' False nim = Inr (pub, nim')"
    using publisher_announces [where zbind = zbind and nim = nim and p = p, OF assms(2-4), of "''TestTopic''" False BadAlloc] by blast
  let ?z = "register_subscriber quiet None iter nim ''TestTopic'' (typed_callback dec (ze_topicCallback render)) m"
  have "zerolancom_example_topics quiet None None zbind iter dec render nim m = (Inr (pub, nim'), snd ?z)"
    by (simp add: zerolancom_example_topics_def registerSubscriberHandler_def z case_prod_unfold register_subscriber_quiet)
  then show "\<exists>r m'. zerolancom_example_topics quiet None None zbind iter dec render nim m = (Inr r, m') \<and>
       links m' = links m @ [(''TestTopic'', findTopicURLs iter nim ''TestTopic'')]"
    using links_register [of iter nim "''TestTopic''" "typed_callback dec (ze_topicCallback render)" m] by blast
  obtain pub nim' t where c: "Publisher_ctor None zbind ''CustomMessage'' False nim = Inr (pub, nim')"
    "topics (localNodeInfo nim') = topics (localNodeInfo nim) @ [t]" "si_name t = ''CustomMessage''"
    "socket_url t = tcp_url (ni_ip (localNodeInfo nim)) p" "nim_inv nim'"
    using publisher_announces [where zbind = zbind and nim = nim and p = p, OF assms(2-4), of "''CustomMessage''" False BadAlloc] by (auto simp del: list.inject)
  have "t \<in> set (getPublisherInfo iter ''CustomMessage'' nim')"
    using c by (subst getPublisherInfo_set [OF assms(1)]) (auto simp: nim_inv_def)
  then have u: "tcp_url (ni_ip (localNodeInfo nim)) p \<in> set (findTopicURLs iter nim' ''CustomMessage'')"
    using c(4) by (force simp: findTopicURLs_def)
  let ?c = "register_subscriber quiet None iter nim' ''CustomMessage'' (typed_callback dec' (cm_topicCallback render)) m"
  have "custom_message_topics quiet None None zbind iter dec' render nim m = (Inr (pub, nim'), snd ?c)"
    by (simp add: custom_message_topics_def registerSubscriberHandler_def c(1) case_prod_unfold register_subscriber_quiet)
  then show "\<exists>r m' us. custom_message_topics quiet None None zbind iter dec' render nim m = (Inr r, m') \<and>
       links m' = links m @ [(''CustomMessage'', us)] \<and> tcp_url (ni_ip (localNodeInfo nim)) p \<in> set us"
    using links_register [of iter nim' "''CustomMessage''" "typed_callback dec' (cm_topicCallback render)" m] u by blast
qed

end
