(* ===== verification/Exact_Links.thy ===== *)
theory Exact_Links
  imports Network
begin

text \<open>
  The connections of a node are a function of what it knows. \<^theory_text>\<open>Network\<close> shows that no link is
  missing; here, that none is left over: every endpoint a subscriber is connected to, once, is one
  its node itself announced for the topic or one that its registry holds at this moment.
\<close>

section \<open>One node\<close>

text \<open>The endpoints a subscriber of \<open>topic\<close> ought to have.\<close>

definition wanted :: "'u registry \<Rightarrow> string \<Rightarrow> string \<Rightarrow> bool" where
  "wanted s topic u \<longleftrightarrow> u \<in> set (urls_for topic (localNodeInfo s)) \<or>
     (\<exists>k info. map_of (nodes_info s) k = Some info \<and> u \<in> set (urls_for topic info))"

definition clean :: "'u registry \<Rightarrow> 'u SubscriberManager \<Rightarrow> bool" where
  "clean s w \<longleftrightarrow> (\<forall>(topic, us) \<in> set (links w). distinct us \<and> (\<forall>u \<in> set us. wanted s topic u))"

lemma clean_frame:
  "clean s w \<Longrightarrow> nodes_info s' = nodes_info s \<Longrightarrow> set (topics (localNodeInfo s)) \<subseteq> set (topics (localNodeInfo s')) \<Longrightarrow>
   clean s' w"
  by (fastforce simp: clean_def wanted_def urls_for_def)

lemma clean_update:
  assumes "clean s w" and "\<And>old. map_of (nodes_info s) k = Some old \<Longrightarrow> set (topics old) \<subseteq> set (topics d)"
  shows "clean (updateNodeUnlocked now k d s) (snd (updateTopicSubscriber quiet d w))"
proof -
  let ?s = "updateNodeUnlocked now k d s"
  have new: "wanted ?s topic u" if "u \<in> set (urls_for topic d)" for topic u
    using that by (auto simp: wanted_def updateNodeUnlocked_def)
  have old: "wanted ?s topic u" if w: "wanted s topic u" for topic u
  proof (cases "u \<in> set (urls_for topic d)")
    case False
    then have "map_of (nodes_info s) k = Some i \<Longrightarrow> u \<notin> set (urls_for topic i)" for i
      using assms(2) [of i] by (auto simp: urls_for_def)
    note k = this
    show ?thesis using w unfolding wanted_def
    proof (elim disjE exE conjE)
      fix k' info assume i: "map_of (nodes_info s) k' = Some info" "u \<in> set (urls_for topic info)"
      then have "k' \<noteq> k" using k by auto
      with i have "map_of (nodes_info ?s) k' = Some info" by (simp add: updateNodeUnlocked_def)
      with i(2) show "u \<in> set (urls_for topic (localNodeInfo ?s)) \<or>
          (\<exists>k info. map_of (nodes_info ?s) k = Some info \<and> u \<in> set (urls_for topic info))" by blast
    qed (simp add: updateNodeUnlocked_def)
  qed (rule new)
  show ?thesis
    using assms(1) new old
    by (fastforce simp: clean_def links_update_quiet link_update_def set_foldl_add_url distinct_foldl_add_url)
qed

lemma clean_evict:
  assumes "node_remove_event s = subscribe (removeTopicSubscriber quiet) event_empty" and "clean s w"
  shows "clean (fst (snd (evict nids s w))) (snd (snd (evict nids s w)))"
  using assms
proof (induction nids arbitrary: s w)
  case (Cons nid nids)
  let ?i = "info_or_default s nid" and ?s = "removeNode nid s"
  let ?w = "snd (removeTopicSubscriber quiet ?i w)"
  have "trigger (node_remove_event s) ?i w = (None, ?w)"
    using Cons.prems by (simp add: prod_eq_iff)
  then have e: "evict (nid # nids) s w = evict nids ?s ?w" by (simp add: evict_Cons)
  have l: "links ?w = map (link_remove ?i) (links w)" by (rule links_remove) simp
  have keep: "wanted ?s topic u" if "wanted s topic u" "u \<notin> set (urls_for topic ?i)" for topic u
    using that(1) unfolding wanted_def
  proof (elim disjE exE conjE)
    fix k info assume i: "map_of (nodes_info s) k = Some info" "u \<in> set (urls_for topic info)"
    then have "k \<noteq> nid" using that(2) by (auto simp: info_or_default_def)
    with i have "map_of (nodes_info ?s) k = Some info" by (simp add: removeNode_def)
    with i(2) show "u \<in> set (urls_for topic (localNodeInfo ?s)) \<or>
        (\<exists>k info. map_of (nodes_info ?s) k = Some info \<and> u \<in> set (urls_for topic info))" by blast
  qed (simp add: removeNode_def)
  have "clean ?s ?w"
    using Cons.prems(2) keep foldl_remove1_set
    unfolding clean_def l by (fastforce simp: link_remove_def)
  with Cons.IH [of ?s ?w] Cons.prems(1) show ?case by (simp add: e removeNode_def)
qed simp

text \<open>A new subscriber: what it finds is what it wants, and nothing twice.\<close>

lemma distinct_concat_urls:
  assumes "distinct (map fst m)"
    and "\<And>k i. (k, i) \<in> set m \<Longrightarrow> distinct (urls_for topic i)"
    and "\<And>k i k' i'. (k, i) \<in> set m \<Longrightarrow> (k', i') \<in> set m \<Longrightarrow> k \<noteq> k' \<Longrightarrow> endpoints i \<inter> endpoints i' = {}"
  shows "distinct (concat (map (\<lambda>(k, i). urls_for topic i) m))"
  using assms
proof (induction m)
  case (Cons p m)
  obtain k i where p: "p = (k, i)" by fastforce
  have "distinct (concat (map (\<lambda>(k, i). urls_for topic i) m))"
  proof (rule Cons.IH)
    show "distinct (map fst m)" using Cons.prems(1) by simp
    show "distinct (urls_for topic i')" if "(k', i') \<in> set m" for k' i'
      using that Cons.prems(2) [of k' i'] by simp
    show "endpoints i1 \<inter> endpoints i2 = {}" if "(k1, i1) \<in> set m" "(k2, i2) \<in> set m" "k1 \<noteq> k2" for k1 i1 k2 i2
      using that Cons.prems(3) [of k1 i1 k2 i2] by simp
  qed
  moreover have "set (urls_for topic i) \<inter> set (urls_for topic i') = {}" if "(k', i') \<in> set m" for k' i'
  proof -
    have "k' \<noteq> k" using Cons.prems(1) that by (force simp: p)
    then have "endpoints i \<inter> endpoints i' = {}" using Cons.prems(3) [of k i k' i'] that by (auto simp: p)
    then show ?thesis by (auto simp: urls_for_def endpoints_def)
  qed
  ultimately show ?case using Cons.prems(2) [of k i] by (fastforce simp: p)
qed simp

lemma findTopicURLs_eq:
  "findTopicURLs iter s topic =
   concat (map (\<lambda>(k, i). urls_for topic i) (iter (nodes_info s))) @ urls_for topic (localNodeInfo s)"
  by (simp add: findTopicURLs_def getPublisherInfo_def urls_for_def map_concat comp_def case_prod_unfold)

lemma clean_register:
  assumes "clean s w" and "iter_order iter" and "hm_ok (nodes_info s)" and "distinct (urls_for topic (localNodeInfo s))"
    and d: "\<And>k i. map_of (nodes_info s) k = Some i \<Longrightarrow> distinct (urls_for topic i) \<and> endpoints i \<inter> endpoints (localNodeInfo s) = {}"
    and a: "\<And>k i k' i'. map_of (nodes_info s) k = Some i \<Longrightarrow> map_of (nodes_info s) k' = Some i' \<Longrightarrow> k \<noteq> k' \<Longrightarrow>
      endpoints i \<inter> endpoints i' = {}"
  shows "clean s (snd (register_subscriber quiet None iter s topic cb w))"
proof -
  have mem: "(k, i) \<in> set (iter (nodes_info s)) \<longleftrightarrow> map_of (nodes_info s) k = Some i" for k i
    using assms(2,3) by (simp add: iter_order_set hm_ok_lookup)
  let ?us = "concat (map (\<lambda>(k, i). urls_for topic i) (iter (nodes_info s)))"
  have "distinct (map fst (iter (nodes_info s)))" using assms(2,3) by (simp add: iter_order_distinct)
  then have "distinct ?us" by (rule distinct_concat_urls) (use d a in \<open>simp_all add: mem\<close>)
  moreover have us: "u \<in> set ?us \<longleftrightarrow> (\<exists>k info. map_of (nodes_info s) k = Some info \<and> u \<in> set (urls_for topic info))" for u
    using mem by auto
  moreover have "u \<notin> set (urls_for topic (localNodeInfo s))" if u: "u \<in> set ?us" for u
  proof -
    obtain k i where "map_of (nodes_info s) k = Some i" "u \<in> set (urls_for topic i)" using u us by blast
    then have "u \<in> endpoints i" "endpoints i \<inter> endpoints (localNodeInfo s) = {}"
      using d by (auto simp: urls_for_def endpoints_def)
    then have "u \<notin> endpoints (localNodeInfo s)" by blast
    then show ?thesis by (auto simp: urls_for_def endpoints_def)
  qed
  ultimately have "distinct (findTopicURLs iter s topic)" and "\<And>u. u \<in> set (findTopicURLs iter s topic) \<Longrightarrow> wanted s topic u"
    using assms(4) unfolding findTopicURLs_eq wanted_def by (auto simp: us simp del: set_concat)
  with assms(1) show ?thesis by (auto simp: clean_def links_register)
qed

lemma clean_receive:
  assumes "tidy G s w" and "clean s w"
    and g: "\<And>d. admitted e aton r s data ip \<Longrightarrow>
      request ''get_node_info'' (tcp_url_i32 ip (service_port (told data))) = Inr d \<Longrightarrow> G (node_id (told data)) d \<and>
        (\<forall>old. map_of (nodes_info s) (node_id (told data)) = Some old \<longrightarrow> set (topics old) \<subseteq> set (topics d))"
    and r: "receive_once e aton request iter now1 now2 now3 r (Some (data, ip)) s w = (exc, s', w')"
  shows "clean s' w'"
proof (cases "admitted e aton r s data ip")
  case True
  let ?a = "request ''get_node_info'' (tcp_url_i32 ip (service_port (told data)))"
  have g1: "G (node_id (told data)) d" if "?a = Inr d" for d using g [OF True that] by simp
  obtain s1 w1 where n: "noted now1 now2 (told data) ?a s w = (s1, w1)" and t1: "tidy G s1 w1"
    and c: "(s', w') = (s1, w1) \<or> (s', w') = snd (checkHeartbeats iter now3 s1 w1)"
    using receive_stage [OF assms(1) True g1 r] by blast
  let ?s = "touched now1 (told data) s"
  have "clean ?s w" using assms(2) by (rule clean_frame) simp_all
  then have "clean (updateNodeUnlocked now2 (node_id (told data)) d ?s) (snd (updateTopicSubscriber quiet d w))"
    if "?a = Inr d" for d
    by (rule clean_update) (use g [OF True that] in simp)
  with \<open>clean ?s w\<close> n have "clean s1 w1" by (auto simp: noted_def split: if_splits sum.splits)
  moreover have "node_remove_event s1 = subscribe (removeTopicSubscriber quiet) event_empty" using t1 by (simp add: tidy_def)
  ultimately show ?thesis using clean_evict [of s1 w1] c by (auto simp: checkHeartbeats_def prod_eq_iff)
next
  case False
  with assms(2) r show ?thesis by (simp add: receive_once_eq)
qed

section \<open>The network\<close>

definition own_ports :: "'u network \<Rightarrow> bool" where
  "own_ports s \<longleftrightarrow> (\<forall>i < length (sites s). distinct (map socket_url (topics (me (sites s ! i)))))"

definition net_clean :: "'u network \<Rightarrow> bool" where
  "net_clean s \<longleftrightarrow> (\<forall>i < length (sites s). clean (nim (sites s ! i)) (subs (sites s ! i)))"

lemma own_urls_distinct: "distinct (map socket_url (topics i)) \<Longrightarrow> distinct (urls_for topic i)"
  by (simp add: urls_for_def distinct_map_filter)

text \<open>Topics are only ever added.\<close>

lemma topics_grow_do:
  assumes "lan_ok l" and "net_inv l s" and "net_do l a s = Some s'"
  shows "prefix (topics (me (sites s ! j))) (topics (me (sites s' ! j)))"
proof (cases "\<exists>r. a = Announce j r")
  case True
  then obtain r where "a = Announce j r" by blast
  with assms(3) show ?thesis
    by (cases r) (auto simp: me_def may_announce_def registerLocalTopic_def registerLocalService_def Let_def split: if_splits)
next
  case False
  then show ?thesis using net_do_frame(7) [OF assms, of j] by simp
qed

lemma own_ports_do:
  assumes "lan_ok l" and "net_inv l s" and "net_do l a s = Some s'" and "own_ports s'"
  shows "own_ports s"
  unfolding own_ports_def
proof (intro allI impI)
  fix i assume "i < length (sites s)"
  then have "distinct (map socket_url (topics (me (sites s' ! i))))"
    using assms(4) net_do_frame(1) [OF assms(1-3)] by (simp add: own_ports_def)
  then show "distinct (map socket_url (topics (me (sites s ! i))))"
    using topics_grow_do [OF assms(1-3), of i] by (auto simp: prefix_def)
qed

lemma net_clean_replace:
  assumes "net_clean s" and "clean (nim x) (subs x)"
  shows "net_clean (s\<lparr>sites := (sites s)[i := x]\<rparr>)"
  unfolding net_clean_def
proof (intro allI impI)
  fix j assume "j < length (sites (s\<lparr>sites := (sites s)[i := x]\<rparr>))"
  with assms show "clean (nim (sites (s\<lparr>sites := (sites s)[i := x]\<rparr>) ! j)) (subs (sites (s\<lparr>sites := (sites s)[i := x]\<rparr>) ! j))"
    by (cases "j = i") (simp_all add: net_clean_def)
qed

lemma net_clean_follow:
  assumes lan: "lan_ok l" and inv: "net_inv l s" and "net_clean s" and own: "own_ports s" and i: "i < length (sites s)"
  shows "clean (nim (sites s ! i)) (snd (register_subscriber quiet None (iter_infos l) (nim (sites s ! i)) topic cb (subs (sites s ! i))))"
proof (rule clean_register)
  let ?s = "nim (sites s ! i)"
  have t: "tidy (seen_by s i) ?s (subs (sites s ! i))" using net_invD(1) [OF inv i] .
  then have seen: "seen_by s i k info" if "map_of (nodes_info ?s) k = Some info" for k info
    using that by (simp add: tidy_def)
  show "clean ?s (subs (sites s ! i))" using assms(3) i by (simp add: net_clean_def)
  show "iter_order (iter_infos l)" using lan by (simp add: lan_ok_def)
  show "hm_ok (nodes_info ?s)" using t by (simp add: tidy_def nim_inv_def)
  show "distinct (urls_for topic (localNodeInfo ?s))"
    using own i by (intro own_urls_distinct) (simp add: own_ports_def me_def)
  show "distinct (urls_for topic info) \<and> endpoints info \<inter> endpoints (localNodeInfo ?s) = {}"
    if "map_of (nodes_info ?s) k = Some info" for k info
  proof -
    obtain j where j: "j < length (sites s)" "j \<noteq> i" "earlier info (me (sites s ! j))"
      using seen [OF \<open>map_of (nodes_info ?s) k = Some info\<close>] unfolding seen_by_def by blast
    then have "distinct (map socket_url (topics (me (sites s ! j))))" using own by (simp add: own_ports_def)
    then have "distinct (map socket_url (topics info))" using j(3) by (auto simp: earlier_def prefix_def)
    moreover have "endpoints (me (sites s ! j)) \<inter> endpoints (me (sites s ! i)) = {}"
      using inv i j(1,2) by (simp add: net_inv_def)
    ultimately show ?thesis using earlier_endpoints [OF j(3)] own_urls_distinct by (auto simp: me_def)
  qed
  show "endpoints i1 \<inter> endpoints i2 = {}"
    if "map_of (nodes_info ?s) k1 = Some i1" "map_of (nodes_info ?s) k2 = Some i2" "k1 \<noteq> k2" for k1 i1 k2 i2
    using net_inv_apart [OF inv, of i] seen [OF that(1)] seen [OF that(2)] that(3) unfolding apart_def by blast
qed

lemma net_clean_deliver:
  assumes lan: "lan_ok l" and inv: "net_inv l s" and "net_clean s" and "net_do l (Deliver i k now1 now2 now3 net_up e) s = Some s'"
  shows "net_clean s'"
  using assms(4)
proof (rule deliver_elim [OF lan inv])
  fix j b exc nim' subs'
  assume i: "i < length (sites s)" and k: "k < length (wire s)" "wire s ! k = (j, b)"
    and r: "receive_once (byte_order l i) (inet l) (ask_site l (sites s ! j) net_up e) (iter_times l) now1 now2 now3
      (rcv (sites s ! i)) (Some (b, host (sites s ! j))) (nim (sites s ! i)) (subs (sites s ! i)) = (exc, nim', subs')"
    and s': "s' = s\<lparr>sites := (sites s)[i := (sites s ! i)\<lparr>nim := nim', subs := subs'\<rparr>]\<rparr>"
  note g = net_invD(6) [OF inv k]
  have grown: "set (topics old) \<subseteq> set (topics (me (sites s ! j)))"
    if "map_of (nodes_info (nim (sites s ! i))) (node_id (told b)) = Some old" for old
  proof -
    have "seen_by s i (node_id (told b)) old" using net_invD(1) [OF inv i] that by (simp add: tidy_def)
    then obtain j' where j': "j' < length (sites s)" "node_id (told b) = nodeID (me (sites s ! j'))" "earlier old (me (sites s ! j'))"
      by (auto simp: seen_by_def)
    moreover have "j < length (sites s)" using g by (simp add: genuine_def)
    ultimately have "j' = j" using told_genuine [OF g] net_invD(5) [OF inv, of j' j] by simp
    with j'(3) show ?thesis by (auto simp: earlier_def prefix_def)
  qed
  have "clean nim' subs'"
  proof (rule clean_receive [OF net_invD(1) [OF inv i] _ _ r])
    show "clean (nim (sites s ! i)) (subs (sites s ! i))" using assms(3) i by (simp add: net_clean_def)
    fix d assume "admitted (byte_order l i) (inet l) (rcv (sites s ! i)) (nim (sites s ! i)) b (host (sites s ! j))"
      "ask_site l (sites s ! j) net_up e ''get_node_info'' (tcp_url_i32 (host (sites s ! j)) (service_port (told b))) = Inr d"
    from deliver_answer [OF lan inv i g this] grown
    show "seen_by s i (node_id (told b)) d \<and>
        (\<forall>old. map_of (nodes_info (nim (sites s ! i))) (node_id (told b)) = Some old \<longrightarrow> set (topics old) \<subseteq> set (topics d))" by blast
  qed
  then show ?thesis unfolding s' by (intro net_clean_replace [OF assms(3)]) simp
qed

lemma net_clean_do:
  assumes lan: "lan_ok l" and inv: "net_inv l s" and clean: "net_clean s" and own: "own_ports s" and do: "net_do l a s = Some s'"
  shows "net_clean s'"
proof (cases a)
  case (Announce i r)
  have i: "i < length (sites s)" using do Announce by (auto simp: may_announce_def split: if_splits)
  have "clean (register_local (nim (sites s ! i)) r) (subs (sites s ! i))"
  proof (rule clean_frame)
    show "clean (nim (sites s ! i)) (subs (sites s ! i))" using clean i by (simp add: net_clean_def)
    show "set (topics (localNodeInfo (nim (sites s ! i)))) \<subseteq> set (topics (localNodeInfo (register_local (nim (sites s ! i)) r)))"
      by (cases r) (auto simp: registerLocalTopic_def registerLocalService_def Let_def)
  qed (rule register_local_frame)
  with Announce do net_clean_replace [OF clean] show ?thesis by (auto split: if_splits)
next
  case (Follow i topic cb)
  then have "i < length (sites s)" using do by (auto split: if_splits)
  from net_clean_follow [OF lan inv clean own this] Follow do net_clean_replace [OF clean] show ?thesis
    by (auto split: if_splits)
next
  case (Beat i)
  with clean do show ?thesis by (auto simp: net_clean_def split: if_splits)
next
  case (Deliver i k now1 now2 now3 net_up e)
  from net_clean_deliver [OF lan inv clean] do Deliver show ?thesis by blast
qed

lemma own_ports_run:
  "lan_ok l \<Longrightarrow> net_inv l s \<Longrightarrow> net_run l as s = Some s' \<Longrightarrow> own_ports s' \<Longrightarrow> own_ports s"
proof (induction as arbitrary: s)
  case (Cons a as)
  then obtain t where t: "net_do l a s = Some t" "net_run l as t = Some s'" by (cases "net_do l a s") auto
  have "own_ports t" using Cons.IH [OF Cons.prems(1) net_inv_do [OF Cons.prems(1,2) t(1)] t(2) Cons.prems(4)] .
  with own_ports_do [OF Cons.prems(1,2) t(1)] show ?case by blast
qed simp

lemma net_clean_run:
  "lan_ok l \<Longrightarrow> net_inv l s \<Longrightarrow> net_clean s \<Longrightarrow> net_run l as s = Some s' \<Longrightarrow> own_ports s' \<Longrightarrow> net_clean s'"
proof (induction as arbitrary: s)
  case (Cons a as)
  then obtain t where t: "net_do l a s = Some t" "net_run l as t = Some s'" by (cases "net_do l a s") auto
  have inv: "net_inv l t" using net_inv_do [OF Cons.prems(1,2) t(1)] .
  have "own_ports s" using own_ports_run [OF Cons.prems(1,2,4,5)] .
  from net_clean_do [OF Cons.prems(1-3) this t(1)] show ?case using Cons.IH [OF Cons.prems(1) inv _ t(2) Cons.prems(5)] by blast
qed simp

lemma net_clean_start: "net_start l s \<Longrightarrow> net_clean s"
  unfolding net_clean_def
proof (intro allI impI)
  fix i assume "net_start l s" "i < length (sites s)"
  then obtain draws nm ip grp port where "sites s ! i = new_site draws nm ip grp port"
    using nth_mem by (fastforce simp: net_start_def)
  then show "clean (nim (sites s ! i)) (subs (sites s ! i))"
    by (simp add: clean_def new_site_def links_def sm_empty_def)
qed

section \<open>Properties\<close>

text \<open>
  C7: The connections are a function of the registry: in every state a network reaches in which
  every publisher has a port of its own, a subscriber remembers no endpoint twice, and apart from
  publishers of its own node its endpoints are exactly those that the descriptions now in the
  registry announce for its topic. Nothing is left over of nodes that were evicted or of
  descriptions that were replaced.
\<close>

theorem network_links_exact:
  assumes "lan_ok l" and "net_start l s0" and "net_run l as s0 = Some s" and "own_ports s"
    and "i < length (sites s)" and "sub \<in> set (subscribers (subs (sites s ! i)))"
  shows "distinct (publisherURLs sub) \<and>
     set (publisherURLs sub) - endpoints (me (sites s ! i)) =
       {socket_url t | t k info. map_of (nodes_info (nim (sites s ! i))) k = Some info \<and> t \<in> set (topics info) \<and>
          si_name t = topicName sub}"
proof -
  let ?s = "nim (sites s ! i)"
  have inv: "net_inv l s" using net_inv_run [OF assms(1) net_inv_start [OF assms(2)] assms(3)] .
  have "clean ?s (subs (sites s ! i))"
    using net_clean_run [OF assms(1) net_inv_start [OF assms(2)] net_clean_start [OF assms(2)] assms(3,4)] assms(5)
    by (simp add: net_clean_def)
  then have c: "distinct (publisherURLs sub)" "\<And>u. u \<in> set (publisherURLs sub) \<Longrightarrow> wanted ?s (topicName sub) u"
    using assms(6) by (auto simp: clean_def links_def)
  have t: "tidy (seen_by s i) ?s (subs (sites s ! i))" using net_invD(1) [OF inv assms(5)] .
  have linked: "set (urls_for (topicName sub) info) \<subseteq> set (publisherURLs sub)" if "map_of (nodes_info ?s) k = Some info" for k info
    using t that assms(6) by (fastforce simp: tidy_def linked_def links_def)
  have other: "endpoints info \<inter> endpoints (me (sites s ! i)) = {}" if info: "map_of (nodes_info ?s) k = Some info" for k info
  proof -
    have "seen_by s i k info" using t info by (simp add: tidy_def)
    then obtain j where "j < length (sites s)" "j \<noteq> i" "earlier info (me (sites s ! j))" unfolding seen_by_def by blast
    moreover from this have "endpoints (me (sites s ! j)) \<inter> endpoints (me (sites s ! i)) = {}"
      using inv assms(5) by (simp add: net_inv_def)
    ultimately show ?thesis using earlier_endpoints by blast
  qed
  have "u \<in> set (publisherURLs sub) - endpoints (me (sites s ! i)) \<longleftrightarrow>
      (\<exists>k info. map_of (nodes_info ?s) k = Some info \<and> u \<in> set (urls_for (topicName sub) info))" for u
  proof
    assume u: "u \<in> set (publisherURLs sub) - endpoints (me (sites s ! i))"
    then have "u \<notin> set (urls_for (topicName sub) (localNodeInfo ?s))" by (auto simp: urls_for_def endpoints_def me_def)
    with u c(2) show "\<exists>k info. map_of (nodes_info ?s) k = Some info \<and> u \<in> set (urls_for (topicName sub) info)"
      by (auto simp: wanted_def)
  next
    assume "\<exists>k info. map_of (nodes_info ?s) k = Some info \<and> u \<in> set (urls_for (topicName sub) info)"
    then obtain k info where k: "map_of (nodes_info ?s) k = Some info" "u \<in> set (urls_for (topicName sub) info)" by blast
    then have "u \<in> endpoints info" by (auto simp: urls_for_def endpoints_def)
    with linked [OF k(1)] other [OF k(1)] k(2) show "u \<in> set (publisherURLs sub) - endpoints (me (sites s ! i))" by blast
  qed
  then have "set (publisherURLs sub) - endpoints (me (sites s ! i)) =
      {u. \<exists>k info. map_of (nodes_info ?s) k = Some info \<and> u \<in> set (urls_for (topicName sub) info)}" by blast
  with c(1) show ?thesis by (auto simp: urls_for_def)
qed

text \<open>The network of two, with one more subscriber of the topic at the end.\<close>

theorem network_links_exact_witness:
  "\<exists>s sub. net_run lan_ab (acts_ab @ [Beat 1, Deliver 0 0 1 2 3 True BadAlloc, Follow 0 ''t'' (\<lambda>_ u. (None, u))]) start_ab = Some s \<and>
     sub \<in> set (subscribers (subs (sites s ! 0))) \<and> distinct (publisherURLs sub) \<and> ''tcp://10.0.0.2:9'' \<in> set (publisherURLs sub)"
proof -
  let ?cb = "\<lambda>_ u. (None, u)"
  obtain s1 s2 s3 where r: "net_run lan_ab acts_ab start_ab = Some s1" "wire s1 = []" "net_run lan_ab [Beat 1] s1 = Some s2"
    "net_do lan_ab (Deliver 0 0 1 2 3 True BadAlloc) s2 = Some s3" "hears lan_ab s1 0 1"
    and t: "topics (me (sites s3 ! 1)) = [\<lparr>si_name = ''t'', si_ip = ''10.0.0.2'', si_port = 9\<rparr>]"
    using run_ab by blast
  have inv0: "net_inv lan_ab start_ab" using net_inv_start [OF start_ab_ok] .
  have inv1: "net_inv lan_ab s1" using net_inv_run [OF lan_ab_ok inv0 r(1)] .
  note h = heartbeat_follows [OF lan_ab_ok inv1 r(3) _ _ _ r(5), of 1 2 3 BadAlloc s3]
  have v: "view s3 0 1 = Some (me (sites s3 ! 1))" "0 < length (sites s3)" using h(2,3) r(2,4) by simp_all
  have run3: "net_run lan_ab (acts_ab @ [Beat 1, Deliver 0 0 1 2 3 True BadAlloc]) start_ab = Some s3"
    using r by (auto simp: net_run_append simp del: net_do.simps split: bind_splits)
  have f: "length (sites s3) = 2" "me (sites s3 ! 0) = me site_a"
    using net_run_frame [OF lan_ab_ok inv0 run3, of 0 0] by (simp_all add: acts_ab_def start_ab_def)
  let ?x = "(sites s3 ! 0)\<lparr>subs := snd (register_subscriber quiet None (iter_infos lan_ab) (nim (sites s3 ! 0)) ''t'' ?cb (subs (sites s3 ! 0)))\<rparr>"
  let ?s = "s3\<lparr>sites := (sites s3)[0 := ?x]\<rparr>"
  have run: "net_run lan_ab (acts_ab @ [Beat 1, Deliver 0 0 1 2 3 True BadAlloc, Follow 0 ''t'' ?cb]) start_ab = Some ?s"
    using net_run_append [of lan_ab "acts_ab @ [Beat 1, Deliver 0 0 1 2 3 True BadAlloc]" "[Follow 0 ''t'' ?cb]" start_ab] run3 v(2) by simp
  have me: "me (sites ?s ! 0) = me site_a" "me (sites ?s ! 1) = me (sites s3 ! 1)" using f by (simp_all add: me_def)
  have own: "own_ports ?s"
    using me t f(1) by (auto simp: own_ports_def less_2_cases_iff site_a_def)
  have "(''t'', findTopicURLs (iter_infos lan_ab) (nim (sites s3 ! 0)) ''t'') \<in> set (links (subs ?x))" by (simp add: links_register)
  then obtain sub where sub: "sub \<in> set (subscribers (subs (sites ?s ! 0)))" "topicName sub = ''t''"
    using v(2) by (auto simp: links_def)
  have k: "map_of (nodes_info (nim (sites ?s ! 0))) (nodeID (me (sites s3 ! 1))) = Some (me (sites s3 ! 1))"
    using v by (simp add: view_def)
  have url: "socket_url \<lparr>si_name = ''t'', si_ip = ''10.0.0.2'', si_port = 9\<rparr> = ''tcp://10.0.0.2:9''"
    by (simp add: socket_url_def tcp_url_def dec_eval)
  have 0: "0 < length (sites ?s)" using v(2) by simp
  note x = network_links_exact [OF lan_ab_ok start_ab_ok run own 0 sub(1)]
  have "socket_url \<lparr>si_name = ''t'', si_ip = ''10.0.0.2'', si_port = 9\<rparr> \<in>
      {socket_url u | u k info. map_of (nodes_info (nim (sites ?s ! 0))) k = Some info \<and> u \<in> set (topics info) \<and> si_name u = topicName sub}"
    using k t sub(2) by fastforce
  with conjunct2 [OF x, symmetric]
  have "socket_url \<lparr>si_name = ''t'', si_ip = ''10.0.0.2'', si_port = 9\<rparr> \<in> set (publisherURLs sub) - endpoints (me (sites ?s ! 0))"
    by (rule subst)
  then have "''tcp://10.0.0.2:9'' \<in> set (publisherURLs sub)" unfolding url by blast
  with run sub(1) conjunct1 [OF x] show ?thesis by blast
qed

end
