(* ===== verification/Remote_Calls.thy ===== *)
theory Remote_Calls
  imports Network Api
begin

text \<open>
  Services across the network: the nodes of \<^theory_text>\<open>Network\<close> with their service managers. A user
  registers a handler, which also announces the service, and may take handlers away again, which
  does not take the announcement back; every other node learns of a service through heartbeats;
  a request by name goes to a node that once provided it.
\<close>

section \<open>Nodes with services\<close>

text \<open>
  The handlers users registered, in the order of the nodes; and the nodes whose \<^verbatim>\<open>get_node_info\<close>
  handler was removed, or replaced by a user's.
\<close>

record ('u, 's) service_net =
  net :: "'u network"
  tables :: "'s ServiceManager list"
  lost :: "nat set"

datatype ('u, 's) service_action =
    Net "'u net_action"
  | Provide nat string "'s handler"
  | Withdraw nat string
  | Clear nat

text \<open>Services are announced by \<^verbatim>\<open>registerServiceHandler\<close> only.\<close>

fun announces_service :: "'u net_action \<Rightarrow> bool" where
  "announces_service (Announce i (RegService nm p)) = True"
| "announces_service _ = False"

text \<open>
  \<^theory_text>\<open>Network\<close> answers a request for a description with the internal service. A node that has lost it
  does not, so that a datagram of such a node is delivered only without an answer: because none
  is needed, or because the request fails.
\<close>

fun answered_by :: "'u network \<Rightarrow> 'u net_action \<Rightarrow> nat option" where
  "answered_by n (Deliver i k now1 now2 now3 net_up e) = (if net_up \<and> k < length (wire n) then Some (fst (wire n ! k)) else None)"
| "answered_by n _ = None"

fun service_do :: "'u lan \<Rightarrow> ('u, 's) service_action \<Rightarrow> ('u, 's) service_net \<Rightarrow> ('u, 's) service_net option" where
  "service_do l (Net a) s =
     (if announces_service a \<or> answered_by (net s) a \<in> Some ` lost s then None
      else map_option (\<lambda>n. s\<lparr>net := n\<rparr>) (net_do l a (net s)))"
| "service_do l (Provide i nm h) s =
     (if i < length (tables s)
      then (let m = tables s ! i
            in map_option (\<lambda>n. s\<lparr>net := n, tables := (tables s)[i := m\<lparr>handlers := AList.update nm h (handlers m)\<rparr>],
                   lost := (if nm = ''get_node_info'' then insert i (lost s) else lost s)\<rparr>)
                 (net_do l (Announce i (RegService nm (word_of_int (sm_service_port m)))) (net s)))
      else None)"
| "service_do l (Withdraw i nm) s =
     (if i < length (tables s)
      then Some (s\<lparr>tables := (tables s)[i := removeHandler nm (tables s ! i)],
             lost := (if nm = ''get_node_info'' then insert i (lost s) else lost s)\<rparr>)
      else None)"
| "service_do l (Clear i) s =
     (if i < length (tables s)
      then Some (s\<lparr>tables := (tables s)[i := clearHandlers (tables s ! i)], lost := insert i (lost s)\<rparr>)
      else None)"

fun service_run :: "'u lan \<Rightarrow> ('u, 's) service_action list \<Rightarrow> ('u, 's) service_net \<Rightarrow> ('u, 's) service_net option" where
  "service_run l [] s = Some s"
| "service_run l (a # as) s = Option.bind (service_do l a s) (service_run l as)"

definition service_start :: "'u lan \<Rightarrow> ('u, 's) service_net \<Rightarrow> bool" where
  "service_start l s \<longleftrightarrow> net_start l (net s) \<and> length (tables s) = length (sites (net s)) \<and>
     (\<forall>m \<in> set (tables s). handlers m = []) \<and> lost s = {}"

text \<open>One \<open>Provide\<close> is one call of \<^verbatim>\<open>registerServiceHandler\<close>.\<close>

lemma provide_registers:
  assumes "service_do l (Provide i nm (typed_handler dec enc func)) s = Some s'" and "length (tables s) = length (sites (net s))"
  shows "(tables s' ! i, nim (sites (net s') ! i)) = registerServiceHandler dec enc nm func (tables s ! i) (nim (sites (net s) ! i))"
  using assms by (auto simp: registerServiceHandler_def registerHandler_def Let_def split: if_splits)

text \<open>What a run has left of a handler, and who ever had one.\<close>

fun installed_after :: "nat \<Rightarrow> string \<Rightarrow> ('u, 's) service_action \<Rightarrow> bool \<Rightarrow> bool" where
  "installed_after k nm (Net a) b = b"
| "installed_after k nm (Provide i n h) b = (b \<or> i = k \<and> n = nm)"
| "installed_after k nm (Withdraw i n) b = (b \<and> \<not> (i = k \<and> n = nm))"
| "installed_after k nm (Clear i) b = (b \<and> i \<noteq> k)"

definition installed :: "nat \<Rightarrow> string \<Rightarrow> ('u, 's) service_action list \<Rightarrow> bool" where
  "installed k nm as = fold (installed_after k nm) as False"

definition provided :: "('u, 's) service_action list \<Rightarrow> (nat \<times> string) set" where
  "provided as = {(k, nm). \<exists>h. Provide k nm h \<in> set as}"

lemma service_do_handler:
  assumes "service_do l a s = Some s'" and "k < length (tables s)"
  shows "(map_of (handlers (tables s' ! k)) nm \<noteq> None) \<longleftrightarrow> installed_after k nm a (map_of (handlers (tables s ! k)) nm \<noteq> None)"
    and "length (tables s') = length (tables s)"
  using assms
  by (cases a; auto simp: Let_def update_conv' delete_conv' removeHandler_def clearHandlers_def nth_list_update
      simp del: net_do.simps split: if_splits)+

lemma service_do_port:
  "service_do l a s = Some s' \<Longrightarrow> sm_service_port (tables s' ! j) = sm_service_port (tables s ! j)"
  by (cases a)
    (auto simp: Let_def removeHandler_def clearHandlers_def nth_list_update simp del: net_do.simps split: if_splits)

lemma service_run_handler:
  "service_run l as s = Some s' \<Longrightarrow> k < length (tables s) \<Longrightarrow>
   (map_of (handlers (tables s' ! k)) nm \<noteq> None \<longleftrightarrow> fold (installed_after k nm) as (map_of (handlers (tables s ! k)) nm \<noteq> None))"
proof (induction as arbitrary: s)
  case (Cons a as)
  then obtain t where t: "service_do l a s = Some t" "service_run l as t = Some s'" by (cases "service_do l a s") auto
  note h = service_do_handler [OF t(1) Cons.prems(2)]
  show ?case using Cons.IH [OF t(2)] Cons.prems(2) h(2) unfolding fold_simps comp_apply h(1) [symmetric] by simp
qed simp

lemma service_run_length: "service_run l as s = Some s' \<Longrightarrow> length (tables s') = length (tables s)"
proof (induction as arbitrary: s)
  case (Cons a as)
  then obtain t where t: "service_do l a s = Some t" "service_run l as t = Some s'" by (cases "service_do l a s") auto
  then have "length (tables t) = length (tables s)"
    by (cases a) (auto simp: Let_def simp del: net_do.simps split: if_splits)
  with Cons.IH [OF t(2)] show ?case by simp
qed simp

text \<open>The network below does what \<^theory_text>\<open>Network\<close> says.\<close>

lemma service_run_net: "service_run l as s = Some s' \<Longrightarrow> \<exists>bs. net_run l bs (net s) = Some (net s')"
proof (induction as arbitrary: s)
  case Nil
  then show ?case by (intro exI [of _ "[]"]) simp
next
  case (Cons a as)
  then obtain t where t: "service_do l a s = Some t" "service_run l as t = Some s'" by (cases "service_do l a s") auto
  obtain bs where bs: "net_run l bs (net t) = Some (net s')" using Cons.IH [OF t(2)] by blast
  have "net t = net s \<or> (\<exists>b. net_do l b (net s) = Some (net t))"
    using t(1) by (cases a) (auto simp: Let_def simp del: net_do.simps split: if_splits)
  then show ?case
  proof
    assume "\<exists>b. net_do l b (net s) = Some (net t)"
    then obtain b where "net_do l b (net s) = Some (net t)" ..
    with bs show ?thesis by (intro exI [of _ "b # bs"]) simp
  qed (use bs in auto)
qed

section \<open>What is announced was provided\<close>

definition offers_inv :: "'u lan \<Rightarrow> (nat \<times> string) set \<Rightarrow> ('u, 's) service_net \<Rightarrow> bool" where
  "offers_inv l A s \<longleftrightarrow> net_inv l (net s) \<and> length (tables s) = length (sites (net s)) \<and>
     (\<forall>i < length (tables s). \<forall>t \<in> set (services (me (sites (net s) ! i))).
        (i, si_name t) \<in> A \<and> si_ip t = ni_ip (me (sites (net s) ! i)) \<and> si_port t = word_of_int (sm_service_port (tables s ! i)))"

text \<open>Nothing but the announcement of a service changes the services of a node.\<close>

lemma net_do_services:
  assumes "lan_ok l" and "net_inv l s" and "net_do l a s = Some s'" and "\<not> announces_service a"
  shows "services (me (sites s' ! j)) = services (me (sites s ! j)) \<and> ni_ip (me (sites s' ! j)) = ni_ip (me (sites s ! j))"
proof (cases "\<exists>r. a = Announce j r")
  case True
  then obtain r where a: "a = Announce j r" by blast
  then show ?thesis
    using assms(3,4) by (cases r) (auto simp: me_def may_announce_def registerLocalTopic_def Let_def split: if_splits)
next
  case False
  then show ?thesis using net_do_frame(7) [OF assms(1-3), of j] by simp
qed

lemma offers_inv_do:
  assumes lan: "lan_ok l" and inv: "offers_inv l A s" and do: "service_do l a s = Some s'"
    and prov: "\<And>i nm h. a = Provide i nm h \<Longrightarrow> (i, nm) \<in> A"
  shows "offers_inv l A s'"
proof -
  have inv1: "net_inv l (net s)" "length (tables s) = length (sites (net s))" using inv by (simp_all add: offers_inv_def)
  show ?thesis
  proof (cases a)
    case (Net b)
    then have b: "net_do l b (net s) = Some (net s')" "tables s' = tables s" "\<not> announces_service b"
      using do by (auto simp del: net_do.simps split: if_splits)
    from inv b(2) net_inv_do [OF lan inv1(1) b(1)] net_do_frame(1) [OF lan inv1(1) b(1)] net_do_services [OF lan inv1(1) b(1,3)]
    show ?thesis by (simp add: offers_inv_def)
  next
    case (Provide i nm h)
    let ?m = "tables s ! i"
    let ?r = "RegService nm (word_of_int (sm_service_port ?m))"
    let ?m' = "?m\<lparr>handlers := AList.update nm h (handlers ?m)\<rparr>"
    have i: "i < length (tables s)" and n: "net_do l (Announce i ?r) (net s) = Some (net s')" and t: "tables s' = (tables s)[i := ?m']"
      using do Provide by (auto simp: Let_def simp del: net_do.simps split: if_splits)
    have port: "sm_service_port (tables s' ! j) = sm_service_port (tables s ! j)" for j
      by (rule service_do_port [OF do])
    have "net s' = net s\<lparr>sites := (sites (net s))[i := (sites (net s) ! i)\<lparr>nim := register_local (nim (sites (net s) ! i)) ?r\<rparr>]\<rparr>"
      using n by (simp split: if_splits)
    then have m: "me (sites (net s') ! j) = (if j = i
        then localNodeInfo (registerLocalService nm (word_of_int (sm_service_port ?m)) (nim (sites (net s) ! i)))
        else me (sites (net s) ! j))" for j
      using i inv1(2) by (cases "j = i") (simp_all add: me_def)
    have "(i, nm) \<in> A" using prov Provide by blast
    then have "\<forall>j < length (tables s'). \<forall>t \<in> set (services (me (sites (net s') ! j))).
        (j, si_name t) \<in> A \<and> si_ip t = ni_ip (me (sites (net s') ! j)) \<and> si_port t = word_of_int (sm_service_port (tables s' ! j))"
      using inv i t unfolding port m by (auto simp: offers_inv_def me_def registerLocalService_def Let_def)
    then show ?thesis
      using inv1(2) t net_inv_do [OF lan inv1(1) n] net_do_frame(1) [OF lan inv1(1) n] by (simp add: offers_inv_def)
  next
    case (Withdraw i nm)
    then have "net s' = net s" "tables s' = (tables s)[i := removeHandler nm (tables s ! i)]" using do by (auto split: if_splits)
    with inv show ?thesis using service_do_port [OF do] by (simp add: offers_inv_def)
  next
    case (Clear i)
    then have "net s' = net s" "tables s' = (tables s)[i := clearHandlers (tables s ! i)]" using do by (auto split: if_splits)
    with inv show ?thesis using service_do_port [OF do] by (simp add: offers_inv_def)
  qed
qed

lemma offers_inv_run:
  "lan_ok l \<Longrightarrow> offers_inv l A s \<Longrightarrow> service_run l as s = Some s' \<Longrightarrow> provided as \<subseteq> A \<Longrightarrow> offers_inv l A s'"
proof (induction as arbitrary: s)
  case (Cons a as)
  then obtain t where t: "service_do l a s = Some t" "service_run l as t = Some s'" by (cases "service_do l a s") auto
  have "offers_inv l A t" using Cons.prems by (intro offers_inv_do [OF _ _ t(1)]) (auto simp: provided_def)
  moreover have "provided as \<subseteq> A" using Cons.prems(4) by (auto simp: provided_def)
  ultimately show ?case using Cons.IH [OF Cons.prems(1) _ t(2)] by simp
qed simp

lemma offers_inv_start:
  assumes "service_start l s"
  shows "offers_inv l A s"
proof -
  have "services (me (sites (net s) ! i)) = []" if "i < length (sites (net s))" for i
  proof -
    have "sites (net s) ! i \<in> set (sites (net s))" using that by simp
    then obtain draws nm ip grp port where "sites (net s) ! i = new_site draws nm ip grp port"
      using assms unfolding service_start_def net_start_def by blast
    then show ?thesis by simp
  qed
  with assms show ?thesis using net_inv_start by (auto simp: offers_inv_def service_start_def)
qed

section \<open>Requests by name\<close>

text \<open>What the registry finds for a name is announced by the local node or by one it knows.\<close>

lemma found_service:
  assumes "iter_order iter" and "hm_ok (nodes_info s)" and "getServiceInfo iter nm s = Some p"
  obtains t where "deref_socket s p = Some t" "si_name t = nm"
    "t \<in> set (services (localNodeInfo s)) \<or> (\<exists>k info. map_of (nodes_info s) k = Some info \<and> t \<in> set (services info))"
proof -
  obtain t where t: "deref_socket s p = Some t" "si_name t = nm" using getServiceInfo_deref [OF assms] by blast
  moreover have "t \<in> set (services (localNodeInfo s)) \<or> (\<exists>k info. map_of (nodes_info s) k = Some info \<and> t \<in> set (services info))"
  proof (cases p)
    case (RemoteSocket k j)
    with t(1) obtain info where "map_of (nodes_info s) k = Some info" "nth_opt (services info) j = Some t"
      by (auto split: option.splits)
    then show ?thesis by (fastforce simp: nth_opt_def split: if_splits)
  next
    case (LocalSocket j)
    with t(1) show ?thesis by (auto simp: nth_opt_def split: if_splits)
  qed
  ultimately show ?thesis using that by blast
qed

text \<open>The REQ socket reaches every node at its endpoint.\<close>

definition service_url :: "('u, 's) service_net \<Rightarrow> nat \<Rightarrow> string" where
  "service_url s k = tcp_url (ni_ip (me (sites (net s) ! k))) (unat (word_of_int (sm_service_port (tables s ! k)) :: u16))"

lemma found_provider:
  assumes lan: "lan_ok l" and inv: "offers_inv l A s" and i: "i < length (tables s)" and it: "iter_order iter"
    and p: "getServiceInfo iter nm (nim (sites (net s) ! i)) = Some p"
  obtains t k where "deref_socket (nim (sites (net s) ! i)) p = Some t" "k < length (tables s)"
    "(k, nm) \<in> A" "socket_url t = service_url s k"
proof -
  let ?s = "nim (sites (net s) ! i)"
  have n: "net_inv l (net s)" "length (tables s) = length (sites (net s))" using inv by (simp_all add: offers_inv_def)
  then have tidy: "tidy (seen_by (net s) i) ?s (subs (sites (net s) ! i))" using i net_invD(1) by metis
  then have "hm_ok (nodes_info ?s)" by (simp add: tidy_def nim_inv_def)
  from found_service [OF it this p] obtain t where t: "deref_socket ?s p = Some t" "si_name t = nm"
    "t \<in> set (services (localNodeInfo ?s)) \<or> (\<exists>k info. map_of (nodes_info ?s) k = Some info \<and> t \<in> set (services info))" .
  have "\<exists>k < length (tables s). t \<in> set (services (me (sites (net s) ! k)))"
    using t(3)
  proof (elim disjE exE conjE)
    fix key info assume k: "map_of (nodes_info ?s) key = Some info" "t \<in> set (services info)"
    then have "seen_by (net s) i key info" using tidy by (simp add: tidy_def)
    then obtain j where "j < length (tables s)" "earlier info (me (sites (net s) ! j))" using n(2) by (auto simp: seen_by_def)
    with k(2) show ?thesis by (auto simp: earlier_def prefix_def)
  qed (use i in \<open>auto simp: me_def\<close>)
  then obtain k where k: "k < length (tables s)" "t \<in> set (services (me (sites (net s) ! k)))" by blast
  then have "(k, nm) \<in> A" "socket_url t = service_url s k"
    using inv t(2) by (auto simp: offers_inv_def socket_url_def service_url_def)
  with t(1) k(1) that show ?thesis by blast
qed

lemma waitForService_at_once:
  "getServiceInfo iter nm m \<noteq> None \<Longrightarrow> waitForService iter (\<lambda>_. m) nm 1000 10 = Some (Available 0)"
  unfolding waitForService_def by (intro wait_loop_found) auto

section \<open>The name of the internal service\<close>

text \<open>
  Nothing reserves the name \<^verbatim>\<open>get_node_info\<close>: a user's handler of that name takes the place
  of the internal one, and when it cannot read the empty request, or throws on it, every node
  that asks gets the description of a node without name, address, topics and services.
\<close>

lemma internal_service_replaced:
  assumes "connected sock url (registerHandler dec enc ''get_node_info'' func (server l)) s"
    and "enc_empty l Empty = Inr out" and "length out < 2 ^ 64"
    and "dec (view_of out) = Inl e \<or> (\<exists>q. dec (view_of out) = Inr q \<and> fst (func q s) = Inl e)" and "is_std_exception e"
  shows "node_info_request u sock (enc_empty l) (dec_info l) ''get_node_info'' url = Inr (NodeInfo_uninit u)"
proof -
  have "fst (typed_handler dec enc func (view_of out) s) = Inl e"
    using assms(4) by (auto simp: typed_handler_def split: prod.splits)
  with assms(5) show ?thesis
    unfolding node_info_request_def
    by (intro rpc_error_reply [where enc = "enc_empty l" and q = Empty, OF assms(1-3)]) (auto simp: registerHandler_lookup)
qed

section \<open>Properties\<close>


text \<open>Two nodes; the second adds one to a byte, and the first has heard of it.\<close>

definition byte_enc :: "u8 \<Rightarrow> bytes result" where
  "byte_enc b = Inr [b]"

definition byte_dec :: "ByteView \<Rightarrow> u8 \<Rightarrow> u8 result" where
  "byte_dec v b = (case bv_bytes v of [] \<Rightarrow> Inl (DecodeException ''parse error'') | x # xs \<Rightarrow> Inr x)"

definition adder :: "unit handler" where
  "adder = typed_handler (\<lambda>v. byte_dec v 0) byte_enc (\<lambda>q s. (Inr (q + 1), s))"

definition lan_calls :: "unit lan" where
  "lan_calls = book_lan [me site_a, me site_b, localNodeInfo (register_local (nim site_b) (RegService ''add'' 4001))]"

definition start_calls :: "(unit, unit) service_net" where
  "start_calls = \<lparr>net = start_ab, tables = [\<lparr>handlers = [], sm_service_port = 4000\<rparr>, \<lparr>handlers = [], sm_service_port = 4001\<rparr>],
     lost = {}\<rparr>"

text \<open>A REQ socket that reaches whatever is at a URL.\<close>

definition switch :: "(string \<Rightarrow> unit ServiceManager) \<Rightarrow> req_socket" where
  "switch at = (socket_to (at []) ())\<lparr>req_recv := (\<lambda>url. req_recv (socket_to (at url) ()) url)\<rparr>"

lemma connected_switch: "connected (switch at) url (at url) ()"
  using connected_socket_to [of "at url" "()" url] by (simp add: connected_def switch_def socket_to_def)

lemma byte_serializer: "serializer byte_enc byte_dec (\<lambda>_. True)"
  by unfold_locales (simp add: byte_enc_def byte_dec_def)

lemma lan_calls_ok: "lan_ok lan_calls" unfolding lan_calls_def by (rule book_lan_ok) simp

lemma start_calls_ok: "service_start lan_calls start_calls"
  using start_ab_ok
  by (auto simp: service_start_def net_start_def start_calls_def start_ab_def lan_calls_def book_lan_def)

lemma run_calls:
  "\<exists>s. service_run lan_calls [Provide 1 ''add'' adder, Net (Beat 1), Net (Deliver 0 0 1 2 3 True BadAlloc)] start_calls = Some s \<and>
     view (net s) 0 1 = Some (me (sites (net s) ! 1)) \<and> ''add'' \<in> si_name ` set (services (me (sites (net s) ! 1))) \<and>
     tables s = [\<lparr>handlers = [], sm_service_port = 4000\<rparr>, \<lparr>handlers = [(''add'', adder)], sm_service_port = 4001\<rparr>] \<and>
     ni_ip (me (sites (net s) ! 0)) = ''10.0.0.1'' \<and> ni_ip (me (sites (net s) ! 1)) = ''10.0.0.2''"
proof -
  let ?r = "RegService ''add'' 4001"
  let ?b = "site_b\<lparr>nim := register_local (nim site_b) ?r\<rparr>"
  let ?t = "[\<lparr>handlers = [], sm_service_port = 4000\<rparr>, \<lparr>handlers = [(''add'', adder)], sm_service_port = 4001\<rparr>]"
  let ?n = "\<lparr>sites = [site_a, ?b], wire = []\<rparr> :: unit network"
  have new: "topics (me site_a) = []" "topics (me site_b) = []" "services (me site_b) = []"
    by (simp_all add: site_a_def site_b_def)
  have may: "may_announce lan_calls 1 ?r start_ab"
    using new by (auto simp: may_announce_def start_ab_def lan_calls_def book_lan_def endpoints_def less_Suc_eq
        registerLocalService_def me_def Let_def)
  then have do: "net_do lan_calls (Announce 1 ?r) start_ab = Some ?n" by (simp add: start_ab_def)
  then have r1: "service_do lan_calls (Provide 1 ''add'' adder) start_calls = Some \<lparr>net = ?n, tables = ?t, lost = {}\<rparr>"
    by (simp add: start_calls_def Let_def del: net_do.simps)
  have inv0: "net_inv lan_calls start_ab" using start_calls_ok net_inv_start by (auto simp: service_start_def start_calls_def)
  have inv: "net_inv lan_calls ?n" using net_inv_do [OF lan_calls_ok inv0 do] .
  obtain b where b: "snd (heartbeat_tick (byte_order lan_calls 1) (nim (sites ?n ! 1)) []) = [b]"
    using beat_sends [OF inv, of 1] by auto
  let ?n2 = "?n\<lparr>wire := [(1, b)]\<rparr>"
  have r2: "net_do lan_calls (Beat 1) ?n = Some ?n2" using b by simp
  have "\<exists>n3. net_do lan_calls (Deliver 0 0 1 2 3 True BadAlloc) ?n2 = Some n3" by (simp add: Let_def split: prod.split)
  then obtain n3 where r3: "net_do lan_calls (Deliver 0 0 1 2 3 True BadAlloc) ?n2 = Some n3" by blast
  have h: "hears lan_calls ?n 0 1"
    by (simp add: hears_def lan_calls_def book_lan_def site_a_def site_b_def new_site_def SubscriberManager_ctor_def setGroupName_def
        setServicePort_def NodeInfoManager_ctor_def registerLocalService_def MulticastReceiver_ctor_def isInSameSubnet_def Let_def)
  have run2: "net_run lan_calls [Beat 1] ?n = Some ?n2" using r2 by (simp del: net_do.simps)
  have v: "view n3 0 1 = Some (me (sites n3 ! 1))"
    using heartbeat_follows(2) [OF lan_calls_ok inv run2 _ _ _ h, of 1 2 3 BadAlloc n3] r3 by simp
  have run3: "net_run lan_calls [Beat 1, Deliver 0 0 1 2 3 True BadAlloc] ?n = Some n3" using r2 r3 by (simp del: net_do.simps)
  have me: "me (sites n3 ! 0) = me site_a" "me (sites n3 ! 1) = me ?b"
    using net_run_frame [OF lan_calls_ok inv run3, of 0 0] net_run_frame [OF lan_calls_ok inv run3, of 1 1] by simp_all
  have "service_run lan_calls [Provide 1 ''add'' adder, Net (Beat 1), Net (Deliver 0 0 1 2 3 True BadAlloc)] start_calls =
      Some \<lparr>net = n3, tables = ?t, lost = {}\<rparr>"
    using r1 r2 r3 by (simp del: net_do.simps service_do.simps(2))
  moreover have "''add'' \<in> si_name ` set (services (me ?b))" by (simp add: me_def registerLocalService_def Let_def)
  moreover have "ni_ip (me site_a) = ''10.0.0.1''" "ni_ip (me ?b) = ''10.0.0.2''"
    by (simp_all add: site_a_def site_b_def new_site_def me_def SubscriberManager_ctor_def setGroupName_def setServicePort_def
        NodeInfoManager_ctor_def registerLocalService_def Let_def)
  ultimately show ?thesis using v me by (intro exI [of _ "\<lparr>net = n3, tables = ?t, lost = {}\<rparr>"]) simp
qed


end
