(* ===== verification/Buffer_Memory.thy ===== *)
theory Buffer_Memory
  imports Binary_Codec
begin

text \<open>
  \<^verbatim>\<open>ByteBuffer\<close> with its pointer: the heap is a map from addresses to blocks, a buffer holds
  the address of its block, \<^verbatim>\<open>realloc\<close> may move the block and the destructor frees it. An
  access to a freed block, outside a block, or a second \<^verbatim>\<open>free\<close> is \<open>Undefined\<close>. The pointer
  program computes what \<^theory_text>\<open>Binary_Codec\<close> says on values, as long as no buffer is copied.
\<close>

section \<open>Heap and buffers\<close>

type_synonym cells = "u8 option list"
type_synonym cheap = "nat \<Rightarrow> cells option"

record pbuffer =
  b_ptr :: "nat option"
  b_size :: size_t
  b_cap :: size_t

datatype mem_error = Undefined | OutOfScope

definition mbind :: "mem_error + 'a \<Rightarrow> ('a \<Rightarrow> mem_error + 'b) \<Rightarrow> mem_error + 'b" where
  "mbind r f = (case r of Inl e \<Rightarrow> Inl e | Inr x \<Rightarrow> f x)"

lemma mbind_simps [simp]: "mbind (Inl e) f = Inl e" "mbind (Inr x) f = f x"
  by (simp_all add: mbind_def)

definition buf_dtor :: "pbuffer \<Rightarrow> cheap \<Rightarrow> mem_error + cheap" where
  "buf_dtor b h =
     (case b_ptr b of
        None \<Rightarrow> Inr h
      | Some a \<Rightarrow> if h a = None then Inl Undefined else Inr (h(a := None)))"

text \<open>\<^verbatim>\<open>std::realloc\<close> when the allocator answers \<open>a\<close>; of the null pointer it allocates.\<close>

definition realloc_block :: "nat option \<Rightarrow> size_t \<Rightarrow> nat \<Rightarrow> cheap \<Rightarrow> mem_error + cheap" where
  "realloc_block p n a h =
     (case p of
        None \<Rightarrow> Inr (h(a \<mapsto> realloc [] n))
      | Some q \<Rightarrow> (case h q of None \<Rightarrow> Inl Undefined | Some cs \<Rightarrow> Inr ((h(q := None))(a \<mapsto> realloc cs n))))"

definition memcpy_block :: "pbuffer \<Rightarrow> bytes \<Rightarrow> size_t \<Rightarrow> cheap \<Rightarrow> mem_error + cheap" where
  "memcpy_block b buf len h =
     (case b_ptr b of
        None \<Rightarrow> if len = 0 \<and> b_size b = 0 then Inr h else Inl Undefined
      | Some a \<Rightarrow>
          (case h a of
             None \<Rightarrow> Inl Undefined
           | Some cs \<Rightarrow>
               if unat len \<le> length buf \<and> unat (b_size b) + unat len \<le> length cs
               then Inr (h(a \<mapsto> take (unat (b_size b)) cs @ map Some (take (unat len) buf) @ drop (unat (b_size b) + unat len) cs))
               else Inl Undefined))"

text \<open>
  \<^verbatim>\<open>write\<close>. \<open>alloc h p n\<close> is the address of a block of \<open>n\<close> bytes in place of \<open>p\<close>, \<open>None\<close> when
  there is no memory. The exception leaves the buffer as it was.
\<close>

type_synonym allocator = "cheap \<Rightarrow> nat option \<Rightarrow> size_t \<Rightarrow> nat option"

definition buf_write ::
  "allocator \<Rightarrow> pbuffer \<Rightarrow> bytes \<Rightarrow> size_t \<Rightarrow> cheap \<Rightarrow> mem_error + (exn option \<times> pbuffer \<times> cheap)" where
  "buf_write alloc b buf len h =
     (if b_size b + len > b_cap b
      then (let newcap = max (b_cap b * 2) (b_size b + len)
            in case alloc h (b_ptr b) newcap of
                 None \<Rightarrow> Inr (Some BadAlloc, b, h)
               | Some a \<Rightarrow>
                   mbind (realloc_block (b_ptr b) newcap a h) (\<lambda>h1.
                   let b1 = b\<lparr>b_ptr := Some a, b_cap := newcap\<rparr>
                   in mbind (memcpy_block b1 buf len h1) (\<lambda>h2. Inr (None, b1\<lparr>b_size := b_size b1 + len\<rparr>, h2))))
      else mbind (memcpy_block b buf len h) (\<lambda>h1. Inr (None, b\<lparr>b_size := b_size b + len\<rparr>, h1)))"

section \<open>Programs\<close>

text \<open>What code can do to local buffers; \<open>Copy\<close> is the copy constructor C++ generates.\<close>

datatype buf_op = Construct nat | Write nat bytes | Copy nat nat | Destroy nat

record memory =
  heap :: cheap
  bufs :: "nat \<Rightarrow> pbuffer option"

fun buf_do :: "allocator \<Rightarrow> buf_op \<Rightarrow> memory \<Rightarrow> mem_error + memory" where
  "buf_do alloc (Construct v) s =
     (if bufs s v \<noteq> None then Inl OutOfScope
      else Inr (s\<lparr>bufs := (bufs s)(v \<mapsto> \<lparr>b_ptr = None, b_size = 0, b_cap = 0\<rparr>)\<rparr>))"
| "buf_do alloc (Write v bs) s =
     (case bufs s v of
        None \<Rightarrow> Inl OutOfScope
      | Some b \<Rightarrow>
          mbind (buf_write alloc b bs (word_of_nat (length bs)) (heap s)) (\<lambda>(exc, b', h').
          Inr (s\<lparr>heap := h', bufs := (bufs s)(v \<mapsto> b')\<rparr>)))"
| "buf_do alloc (Copy v w) s =
     (case bufs s v of
        None \<Rightarrow> Inl OutOfScope
      | Some b \<Rightarrow> if bufs s w \<noteq> None then Inl OutOfScope else Inr (s\<lparr>bufs := (bufs s)(w \<mapsto> b)\<rparr>))"
| "buf_do alloc (Destroy v) s =
     (case bufs s v of
        None \<Rightarrow> Inl OutOfScope
      | Some b \<Rightarrow> mbind (buf_dtor b (heap s)) (\<lambda>h'. Inr (s\<lparr>heap := h', bufs := (bufs s)(v := None)\<rparr>)))"

fun buf_run :: "allocator \<Rightarrow> buf_op list \<Rightarrow> memory \<Rightarrow> mem_error + memory" where
  "buf_run alloc [] s = Inr s"
| "buf_run alloc (x # xs) s = mbind (buf_do alloc x s) (buf_run alloc xs)"

definition no_memory :: memory where
  "no_memory = \<lparr>heap = (\<lambda>_. None), bufs = (\<lambda>_. None)\<rparr>"

text \<open>The same program on values: a map from variables to what was written.\<close>

fun value_do :: "buf_op \<Rightarrow> (nat \<Rightarrow> bytes option) \<Rightarrow> (nat \<Rightarrow> bytes option) option" where
  "value_do (Construct v) m = (if m v \<noteq> None then None else Some (m(v \<mapsto> [])))"
| "value_do (Write v bs) m = map_option (\<lambda>c. m(v \<mapsto> c @ bs)) (m v)"
| "value_do (Copy v w) m = (if m w \<noteq> None then None else map_option (\<lambda>c. m(w \<mapsto> c)) (m v))"
| "value_do (Destroy v) m = (if m v = None then None else Some (m(v := None)))"

fun value_run :: "buf_op list \<Rightarrow> (nat \<Rightarrow> bytes option) \<Rightarrow> (nat \<Rightarrow> bytes option) option" where
  "value_run [] m = Some m"
| "value_run (x # xs) m = Option.bind (value_do x m) (value_run xs)"

section \<open>A buffer with a pointer refines the buffer as a value\<close>

definition buf_abs :: "cheap \<Rightarrow> pbuffer \<Rightarrow> ByteBuffer" where
  "buf_abs h b = \<lparr>bb_data = (case b_ptr b of None \<Rightarrow> [] | Some a \<Rightarrow> the (h a)), bb_size = b_size b, bb_capacity = b_cap b\<rparr>"

definition buf_live :: "cheap \<Rightarrow> pbuffer \<Rightarrow> bool" where
  "buf_live h b \<longleftrightarrow> (\<forall>a. b_ptr b = Some a \<longrightarrow> h a \<noteq> None)"

lemma memcpy_refines:
  assumes "buf_live h b"
  shows "mbind (memcpy_block b buf len h) (\<lambda>h1. Inr (buf_abs h1 (b\<lparr>b_size := b_size b + len\<rparr>))) =
     (case memcpy_in (buf_abs h b) buf len of Written w \<Rightarrow> Inr w | _ \<Rightarrow> Inl Undefined)"
  using assms
  by (auto simp: memcpy_block_def memcpy_in_def buf_abs_def buf_live_def unat_eq_zero split: option.splits)

lemma write_refines:
  assumes "buf_live h b"
  shows "mbind (buf_write alloc b buf len h) (\<lambda>(exc, b', h'). Inr (exc, buf_abs h' b')) =
     (case bb_write (\<lambda>n. alloc h (b_ptr b) n \<noteq> None) (buf_abs h b) buf len of
        Written w \<Rightarrow> Inr (None, w)
      | ThrewBadAlloc w \<Rightarrow> Inr (Some BadAlloc, w)
      | OutOfBounds \<Rightarrow> Inl Undefined)"
proof (cases "b_size b + len > b_cap b")
  case False
  then have "bb_write ok (buf_abs h b) buf len = memcpy_in (buf_abs h b) buf len" for ok
    by (simp add: bb_write_def buf_abs_def)
  moreover have "buf_write alloc b buf len h =
      mbind (memcpy_block b buf len h) (\<lambda>h1. Inr (None, b\<lparr>b_size := b_size b + len\<rparr>, h1))"
    using False by (simp add: buf_write_def)
  ultimately show ?thesis using memcpy_refines [OF assms, of buf len]
    by (cases "memcpy_block b buf len h") (auto split: write_result.splits simp: memcpy_in_def split: if_splits)
next
  case True
  let ?n = "max (b_cap b * 2) (b_size b + len)"
  show ?thesis
  proof (cases "alloc h (b_ptr b) ?n")
    case None
    with True show ?thesis by (simp add: buf_write_def bb_write_def buf_abs_def Let_def)
  next
    case (Some a)
    let ?b = "b\<lparr>b_ptr := Some a, b_cap := ?n\<rparr>"
    obtain h1 where h1: "realloc_block (b_ptr b) ?n a h = Inr h1" "buf_live h1 ?b"
      "buf_abs h1 ?b = (buf_abs h b)\<lparr>bb_data := realloc (bb_data (buf_abs h b)) ?n, bb_capacity := ?n\<rparr>"
      using assms by (cases "b_ptr b") (auto simp: realloc_block_def buf_live_def buf_abs_def)
    have "bb_write (\<lambda>n. alloc h (b_ptr b) n \<noteq> None) (buf_abs h b) buf len = memcpy_in (buf_abs h1 ?b) buf len"
      using True Some unfolding h1(3) by (simp add: bb_write_def buf_abs_def Let_def)
    moreover have "buf_write alloc b buf len h =
        mbind (memcpy_block ?b buf len h1) (\<lambda>h2. Inr (None, ?b\<lparr>b_size := b_size ?b + len\<rparr>, h2))"
      using True Some h1(1) by (simp add: buf_write_def Let_def)
    ultimately show ?thesis using memcpy_refines [OF h1(2), of buf len]
      by (cases "memcpy_block ?b buf len h1") (auto split: write_result.splits simp: memcpy_in_def split: if_splits)
  qed
qed

section \<open>One owner per block\<close>

text \<open>What a write may touch: the block of the buffer, which may move to a free address.\<close>

definition allocator_ok :: "allocator \<Rightarrow> bool" where
  "allocator_ok alloc \<longleftrightarrow> (\<forall>h p n a. alloc h p n = Some a \<longrightarrow> h a = None \<or> p = Some a)"

lemma write_frame:
  assumes "allocator_ok alloc" and "buf_live h b" and w: "buf_write alloc b buf len h = Inr (exc, b', h')"
  shows "\<And>x. b_ptr b \<noteq> Some x \<Longrightarrow> h x \<noteq> None \<Longrightarrow> h' x = h x"
    and "\<And>x. h' x \<noteq> None \<Longrightarrow> b_ptr b' = Some x \<or> h x \<noteq> None \<and> b_ptr b \<noteq> Some x"
    and "buf_live h' b'"
    and "\<And>x. b_ptr b' = Some x \<Longrightarrow> b_ptr b = Some x \<or> h x = None"
proof -
  have mc: "(\<forall>x. b_ptr c \<noteq> Some x \<longrightarrow> k' x = k x) \<and> (\<forall>x. k' x = None \<longleftrightarrow> k x = None)"
    if "memcpy_block c buf len k = Inr k'" for c k k'
    using that by (auto simp: memcpy_block_def split: option.splits if_splits)
  have "(\<forall>x. b_ptr b \<noteq> Some x \<longrightarrow> h x \<noteq> None \<longrightarrow> h' x = h x) \<and>
    (\<forall>x. h' x \<noteq> None \<longrightarrow> b_ptr b' = Some x \<or> h x \<noteq> None \<and> b_ptr b \<noteq> Some x) \<and> buf_live h' b' \<and>
    (\<forall>x. b_ptr b' = Some x \<longrightarrow> b_ptr b = Some x \<or> h x = None)"
  proof (cases "b_size b + len > b_cap b")
    case False
    then obtain h1 where "memcpy_block b buf len h = Inr h1" "h' = h1" "b_ptr b' = b_ptr b"
      using w by (cases "memcpy_block b buf len h") (auto simp: buf_write_def)
    with mc [of b h h1] assms(2) show ?thesis by (auto simp: buf_live_def)
  next
    case True
    let ?n = "max (b_cap b * 2) (b_size b + len)"
    show ?thesis
    proof (cases "alloc h (b_ptr b) ?n")
      case None
      with True w assms(2) show ?thesis by (auto simp: buf_write_def Let_def)
    next
      case (Some a)
      then have a: "h a = None \<or> b_ptr b = Some a" using assms(1) by (auto simp: allocator_ok_def)
      let ?b = "b\<lparr>b_ptr := Some a, b_cap := ?n\<rparr>"
      obtain h1 where h1: "realloc_block (b_ptr b) ?n a h = Inr h1" "memcpy_block ?b buf len h1 = Inr h'" "b_ptr b' = Some a"
        using w True Some by (cases "realloc_block (b_ptr b) ?n a h"; cases "memcpy_block ?b buf len (projr (realloc_block (b_ptr b) ?n a h))")
          (auto simp: buf_write_def Let_def)
      have r: "h1 a \<noteq> None" "\<And>x. x \<noteq> a \<Longrightarrow> h1 x = (if b_ptr b = Some x then None else h x)"
        using h1(1) by (auto simp: realloc_block_def split: option.splits)
      note m = mc [OF h1(2)]
      show ?thesis
      proof (intro conjI allI impI)
        fix x assume "b_ptr b \<noteq> Some x" "h x \<noteq> None"
        then show "h' x = h x" using a r(2) [of x] m by (cases "x = a") auto
      next
        fix x assume "h' x \<noteq> None"
        then have x: "h1 x \<noteq> None" using m by simp
        show "b_ptr b' = Some x \<or> h x \<noteq> None \<and> b_ptr b \<noteq> Some x"
        proof (cases "x = a")
          case False
          from x [unfolded r(2) [OF False]] show ?thesis by (simp split: if_splits)
        qed (simp add: h1(3))
      next
        show "buf_live h' b'" using h1(3) r(1) m by (simp add: buf_live_def)
      next
        fix x assume "b_ptr b' = Some x"
        then show "b_ptr b = Some x \<or> h x = None" using h1(3) a by auto
      qed
    qed
  qed
  then show "\<And>x. b_ptr b \<noteq> Some x \<Longrightarrow> h x \<noteq> None \<Longrightarrow> h' x = h x"
    "\<And>x. h' x \<noteq> None \<Longrightarrow> b_ptr b' = Some x \<or> h x \<noteq> None \<and> b_ptr b \<noteq> Some x" "buf_live h' b'"
    "\<And>x. b_ptr b' = Some x \<Longrightarrow> b_ptr b = Some x \<or> h x = None" by simp_all
qed

text \<open>
  Every buffer's block is allocated, no two buffers share one, and no block is without a buffer.
\<close>

definition owned :: "memory \<Rightarrow> bool" where
  "owned s \<longleftrightarrow> (\<forall>v b. bufs s v = Some b \<longrightarrow> buf_live (heap s) b) \<and>
     (\<forall>v w b c a. bufs s v = Some b \<longrightarrow> bufs s w = Some c \<longrightarrow> b_ptr b = Some a \<longrightarrow> b_ptr c = Some a \<longrightarrow> v = w) \<and>
     (\<forall>a. heap s a \<noteq> None \<longrightarrow> (\<exists>v b. bufs s v = Some b \<and> b_ptr b = Some a))"

text \<open>The buffers are well formed and have room for \<open>k\<close> more bytes in a \<^verbatim>\<open>size_t\<close>.\<close>

definition fits :: "nat \<Rightarrow> memory \<Rightarrow> bool" where
  "fits k s \<longleftrightarrow> k < 2 ^ 64 \<and> (\<forall>v b. bufs s v = Some b \<longrightarrow> bb_inv (buf_abs (heap s) b) \<and> unat (b_size b) + k < 2 ^ 64)"

fun op_load :: "buf_op \<Rightarrow> nat" where
  "op_load (Write v bs) = length bs"
| "op_load _ = 0"

definition load :: "buf_op list \<Rightarrow> nat" where
  "load xs = sum_list (map op_load xs)"

fun is_copy :: "buf_op \<Rightarrow> bool" where
  "is_copy (Copy v w) = True"
| "is_copy _ = False"

definition contents :: "memory \<Rightarrow> nat \<Rightarrow> bytes option" where
  "contents s v = map_option (\<lambda>b. bb_contents (buf_abs (heap s) b)) (bufs s v)"

definition never_full :: "allocator \<Rightarrow> bool" where
  "never_full alloc \<longleftrightarrow> (\<forall>h p n. alloc h p n \<noteq> None)"

lemma buf_abs_cong: "(\<And>a. b_ptr b = Some a \<Longrightarrow> h' a = h a) \<Longrightarrow> buf_abs h' b = buf_abs h b"
  by (cases "b_ptr b") (auto simp: buf_abs_def)

lemma write_step:
  assumes alloc: "allocator_ok alloc" and o: "owned s" and f: "fits (length bs + k) s" and b: "bufs s v = Some b"
  shows "\<exists>exc b' h'. buf_write alloc b bs (word_of_nat (length bs)) (heap s) = Inr (exc, b', h') \<and>
     (let s' = s\<lparr>heap := h', bufs := (bufs s)(v \<mapsto> b')\<rparr>
      in owned s' \<and> fits k s' \<and> (never_full alloc \<longrightarrow> contents s' = (contents s)(v \<mapsto> the (contents s v) @ bs)))"
proof -
  let ?w = "buf_write alloc b bs (word_of_nat (length bs)) (heap s)"
  have live: "buf_live (heap s) b" using o b by (simp add: owned_def)
  have inv: "bb_inv (buf_abs (heap s) b)" "unat (bb_size (buf_abs (heap s) b)) + length bs < 2 ^ 64"
    "unat (b_size b) + length bs + k < 2 ^ 64"
  proof -
    have "bb_inv (buf_abs (heap s) b) \<and> unat (b_size b) + (length bs + k) < 2 ^ 64" using f b unfolding fits_def by blast
    then show "bb_inv (buf_abs (heap s) b)" "unat (bb_size (buf_abs (heap s) b)) + length bs < 2 ^ 64"
      "unat (b_size b) + length bs + k < 2 ^ 64" by (simp_all add: buf_abs_def)
  qed
  note ref = write_refines [OF live, of alloc bs "word_of_nat (length bs)"]
  obtain exc b' h' where w: "?w = Inr (exc, b', h')" and good: "bb_inv (buf_abs h' b')" "unat (b_size b') \<le> unat (b_size b) + length bs"
    and new: "never_full alloc \<Longrightarrow> bb_contents (buf_abs h' b') = bb_contents (buf_abs (heap s) b) @ bs"
  proof (rule bb_write_outcomes [OF inv(1,2), where alloc_ok = "\<lambda>n. alloc (heap s) (b_ptr b) n \<noteq> None"])
    fix w assume a: "bb_write (\<lambda>n. alloc (heap s) (b_ptr b) n \<noteq> None) (buf_abs (heap s) b) bs (word_of_nat (length bs)) = Written w"
      "bb_inv w" "bb_contents w = bb_contents (buf_abs (heap s) b) @ bs"
    then obtain b' h' where r: "?w = Inr (None, b', h')" "buf_abs h' b' = w" using ref by (cases ?w) auto
    have "unat (bb_size w) = unat (bb_size (buf_abs (heap s) b)) + length bs"
      using bb_contents_length [OF a(2)] bb_contents_length [OF inv(1)] a(3) by simp
    then have "unat (b_size b') \<le> unat (b_size b) + length bs" using r(2) by (auto simp: buf_abs_def)
    then show thesis using that [OF r(1)] r(2) a by simp
  next
    fix n assume a: "bb_write (\<lambda>n. alloc (heap s) (b_ptr b) n \<noteq> None) (buf_abs (heap s) b) bs (word_of_nat (length bs)) =
        ThrewBadAlloc (buf_abs (heap s) b)" "\<not> alloc (heap s) (b_ptr b) n \<noteq> None"
    then obtain b' h' where r: "?w = Inr (Some BadAlloc, b', h')" "buf_abs h' b' = buf_abs (heap s) b" using ref by (cases ?w) auto
    have "b_size b' = b_size b" using r(2) by (simp add: buf_abs_def)
    moreover have "\<not> never_full alloc" using a(2) unfolding never_full_def by blast
    ultimately show thesis using that [OF r(1)] r(2) inv(1) by simp
  qed
  note fr = write_frame [OF alloc live w]
  let ?s = "s\<lparr>heap := h', bufs := (bufs s)(v \<mapsto> b')\<rparr>"
  have other: "b_ptr b \<noteq> Some a \<and> h' a = heap s a \<and> h' a \<noteq> None \<and> b_ptr b' \<noteq> Some a"
    if "bufs s u = Some c" "u \<noteq> v" "b_ptr c = Some a" for u c a
  proof -
    have "heap s a \<noteq> None" using o that by (auto simp: owned_def buf_live_def)
    moreover have "b_ptr b \<noteq> Some a" using o that b unfolding owned_def by metis
    ultimately show ?thesis using fr(1,4) [of a] by auto
  qed
  then have abs: "buf_abs h' c = buf_abs (heap s) c" if "bufs s u = Some c" "u \<noteq> v" for u c
    using that by (intro buf_abs_cong) auto
  have "owned ?s" unfolding owned_def
  proof (intro conjI allI impI)
    fix u c assume "bufs ?s u = Some c"
    show "buf_live (heap ?s) c"
    proof (cases "u = v")
      case False
      with \<open>bufs ?s u = Some c\<close> have u: "bufs s u = Some c" by simp
      have "h' a \<noteq> None" if "b_ptr c = Some a" for a using other [OF u False that] by blast
      then show ?thesis by (simp add: buf_live_def)
    qed (use \<open>bufs ?s u = Some c\<close> fr(3) in simp)
  next
    fix u1 u2 c1 c2 a assume a: "bufs ?s u1 = Some c1" "bufs ?s u2 = Some c2" "b_ptr c1 = Some a" "b_ptr c2 = Some a"
    show "u1 = u2"
    proof (cases "u1 = v \<or> u2 = v")
      case True
      then show ?thesis using a other by (auto split: if_splits)
    next
      case False
      then show ?thesis using a o unfolding owned_def by simp
    qed
  next
    fix a assume "heap ?s a \<noteq> None"
    then have "b_ptr b' = Some a \<or> heap s a \<noteq> None \<and> b_ptr b \<noteq> Some a" using fr(2) by simp
    then show "\<exists>u c. bufs ?s u = Some c \<and> b_ptr c = Some a"
    proof (elim disjE conjE)
      assume "heap s a \<noteq> None" "b_ptr b \<noteq> Some a"
      moreover from this obtain u c where "bufs s u = Some c" "b_ptr c = Some a" using o unfolding owned_def by blast
      ultimately have "u \<noteq> v" using b by auto
      with \<open>bufs s u = Some c\<close> \<open>b_ptr c = Some a\<close> show ?thesis by (intro exI [of _ u] exI [of _ c]) simp
    qed (intro exI [of _ v] exI [of _ b'], simp)
  qed
  moreover have "fits k ?s" unfolding fits_def
  proof (intro conjI allI impI)
    show "k < 2 ^ 64" using f by (simp add: fits_def)
    fix u c assume c: "bufs ?s u = Some c"
    have "bb_inv (buf_abs h' c) \<and> unat (b_size c) + k < 2 ^ 64"
    proof (cases "u = v")
      case True
      then show ?thesis using c good inv(3) by simp
    next
      case False
      then have "bb_inv (buf_abs (heap s) c) \<and> unat (b_size c) + (length bs + k) < 2 ^ 64" using f c unfolding fits_def by simp
      then show ?thesis using abs [of u c] c False by simp
    qed
    then show "bb_inv (buf_abs (heap ?s) c)" "unat (b_size c) + k < 2 ^ 64" by simp_all
  qed
  moreover have "contents ?s = (contents s)(v \<mapsto> the (contents s v) @ bs)" if "never_full alloc"
    using new [OF that] abs b by (auto simp: contents_def fun_eq_iff map_option_case split: option.splits)
  ultimately show ?thesis using w by (simp add: Let_def)
qed

lemma buf_step:
  assumes alloc: "allocator_ok alloc" and o: "owned s" and f: "fits (op_load x + k) s" and x: "\<not> is_copy x"
  shows "buf_do alloc x s = Inl OutOfScope \<and> value_do x (contents s) = None \<or>
     (\<exists>s'. buf_do alloc x s = Inr s' \<and> owned s' \<and> fits k s' \<and> value_do x (contents s) \<noteq> None \<and>
        (never_full alloc \<longrightarrow> value_do x (contents s) = Some (contents s')))"
proof (cases x)
  case (Construct v)
  let ?b = "\<lparr>b_ptr = None, b_size = 0, b_cap = 0\<rparr>"
  let ?s = "s\<lparr>bufs := (bufs s)(v \<mapsto> ?b)\<rparr>"
  have b: "buf_abs (heap s) ?b = bb_empty" by (simp add: buf_abs_def bb_empty_def)
  show ?thesis
  proof (cases "bufs s v")
    case None
    have "owned ?s" unfolding owned_def
    proof (intro conjI allI impI)
      fix u c assume "bufs ?s u = Some c"
      then show "buf_live (heap ?s) c" using o by (auto simp: owned_def buf_live_def split: if_splits)
    next
      fix u w b c a assume "bufs ?s u = Some b" "bufs ?s w = Some c" "b_ptr b = Some a" "b_ptr c = Some a"
      then show "u = w" using o unfolding owned_def by (auto split: if_splits)
    next
      fix a assume "heap ?s a \<noteq> None"
      then obtain u c where "bufs s u = Some c" "b_ptr c = Some a" using o unfolding owned_def by auto
      then show "\<exists>u c. bufs ?s u = Some c \<and> b_ptr c = Some a" using None by (intro exI [of _ u] exI [of _ c]) auto
    qed
    moreover have "fits k ?s" using f Construct b bb_empty_inv by (auto simp: fits_def)
    moreover have "contents ?s = (contents s)(v \<mapsto> [])" using b by (auto simp: contents_def fun_eq_iff)
    moreover have "contents s v = None" using None by (simp add: contents_def)
    ultimately show ?thesis using None Construct by simp
  next
    case (Some b)
    then show ?thesis using Construct by (simp add: contents_def)
  qed
next
  case (Write v bs)
  show ?thesis
  proof (cases "bufs s v")
    case None
    then show ?thesis using Write by (simp add: contents_def)
  next
    case (Some b)
    have "fits (length bs + k) s" using f Write by simp
    from write_step [OF alloc o this Some] obtain exc b' h' where
      w: "buf_write alloc b bs (word_of_nat (length bs)) (heap s) = Inr (exc, b', h')"
      "owned (s\<lparr>heap := h', bufs := (bufs s)(v \<mapsto> b')\<rparr>)" "fits k (s\<lparr>heap := h', bufs := (bufs s)(v \<mapsto> b')\<rparr>)"
      "never_full alloc \<longrightarrow> contents (s\<lparr>heap := h', bufs := (bufs s)(v \<mapsto> b')\<rparr>) = (contents s)(v \<mapsto> the (contents s v) @ bs)"
      by (auto simp: Let_def)
    moreover have "contents s v \<noteq> None" using Some by (simp add: contents_def)
    ultimately show ?thesis using Some Write by auto
  qed
next
  case (Destroy v)
  show ?thesis
  proof (cases "bufs s v")
    case None
    then show ?thesis using Destroy by (simp add: contents_def)
  next
    case (Some b)
    let ?h = "(case b_ptr b of None \<Rightarrow> heap s | Some a \<Rightarrow> (heap s)(a := None))"
    let ?s = "s\<lparr>heap := ?h, bufs := (bufs s)(v := None)\<rparr>"
    have "buf_live (heap s) b" using o Some by (simp add: owned_def)
    then have d: "buf_do alloc x s = Inr ?s"
      using Destroy Some by (auto simp: buf_dtor_def buf_live_def split: option.splits)
    have other: "?h a = heap s a" if "bufs s u = Some c" "u \<noteq> v" "b_ptr c = Some a" for u c a
    proof -
      have "b_ptr b \<noteq> Some a" using o that Some unfolding owned_def by metis
      then show ?thesis by (auto split: option.splits)
    qed
    then have abs: "buf_abs ?h c = buf_abs (heap s) c" if "bufs s u = Some c" "u \<noteq> v" for u c
      using that by (intro buf_abs_cong) blast
    have "owned ?s" unfolding owned_def
    proof (intro conjI allI impI)
      fix u c assume "bufs ?s u = Some c"
      then have u: "bufs s u = Some c" "u \<noteq> v" by (auto split: if_splits)
      then have "buf_live (heap s) c" using o unfolding owned_def by blast
      then show "buf_live (heap ?s) c" using other [OF u] unfolding buf_live_def by simp
    next
      fix u w b c a assume "bufs ?s u = Some b" "bufs ?s w = Some c" "b_ptr b = Some a" "b_ptr c = Some a"
      then show "u = w" using o unfolding owned_def by (auto split: if_splits)
    next
      fix a assume "heap ?s a \<noteq> None"
      then have a: "heap s a \<noteq> None" "b_ptr b \<noteq> Some a" by (auto split: option.splits if_splits)
      then obtain u c where "bufs s u = Some c" "b_ptr c = Some a" using o unfolding owned_def by blast
      with a(2) Some show "\<exists>u c. bufs ?s u = Some c \<and> b_ptr c = Some a" by (intro exI [of _ u] exI [of _ c]) auto
    qed
    moreover have "fits k ?s" using f Destroy abs by (auto simp: fits_def split: if_splits)
    moreover have "contents ?s = (contents s)(v := None)" using abs by (auto simp: contents_def fun_eq_iff map_option_case split: option.splits)
    moreover have "contents s v \<noteq> None" using Some by (simp add: contents_def)
    ultimately show ?thesis using d Destroy by simp
  qed
qed (use x in simp)

lemma buf_run_owned:
  "allocator_ok alloc \<Longrightarrow> owned s \<Longrightarrow> fits (load xs) s \<Longrightarrow> \<forall>x \<in> set xs. \<not> is_copy x \<Longrightarrow>
   buf_run alloc xs s = Inl OutOfScope \<or> (\<exists>s'. buf_run alloc xs s = Inr s' \<and> owned s')"
proof (induction xs arbitrary: s)
  case (Cons x xs)
  have "fits (op_load x + load xs) s" "\<not> is_copy x" using Cons.prems(3,4) by (simp_all add: load_def)
  from buf_step [OF Cons.prems(1,2) this] show ?case
  proof (elim disjE conjE exE)
    fix s' assume s': "buf_do alloc x s = Inr s'" "owned s'" "fits (load xs) s'"
    from Cons.IH [OF Cons.prems(1) s'(2,3)] Cons.prems(4) s'(1) show ?thesis by simp
  qed simp
qed simp

lemma buf_run_values:
  "allocator_ok alloc \<Longrightarrow> never_full alloc \<Longrightarrow> owned s \<Longrightarrow> fits (load xs) s \<Longrightarrow> \<forall>x \<in> set xs. \<not> is_copy x \<Longrightarrow>
   (case value_run xs (contents s) of
      None \<Rightarrow> buf_run alloc xs s = Inl OutOfScope
    | Some m \<Rightarrow> \<exists>s'. buf_run alloc xs s = Inr s' \<and> owned s' \<and> contents s' = m)"
proof (induction xs arbitrary: s)
  case (Cons x xs)
  have "fits (op_load x + load xs) s" "\<not> is_copy x" using Cons.prems(4,5) by (simp_all add: load_def)
  from buf_step [OF Cons.prems(1,3) this] Cons.prems(2) show ?case
  proof (elim disjE conjE exE)
    fix s' assume s': "buf_do alloc x s = Inr s'" "owned s'" "fits (load xs) s'"
      "never_full alloc \<longrightarrow> value_do x (contents s) = Some (contents s')"
    have e: "value_run (x # xs) (contents s) = value_run xs (contents s')" "buf_run alloc (x # xs) s = buf_run alloc xs s'"
      using s'(1,4) Cons.prems(2) by simp_all
    have nc: "\<forall>x \<in> set xs. \<not> is_copy x" using Cons.prems(5) by simp
    show ?thesis unfolding e by (rule Cons.IH [OF Cons.prems(1,2) s'(2,3) nc])
  qed simp
qed simp

lemma no_memory_start: "owned no_memory" "contents no_memory = Map.empty" "k < 2 ^ 64 \<Longrightarrow> fits k no_memory"
  by (simp_all add: owned_def no_memory_def contents_def fun_eq_iff fits_def)

section \<open>Properties\<close>


text \<open>An allocator that takes the first free of a hundred addresses, and two buffers.\<close>

definition first_free :: allocator where
  "first_free h p n = find (\<lambda>a. h a = None) [0 ..< 100]"

lemma first_free_ok: "allocator_ok first_free"
  by (auto simp: allocator_ok_def first_free_def find_Some_iff)


end
