(* ===== verification/Spec2Isabelle.thy ===== *)
theory Spec2Isabelle
  imports Publisher Discovery Thread_Pool Periodic_Task Lifecycle Api Concurrency
    Pool_Sync Service_Loop Link_Interleaving Poll_Pointers Data_Races Node_Runtime Examples Python_Bindings
    Network Membership Hash_Order Pubsub Exact_Links Remote_Calls Buffer_Memory
begin

text \<open>
  \<^bold>\<open>A verification library for ZeroLanCom.\<close>

  ZeroLanCom connects the nodes of a local network. Every node multicasts a heartbeat once a
  second; a node that sees an unknown node, or a known one with a new version number, asks it for
  its description through an internal RPC service, keeps it in a registry and connects the
  subscribers of the announced topics. Users publish and subscribe to topics and register and
  call services. ZeroMQ carries the messages, msgpack serialises them, spdlog logs.

  \<^bold>\<open>How the code is modelled.\<close> Every function is a function on explicit state that returns the
  new state and, where the code may throw, the exception (\<open>exn option\<close> or \<open>exn + 'a\<close>). Bytes,
  ports and version numbers are words of their width. Memory that the code manages itself (byte
  buffers, views, pointers into the registry) is explicit, and an access outside it is a value;
  a variable without initialiser holds any value.
  Code outside the repository is an argument: what ZeroMQ sockets return or throw, msgpack's
  packing and unpacking, \<open>inet_aton\<close>, the allocator, the clock, the random numbers, the order
  in which a hash map is visited, the outcome of constructors. What is assumed of it stands in
  the theorems, for example \<open>msgpack_type\<close> (a packed value unpacks to itself), \<open>connected\<close> (REQ
  and REP frames arrive), \<open>iter_order\<close> (a map is visited entry by entry), \<open>lan_ok\<close> (these three
  for all nodes of a network). Frames of a publisher may be lost but are not reordered; node ids
  differ and a bound port belongs to one node.

  \<^bold>\<open>The theories\<close>, in the order of the dependencies:
  \<^item> \<^theory_text>\<open>Prelude\<close>: types, rule collections, decimal numbers, hash maps, reachable states and the
    locale \<open>safe_system\<close> of inductive invariants, interpreted by every component that runs by
    steps.
  \<^item> \<^theory_text>\<open>Exceptions\<close>: \<^verbatim>\<open>utils/exception.hpp\<close>, the exceptions of the standard library and of
    ZeroMQ that the code meets, \<^verbatim>\<open>std::stoi\<close>.
  \<^item> \<^theory_text>\<open>Binary_Codec\<close>: \<^verbatim>\<open>serialization/binary_codec\<close>. The growing buffer collects what is
    written and never writes outside its block; service names are decoded within bounds.
  \<^item> \<^theory_text>\<open>Buffer_Memory\<close>: the same buffer as a pointer into a heap, with \<^verbatim>\<open>realloc\<close> and the
    destructor. Programs with any number of buffers refine programs on values and own their
    memory, as long as no buffer is copied.
  \<^item> \<^theory_text>\<open>Msgpack_Codec\<close>: \<^verbatim>\<open>serialization/msppack_codec.hpp\<close>. Locale \<open>serializer\<close>, the contract
    of a message type; locale \<open>msgpack_type\<close>, what msgpack gives; the model's \<open>encode\<close> and
    \<open>decode\<close> meet the contract by a sublocale, and the \<^verbatim>\<open>Empty\<close> adaptors interpret it.
  \<^item> \<^theory_text>\<open>Byte_Order\<close>, \<^theory_text>\<open>Heartbeat\<close>: \<^verbatim>\<open>nodes/heartbeat_message\<close>. Locale \<open>wire_format\<close>,
    interpreted on the heartbeat codec for every pair of byte orders.
  \<^item> \<^theory_text>\<open>Uuid\<close>, \<^theory_text>\<open>Net_Utils\<close>, \<^theory_text>\<open>Node_Info\<close>: \<^verbatim>\<open>utils/message.hpp\<close>, the helpers of
    \<^verbatim>\<open>utils/zmq_utils.hpp\<close>, \<^verbatim>\<open>nodes/node_info\<close>.
  \<^item> \<^theory_text>\<open>Event\<close>: \<^verbatim>\<open>utils/event.hpp\<close>. Locale \<open>observable\<close>, interpreted on the event.
  \<^item> \<^theory_text>\<open>Node_Info_Manager\<close>: \<^verbatim>\<open>nodes/node_info_manager\<close>, the registry. Its critical sections are
    the steps of \<open>nim_step\<close>; the invariant \<open>nim_inv\<close> holds in every reachable state; each
    operation is characterised on every branch; locale \<open>node_directory\<close> is interpreted on it.
  \<^item> \<^theory_text>\<open>Subscriber_Manager\<close>: \<^verbatim>\<open>sockets/subscriber_manager\<close>. A socket is the list of calls made
    on it, and has one connection to an endpoint; when the remembered publishers are its
    connections and when not; the handlers refine the abstract table of links (locale
    \<open>topic_follower\<close>).
  \<^item> \<^theory_text>\<open>Service_Manager\<close>, \<^theory_text>\<open>Client\<close>: \<^verbatim>\<open>sockets/service_manager\<close>, \<^verbatim>\<open>utils/request_result.hpp\<close>,
    \<^verbatim>\<open>sockets/client\<close>. Requests on every branch (locale \<open>handler_table\<close>), RPC end to end,
    what a caller sees of failures.
  \<^item> \<^theory_text>\<open>Publisher\<close>: \<^verbatim>\<open>sockets/publisher.hpp\<close>, construction and announcement.
  \<^item> \<^theory_text>\<open>Multicast\<close>, \<^theory_text>\<open>Discovery\<close>: \<^verbatim>\<open>nodes/multicast\<close>, the sender's and the receiver's task, and
    the two-node theorem that composes heartbeat, request, registry and links.
  \<^item> \<^theory_text>\<open>Thread_Pool\<close>, \<^theory_text>\<open>Periodic_Task\<close>: \<^verbatim>\<open>utils/thread_pool.hpp\<close>, \<^verbatim>\<open>utils/periodic_task.hpp\<close>
    as interleaved steps of workers and callers: accounting, draining, termination and the two
    races.
  \<^item> \<^theory_text>\<open>Singleton\<close>, \<^theory_text>\<open>Logger\<close>, \<^theory_text>\<open>Lifecycle\<close>: \<^verbatim>\<open>utils/singleton.hpp\<close> (locale \<open>single_instance\<close>,
    interpreted for both kinds of initialisation), the ZeroMQ context, \<^verbatim>\<open>utils/logger\<close>,
    \<^verbatim>\<open>nodes/zerolancom_node\<close> and \<^verbatim>\<open>init\<close>, \<^verbatim>\<open>shutdown\<close>, \<^verbatim>\<open>spin\<close>: order of
    construction and destruction, failures on the way.
  \<^item> \<^theory_text>\<open>Api\<close>: the other calls of \<^verbatim>\<open>zerolancom.hpp\<close>, with the termination of
    \<^verbatim>\<open>waitForService\<close>.
  \<^item> \<^theory_text>\<open>Concurrency\<close>: the mutexes. Calls that evict no node take them in one order and cannot
    deadlock on them, for any number of threads; an eviction takes two of them the other way
    round. Other reasons to wait are in \<^theory_text>\<open>Pool_Sync\<close> and \<^theory_text>\<open>Node_Runtime\<close>.
  \<^item> \<^theory_text>\<open>Pool_Sync\<close>: the thread pool with its condition variables. Threads fall asleep and are
    notified after the lock is released; this refines \<^theory_text>\<open>Thread_Pool\<close>, loses no wake-up of a
    worker or of a single caller of \<^verbatim>\<open>wait\<close>, and may leave a second caller asleep.
  \<^item> \<^theory_text>\<open>Service_Loop\<close>: the polling passes of \<^verbatim>\<open>ServiceManager\<close> one after the other on a REP
    socket, which is an argument with the alternation of receiving and sending as hypothesis
    \<open>rep_socket\<close>: requests of two frames keep it alive, any other number of frames ends it.
  \<^item> \<^theory_text>\<open>Link_Interleaving\<close>: critical sections of registrations, heartbeats and announcements in
    any order. No remote endpoint is missed; the order of a node's own calls matters.
  \<^item> \<^theory_text>\<open>Network\<close>: any number of nodes on a multicast group that loses, delays, repeats and
    reorders datagrams, built from the constructors, tasks and calls of the theories before. No
    registry holds anything that was never true, and every listening node gets up to date.
  \<^item> \<^theory_text>\<open>Exact_Links\<close>: in that network the remote endpoints of a subscriber are exactly those the
    registry holds at the moment.
  \<^item> \<^theory_text>\<open>Remote_Calls\<close>: the network with the handlers users register and remove: what is
    announced had a handler, and a request by name is answered by it if it is still there.
  \<^item> \<^theory_text>\<open>Membership\<close>: run after run of the receiver's task against the clock: how long a node
    stays in the registry of another.
  \<^item> \<^theory_text>\<open>Hash_Order\<close>: what depends on the order in which the hash maps are visited: the order
    of connections and the choice among several providers of a service.
  \<^item> \<^theory_text>\<open>Pubsub\<close>: publisher, queues of SUB sockets and polling passes up to the callbacks:
    order, no invention, no starvation by throwing callbacks; the topics of the examples.
  \<^item> \<^theory_text>\<open>Poll_Pointers\<close>: \<^verbatim>\<open>SubscriberManager::pollOnce\<close> with the block of memory behind
    \<^verbatim>\<open>subscribers_\<close>, while subscribers are registered.
  \<^item> \<^theory_text>\<open>Data_Races\<close>: reads and writes of the shared data between the lock operations of
    \<^theory_text>\<open>Concurrency\<close>. Data that is always accessed under its mutex is free of races for any number
    of threads; the rest comes with schedules that end in a race.
  \<^item> \<^theory_text>\<open>Node_Runtime\<close>: the four loops of a node in its pool of four workers, from start to the
    joins of the shutdown, with the places at which the receiver's loop can wait for the network.
  \<^item> \<^theory_text>\<open>Examples\<close>, \<^theory_text>\<open>Python_Bindings\<close>: the programs under \<^verbatim>\<open>examples/\<close> as clients of the API,
    the wrappers of \<^verbatim>\<open>python/lancom_pybind.cpp\<close>, and its module as a table of the members that
    the Python names stand for.

  \<^bold>\<open>Loops.\<close> Loops over data are structural recursion or have a measure. The loops that wait for
  another thread (the periodic task, \<^verbatim>\<open>spin\<close>, \<^verbatim>\<open>waitForService\<close>) and the publishing loops of
  the examples are partial functions whose
  value \<open>None\<close> is a call that does not return; that they return is proved where it holds. No fuel
  is used. A request is one call that blocks until the peer answers; a peer that never answers is
  modelled in \<^theory_text>\<open>Node_Runtime\<close> only.

  \<^bold>\<open>Progress.\<close> Liveness is stated without a scheduler: the steps the threads can take by
  themselves are bounded by a measure, so a run ends, and a state in which none is possible is
  the wanted one.

  \<^bold>\<open>Not modelled.\<close> ZeroMQ, msgpack, spdlog, UDP and TCP, pybind11 themselves; the time between
  two runs of a periodic task; what a program does after a data race or an overflow, which C++
  leaves undefined: the theorems say when it happens. What the bindings of
  \<^verbatim>\<open>ZeroLanComNode\<close> and \<^verbatim>\<open>wait_for_service\<close> do: they name members the classes do not have; \<^verbatim>\<open>examples/subscriber_example.cpp\<close>, which does not compile
  and is not built; the test programs.
\<close>

end
